(* ===== verification/Prelude.thy ===== *)
theory Prelude
  imports Main "HOL-Library.Word" "HOL-Library.Monad_Syntax"
begin

text \<open>
  Shared vocabulary of the NebulaX development: the machine integer types of the C++ sources,
  checked array access, the tagged stack heads of the lock-free free lists, and the rewrite
  collections the component theories extend.

  Undefined behaviour is a value.  Reading or writing an array outside its bounds, and a loop
  that never leaves, make an operation return \<open>None\<close>; every other outcome is \<open>Some\<close>.  A theorem
  that an operation returns \<open>Some\<close> is therefore a memory-safety and termination statement.
\<close>

unbundle bit_operations_syntax

section \<open>Machine integers\<close>

type_synonym u8 = "8 word"
type_synonym u16 = "16 word"
type_synonym u32 = "32 word"
type_synonym u64 = "64 word"

abbreviation UINT32_MAX :: u32 where "UINT32_MAX \<equiv> 0xFFFFFFFF"
abbreviation UINT64_MAX :: u64 where "UINT64_MAX \<equiv> 0xFFFFFFFFFFFFFFFF"
abbreviation UINT16_MAX :: u16 where "UINT16_MAX \<equiv> 0xFFFF"

named_theorems arr_simps "rewriting of checked array accesses"
named_theorems link_simps "rewriting of linked-list predicates under pointer updates"

section \<open>Checked arrays\<close>

definition arr_get :: "'a list \<Rightarrow> u32 \<Rightarrow> 'a option" where
  "arr_get xs i = (if unat i < length xs then Some (xs ! unat i) else None)"

definition arr_upd :: "'a list \<Rightarrow> u32 \<Rightarrow> ('a \<Rightarrow> 'a) \<Rightarrow> 'a list option" where
  "arr_upd xs i f = (if unat i < length xs then Some (xs[unat i := f (xs ! unat i)]) else None)"

text \<open>The field \<open>f\<close> of every array element, as a function of the index.\<close>

definition fld :: "('a \<Rightarrow> 'b) \<Rightarrow> 'a list \<Rightarrow> u32 \<Rightarrow> 'b" where
  "fld f xs i = f (xs ! unat i)"

lemma arr_get_Some [arr_simps]: "unat i < length xs \<Longrightarrow> arr_get xs i = Some (xs ! unat i)"
  by (simp add: arr_get_def)

lemma arr_upd_Some [arr_simps]:
  "unat i < length xs \<Longrightarrow> arr_upd xs i f = Some (xs[unat i := f (xs ! unat i)])"
  by (simp add: arr_upd_def)

lemma fld_list_update [simp]:
  assumes "unat i < length xs"
  shows "fld f (xs[unat i := v]) = (fld f xs)(i := f v)"
proof
  fix j
  show "fld f (xs[unat i := v]) j = ((fld f xs)(i := f v)) j"
    using assms by (cases "j = i") (simp_all add: fld_def word_unat_eq_iff)
qed

lemma fld_list_update_same:
  "f v = f (xs ! unat i) \<Longrightarrow> fld f (xs[unat i := v]) = fld f xs"
  by (cases "unat i < length xs")
     (auto simp: fld_def fun_eq_iff list_update_beyond nth_list_update)

lemma nth_list_update_unat [simp]:
  "unat i < length xs \<Longrightarrow> (xs[unat i := v]) ! unat j = (if j = i then v else xs ! unat j)"
  by (simp add: nth_list_update word_unat_eq_iff eq_commute)

section \<open>Tagged stack heads\<close>

text \<open>
  The free lists of the order pool and of the order map keep a 64-bit head: the low half is
  the index of the top slot and the high half a tag that grows with every successful exchange,
  \<^verbatim>\<open>(((fh >> 32) + 1) << 32) | idx\<close>.
\<close>

definition tag_idx :: "u64 \<Rightarrow> u32 \<Rightarrow> u64" where
  "tag_idx fh i = push_bit 32 (drop_bit 32 fh + 1) OR ucast i"

abbreviation head_idx_of :: "u64 \<Rightarrow> u32" where "head_idx_of fh \<equiv> ucast fh"

definition tag_of :: "u64 \<Rightarrow> u32" where
  "tag_of fh = ucast (drop_bit 32 fh)"

lemma ucast_tag_idx [simp]: "(ucast (tag_idx fh i) :: u32) = i"
  unfolding tag_idx_def by (rule bit_word_eqI) (simp add: bit_simps)

section \<open>Sums of machine words\<close>

lemma unat_sum_list_word:
  fixes xs :: "u32 list"
  shows "unat (sum_list xs) = sum_list (map unat xs) mod 2 ^ 32"
proof (induction xs)
  case (Cons x xs)
  have "unat (sum_list (x # xs)) = (unat x + unat (sum_list xs)) mod 2 ^ 32"
    by (simp add: unat_word_ariths)
  also have "\<dots> = (unat x + sum_list (map unat xs)) mod 2 ^ 32"
    using Cons by (simp add: mod_simps)
  finally show ?case by simp
qed simp

lemma sum_list_remove:
  fixes f :: "'a \<Rightarrow> 'b::ab_group_add"
  shows "sum_list (map f (as @ bs)) = sum_list (map f (as @ x # bs)) - f x"
  by (simp add: algebra_simps)

text \<open>Numbers less than \<open>n\<close> apart have different remainders.\<close>

lemma mod_window:
  fixes i j n :: nat
  assumes "i < j" and "j < i + n"
  shows "i mod n \<noteq> j mod n"
proof
  assume "i mod n = j mod n"
  then have "n dvd j - i" using assms(1) by (metis mod_eq_dvd_iff_nat less_imp_le_nat)
  then show False using assms by (auto dest: dvd_imp_le)
qed

end
