(* ===== verification/Order_Types.thy ===== *)
theory Order_Types
  imports Prelude
begin

text \<open>
  The data types of \<^verbatim>\<open>include/order.h\<close>, \<^verbatim>\<open>include/protocol.h\<close>, \<^verbatim>\<open>include/metrics.h\<close>,
  \<^verbatim>\<open>include/trade_pool.h\<close> and \<^verbatim>\<open>include/wal.h\<close>.  An \<^verbatim>\<open>Order*\<close> is the index of its slot in the
  pool's storage; the null pointer is \<open>None\<close>.
\<close>

section \<open>Orders\<close>

datatype side = INVALID | BUY | SELL

datatype order_status = OPEN | PARTIALLY_FILLED | FILLED | CANCELLED

record order =
  user_id :: u64
  order_id :: u64
  side_of :: side
  price :: u32
  original_qty :: u32
  remaining_qty :: u32
  filled_qty :: u32
  sequence :: u64
  status :: order_status
  prev_idx :: u32
  next_idx :: u32
  pool_next_free :: u32

text \<open>A default-constructed \<^verbatim>\<open>Order\<close>.\<close>

definition new_Order :: order where
  "new_Order = \<lparr>user_id = 0, order_id = 0, side_of = INVALID, price = 0, original_qty = 0,
     remaining_qty = 0, filled_qty = 0, sequence = 0, status = OPEN,
     prev_idx = UINT32_MAX, next_idx = UINT32_MAX, pool_next_free = UINT32_MAX\<rparr>"

type_synonym order_ptr = u32

text \<open>
  The part of an order that is not list or pool bookkeeping: two slots that agree on it hold
  the same order.
\<close>

definition core :: "order \<Rightarrow> order" where
  "core o' = o'\<lparr>prev_idx := 0, next_idx := 0, pool_next_free := 0\<rparr>"

lemma core_links [simp]:
  "core (o'\<lparr>prev_idx := a\<rparr>) = core o'" "core (o'\<lparr>next_idx := a\<rparr>) = core o'"
  "core (o'\<lparr>pool_next_free := a\<rparr>) = core o'"
  by (simp_all add: core_def)

lemma core_fields [simp]:
  "user_id (core o') = user_id o'" "order_id (core o') = order_id o'"
  "side_of (core o') = side_of o'" "price (core o') = price o'"
  "original_qty (core o') = original_qty o'" "remaining_qty (core o') = remaining_qty o'"
  "filled_qty (core o') = filled_qty o'" "sequence (core o') = sequence o'"
  "status (core o') = status o'"
  by (simp_all add: core_def)

lemma core_updates [simp]:
  "core (o'\<lparr>remaining_qty := q\<rparr>) = (core o')\<lparr>remaining_qty := q\<rparr>"
  "core (o'\<lparr>filled_qty := q\<rparr>) = (core o')\<lparr>filled_qty := q\<rparr>"
  "core (o'\<lparr>status := st\<rparr>) = (core o')\<lparr>status := st\<rparr>"
  by (simp_all add: core_def)

lemma core_idem [simp]: "core (core o') = core o'"
  by (simp add: core_def)

section \<open>Protocol\<close>

datatype error_code =
    INVALID_SIDE | INVALID_PRICE_QTY_USER | ORDER_NOT_FOUND | INVALID_COMMAND_TYPE
  | POOL_FULL | MKT_NO_LIQUIDITY | FOK_NO_FULL_FILL

fun error_code_value :: "error_code \<Rightarrow> u16" where
  "error_code_value INVALID_SIDE = 1"
| "error_code_value INVALID_PRICE_QTY_USER = 2"
| "error_code_value ORDER_NOT_FOUND = 3"
| "error_code_value INVALID_COMMAND_TYPE = 4"
| "error_code_value POOL_FULL = 5"
| "error_code_value MKT_NO_LIQUIDITY = 6"
| "error_code_value FOK_NO_FULL_FILL = 7"

datatype order_tif = DAY | IOC | FOK

definition CMD_NEW :: u8 where "CMD_NEW = 0x01"
definition CMD_CANCEL :: u8 where "CMD_CANCEL = 0x02"
definition CMD_BOOK :: u8 where "CMD_BOOK = 0x03"
definition SIDE_BUY :: u8 where "SIDE_BUY = 0x01"
definition SIDE_SELL :: u8 where "SIDE_SELL = 0x02"

text \<open>
  \<^verbatim>\<open>BinaryResponse\<close>: the type byte and the union member it selects.  \<^verbatim>\<open>RSP_HEADER\<close> carries the descriptor
  and the number of frames that follow, \<^verbatim>\<open>RSP_CLOSE\<close> the descriptor and the address of the
  acknowledgement flag of its connection.
\<close>

datatype response =
    RSP_TRADE u64 u64 u8 u32 u32
  | RSP_OK u64
  | RSP_FILLED u64
  | RSP_CANCELLED u64
  | RSP_ERROR error_code
  | RSP_BOOK u64 u32 u32 u32 u32
  | RSP_HEADER u32 u32
  | RSP_CLOSE u32 u64

fun rsp_type :: "response \<Rightarrow> u8" where
  "rsp_type (RSP_TRADE _ _ _ _ _) = 0x81"
| "rsp_type (RSP_OK _) = 0x82"
| "rsp_type (RSP_FILLED _) = 0x83"
| "rsp_type (RSP_CANCELLED _) = 0x84"
| "rsp_type (RSP_ERROR _) = 0x85"
| "rsp_type (RSP_BOOK _ _ _ _ _) = 0x86"
| "rsp_type (RSP_HEADER _ _) = 0x87"
| "rsp_type (RSP_CLOSE _ _) = 0x88"

record binary_command =
  cmd_type :: u8
  cmd_side :: u8
  cmd_price :: u32
  cmd_quantity :: u32
  cmd_user_id :: u64
  cmd_order_id :: u64

text \<open>\<^verbatim>\<open>validateCommand\<close> of \<^verbatim>\<open>src/protocol.cpp\<close>\<close>

definition validateCommand :: "binary_command \<Rightarrow> bool" where
  "validateCommand cmd =
     (if cmd_type cmd = CMD_NEW then
        (cmd_side cmd = SIDE_BUY \<or> cmd_side cmd = SIDE_SELL) \<and>
        cmd_price cmd > 0 \<and> cmd_quantity cmd > 0 \<and> cmd_user_id cmd > 0
      else if cmd_type cmd = CMD_CANCEL then
        cmd_order_id cmd > 0 \<and> cmd_user_id cmd > 0
      else cmd_type cmd = CMD_BOOK)"

section \<open>Metrics\<close>

record io_counters =
  recv_frames :: u64
  new_orders :: u64
  cancels :: u64
  book_queries :: u64
  trades :: u64
  errors :: u64
  order_pool_used :: u64
  order_pool_capacity :: u64
  tick_counter :: u64

definition new_IOCounters :: io_counters where
  "new_IOCounters = \<lparr>recv_frames = 0, new_orders = 0, cancels = 0, book_queries = 0, trades = 0,
     errors = 0, order_pool_used = 0, order_pool_capacity = 0, tick_counter = 0\<rparr>"

section \<open>Trade pool\<close>

record trade_entry =
  trade_id :: u64
  buy_order_id :: u64
  sell_order_id :: u64
  te_price :: u32
  te_quantity :: u32
  buyer_id :: u64
  seller_id :: u64
  timestamp :: u64
  te_seq :: u64

definition TRADE_CAPACITY :: u64 where "TRADE_CAPACITY = push_bit 20 1"

text \<open>The shared ring of recent trades: an array of \<open>TRADE_CAPACITY\<close> entries and a counter.\<close>

record trade_pool =
  entries :: "u64 \<Rightarrow> trade_entry"
  write_idx :: u64

end
