(* ===== verification/Linked_List.thy ===== *)
theory Linked_List
  imports Prelude
begin

text \<open>
  Index-linked lists inside arrays.  All the intrusive lists of NebulaX (the free lists, the
  hash chains, the FIFO queue of a price level) link array slots by 32-bit indices and end in
  \<open>UINT32_MAX\<close>.  The list a structure holds is a relation between a link function, a start
  index and the list of visited slots; pointer writes are function updates.
\<close>

section \<open>Singly linked paths\<close>

primrec path :: "(u32 \<Rightarrow> u32) \<Rightarrow> u32 \<Rightarrow> u32 list \<Rightarrow> u32 \<Rightarrow> bool" where
  "path nx x [] y \<longleftrightarrow> x = y"
| "path nx x (a # as) y \<longleftrightarrow> x = a \<and> a \<noteq> UINT32_MAX \<and> path nx (nx a) as y"

abbreviation list_at :: "(u32 \<Rightarrow> u32) \<Rightarrow> u32 \<Rightarrow> u32 list \<Rightarrow> bool" where
  "list_at nx x as \<equiv> path nx x as UINT32_MAX"

lemma path_append [simp]:
  "path nx x (as @ bs) y \<longleftrightarrow> (\<exists>z. path nx x as z \<and> path nx z bs y)"
  by (induction as arbitrary: x) auto

lemma path_upd [link_simps]: "u \<notin> set as \<Longrightarrow> path (nx(u := v)) x as y = path nx x as y"
  by (induction as arbitrary: x) auto

lemma path_cong:
  "(\<And>a. a \<in> set as \<Longrightarrow> nx a = nx' a) \<Longrightarrow> path nx x as y = path nx' x as y"
  by (induction as arbitrary: x) auto

lemma path_not_NIL: "path nx x as y \<Longrightarrow> UINT32_MAX \<notin> set as"
  by (induction as arbitrary: x) auto

lemma list_at_NIL [simp]: "list_at nx UINT32_MAX as \<longleftrightarrow> as = []"
  by (cases as) auto

lemma list_at_nonNIL:
  "x \<noteq> UINT32_MAX \<Longrightarrow> list_at nx x as \<longleftrightarrow> (\<exists>bs. as = x # bs \<and> list_at nx (nx x) bs)"
  by (cases as) auto

lemma list_at_Nil_iff: "list_at nx x as \<Longrightarrow> as = [] \<longleftrightarrow> x = UINT32_MAX"
  by (cases as) auto

lemma list_at_unique: "list_at nx x as \<Longrightarrow> list_at nx x bs \<Longrightarrow> as = bs"
proof (induction as arbitrary: x bs)
  case Nil
  then show ?case by simp
next
  case (Cons a as)
  then show ?case by (cases bs) auto
qed

lemma list_at_distinct: "list_at nx x as \<Longrightarrow> distinct as"
proof (induction as arbitrary: x)
  case (Cons a as)
  have "a \<notin> set as"
  proof
    assume "a \<in> set as"
    then obtain us vs where as: "as = us @ a # vs" by (meson split_list)
    with Cons.prems have "list_at nx a (a # vs)" and "list_at nx a (a # us @ a # vs)"
      by auto
    then have "vs = us @ a # vs" by (metis list_at_unique list.inject)
    then show False by (metis append_self_conv2 length_append length_Cons add_Suc_right
          le_add2 not_less_eq_eq)
  qed
  with Cons show ?case by auto
qed simp

text \<open>Removing a slot: its predecessor is made to point past it.\<close>

lemma path_bypass:
  assumes "list_at nx x (as @ u # bs)" and "as \<noteq> []"
  shows "list_at (nx(last as := nx u)) x (as @ bs)"
proof -
  have d: "distinct (as @ u # bs)" using assms(1) by (rule list_at_distinct)
  from \<open>as \<noteq> []\<close> obtain cs c where as: "as = cs @ [c]" by (metis rev_exhaust)
  from assms(1) d show ?thesis by (auto simp: as path_upd)
qed

lemma path_snoc:
  assumes "list_at nx x as" and "as \<noteq> []" and "u \<notin> set as" and "u \<noteq> UINT32_MAX"
  shows "list_at (nx(u := UINT32_MAX, last as := u)) x (as @ [u])"
proof -
  have d: "distinct as" using assms(1) by (rule list_at_distinct)
  from \<open>as \<noteq> []\<close> obtain cs c where as: "as = cs @ [c]" by (metis rev_exhaust)
  from assms(1,3,4) d show ?thesis by (auto simp: as path_upd)
qed

section \<open>Doubly linked lists\<close>

text \<open>Forward links from the head and backward links from the tail describe the same slots.\<close>

definition dll :: "(u32 \<Rightarrow> u32) \<Rightarrow> (u32 \<Rightarrow> u32) \<Rightarrow> u32 \<Rightarrow> u32 \<Rightarrow> u32 list \<Rightarrow> bool" where
  "dll nx pv h t as \<longleftrightarrow> list_at nx h as \<and> list_at pv t (rev as)"

lemma dll_distinct: "dll nx pv h t as \<Longrightarrow> distinct as"
  by (auto simp: dll_def dest: list_at_distinct)

lemma dll_head: "dll nx pv h t as \<Longrightarrow> as \<noteq> [] \<Longrightarrow> h = hd as \<and> t = last as"
  by (cases as rule: rev_cases; cases "rev as") (auto simp: dll_def hd_append neq_Nil_conv)

lemma dll_cong:
  "(\<And>a. a \<in> set as \<Longrightarrow> nx a = nx' a) \<Longrightarrow> (\<And>a. a \<in> set as \<Longrightarrow> pv a = pv' a) \<Longrightarrow>
   dll nx pv h t as = dll nx' pv' h t as"
  using path_cong [of as nx nx' h UINT32_MAX] path_cong [of "rev as" pv pv' t UINT32_MAX]
  by (auto simp: dll_def)

lemma dll_prev:
  assumes "dll nx pv h t (as @ u # bs)"
  shows "pv u = (if as = [] then UINT32_MAX else last as)"
proof -
  from assms have "list_at pv t (rev bs @ u # rev as)" by (simp add: dll_def)
  then have "list_at pv (pv u) (rev as)" by auto
  then show ?thesis by (cases as rule: rev_cases) auto
qed

lemma dll_next:
  assumes "dll nx pv h t (as @ u # bs)"
  shows "nx u = (if bs = [] then UINT32_MAX else hd bs)"
proof -
  from assms have "list_at nx (nx u) bs" by (auto simp: dll_def)
  then show ?thesis by (cases bs) auto
qed

lemma dll_singleton:
  "u \<noteq> UINT32_MAX \<Longrightarrow> nx u = UINT32_MAX \<Longrightarrow> pv u = UINT32_MAX \<Longrightarrow> dll nx pv u u [u]"
  by (simp add: dll_def)

lemma dll_snoc:
  assumes "dll nx pv h t as" and "as \<noteq> []" and "u \<notin> set as" and "u \<noteq> UINT32_MAX"
  shows "dll (nx(u := UINT32_MAX, t := u)) (pv(u := t)) h u (as @ [u])"
proof -
  have t: "t = last as" using dll_head [OF assms(1,2)] by simp
  have "list_at (nx(u := UINT32_MAX, t := u)) h (as @ [u])"
    unfolding t using assms by (intro path_snoc) (simp_all add: dll_def)
  moreover have "list_at (pv(u := t)) u (rev (as @ [u]))"
    using assms by (simp add: dll_def path_upd)
  ultimately show ?thesis by (simp add: dll_def)
qed

lemma dll_remove:
  assumes "dll nx pv h t (as @ u # bs)"
  shows "dll (if pv u \<noteq> UINT32_MAX then nx(pv u := nx u) else nx)
             (if nx u \<noteq> UINT32_MAX then pv(nx u := pv u) else pv)
             (if h = u then nx u else h) (if t = u then pv u else t) (as @ bs)"
proof -
  let ?as = "as @ u # bs"
  have f: "list_at nx h (as @ u # bs)" and b: "list_at pv t (rev bs @ u # rev as)"
    using assms by (simp_all add: dll_def)
  have d: "distinct ?as" using assms by (rule dll_distinct)
  have N: "UINT32_MAX \<notin> set ?as" using f by (rule path_not_NIL)
  have pvu: "pv u = (if as = [] then UINT32_MAX else last as)" using assms by (rule dll_prev)
  have nxu: "nx u = (if bs = [] then UINT32_MAX else hd bs)" using assms by (rule dll_next)
  have ht: "h = hd ?as" "t = last ?as" using dll_head [OF assms] by simp_all
  have "list_at (if pv u \<noteq> UINT32_MAX then nx(pv u := nx u) else nx)
          (if h = u then nx u else h) (as @ bs)"
  proof (cases "as = []")
    case True
    then show ?thesis using f by (auto simp: pvu)
  next
    case False
    then have "last as \<noteq> UINT32_MAX" and "h \<noteq> u"
      using N d by (auto simp: ht hd_append) (metis Un_iff last_in_set set_append)
    then show ?thesis using path_bypass [OF f False] False by (simp add: pvu)
  qed
  moreover have "list_at (if nx u \<noteq> UINT32_MAX then pv(nx u := pv u) else pv)
          (if t = u then pv u else t) (rev bs @ rev as)"
  proof (cases "bs = []")
    case True
    then show ?thesis using b by (auto simp: nxu)
  next
    case False
    then have "hd bs \<noteq> UINT32_MAX" and "t \<noteq> u"
      using N d by (auto simp: ht) (metis list.set_sel(1))
    then show ?thesis using path_bypass [OF b] False by (simp add: nxu last_rev)
  qed
  ultimately show ?thesis by (simp add: dll_def)
qed

section \<open>Executable traversal\<close>

text \<open>The slots met by following the links, at most \<open>n\<close> of them.\<close>

fun chain :: "(u32 \<Rightarrow> u32) \<Rightarrow> nat \<Rightarrow> u32 \<Rightarrow> u32 list" where
  "chain nx 0 x = []"
| "chain nx (Suc n) x = (if x = UINT32_MAX then [] else x # chain nx n (nx x))"

lemma chain_list_at: "list_at nx x as \<Longrightarrow> length as \<le> n \<Longrightarrow> chain nx n x = as"
proof (induction n arbitrary: x as)
  case (Suc n)
  then show ?case by (cases as) auto
qed simp

lemma distinct_bounded_length:
  fixes as :: "u32 list"
  assumes "distinct as" and "\<forall>a\<in>set as. unat a < n"
  shows "length as \<le> n"
proof -
  have "card (unat ` set as) = length as"
    using assms(1) by (simp add: card_image inj_on_def word_unat_eq_iff distinct_card)
  moreover have "card (unat ` set as) \<le> card {..<n}"
    using assms(2) by (intro card_mono) auto
  ultimately show ?thesis by simp
qed

section \<open>Free lists with a tagged head\<close>

text \<open>A free list: the low half of the head starts a path through the free slots.\<close>

definition free_stack :: "(u32 \<Rightarrow> u32) \<Rightarrow> u64 \<Rightarrow> u32 list \<Rightarrow> bool" where
  "free_stack nx fh fl \<longleftrightarrow> list_at nx (ucast fh) fl"

lemma free_stack_Nil: "free_stack nx fh [] \<longleftrightarrow> head_idx_of fh = UINT32_MAX"
  by (simp add: free_stack_def)

lemma free_stack_Cons:
  "free_stack nx fh (x # fl) \<Longrightarrow> head_idx_of fh = x \<and> x \<noteq> UINT32_MAX \<and> x \<notin> set fl"
  using list_at_distinct [of nx "ucast fh" "x # fl"] by (auto simp: free_stack_def)

lemma free_stack_pop:
  "free_stack nx fh (x # fl) \<Longrightarrow> free_stack nx (tag_idx fh (nx x)) fl"
  by (simp add: free_stack_def)

lemma free_stack_push:
  "free_stack nx fh fl \<Longrightarrow> x \<notin> set fl \<Longrightarrow> x \<noteq> UINT32_MAX \<Longrightarrow>
   free_stack (nx(x := head_idx_of fh)) (tag_idx fh x) (x # fl)"
  by (simp add: free_stack_def path_upd)

lemma free_stack_upd:
  "x \<notin> set fl \<Longrightarrow> free_stack (nx(x := y)) fh fl = free_stack nx fh fl"
  by (simp add: free_stack_def path_upd)

lemma free_stack_cong:
  "(\<And>a. a \<in> set fl \<Longrightarrow> nx a = nx' a) \<Longrightarrow> free_stack nx fh fl = free_stack nx' fh fl"
  by (simp add: free_stack_def path_cong [of fl nx nx'])

lemma free_stack_distinct: "free_stack nx fh fl \<Longrightarrow> distinct fl"
  by (simp add: free_stack_def list_at_distinct)

end
