(* ===== verification/Order_Pool.thy ===== *)
theory Order_Pool
  imports Order_Types Linked_List
begin

text \<open>
  \<^verbatim>\<open>include/order_pool.h\<close>: the fixed-capacity slot pool with a tagged free stack.  The operations
  are those of one thread at a time: a compare-exchange that finds the value it expects succeeds,
  and a failed one reloads and repeats with the same outcome.
\<close>

record order_pool =
  storage :: "order list"
  free_head :: u64
  pool_size :: u64

abbreviation capacity :: "order_pool \<Rightarrow> nat" where "capacity p \<equiv> length (storage p)"

section \<open>Operations\<close>

text \<open>\<^verbatim>\<open>initFreeList\<close>: slot \<open>i\<close> links to \<open>i + 1\<close>, the last slot ends the list.\<close>

definition initFreeList :: "order_pool \<Rightarrow> order_pool" where
  "initFreeList p = p\<lparr>
     storage := map (\<lambda>i. (storage p ! i)\<lparr>pool_next_free :=
                  (if i < capacity p - 1 then of_nat (i + 1) else UINT32_MAX)\<rparr>) [0..<capacity p],
     free_head := 0, pool_size := 0\<rparr>"

text \<open>\<^verbatim>\<open>rebuildFreelist\<close>, used by crash recovery: the same writes over an existing storage.\<close>

definition rebuildFreelist :: "order_pool \<Rightarrow> order_pool" where
  "rebuildFreelist p = p\<lparr>
     storage := map (\<lambda>i. (storage p ! i)\<lparr>pool_next_free :=
                  (if i < capacity p - 1 then of_nat (i + 1) else UINT32_MAX)\<rparr>) [0..<capacity p],
     free_head := 0, pool_size := 0\<rparr>"

text \<open>The owning constructor.\<close>

definition new_OrderPool :: "nat \<Rightarrow> order_pool" where
  "new_OrderPool n = initFreeList \<lparr>storage = replicate n new_Order, free_head = 0, pool_size = 0\<rparr>"

text \<open>The constructor over external (shared) storage.\<close>

definition new_OrderPool_external :: "order list \<Rightarrow> bool \<Rightarrow> order_pool" where
  "new_OrderPool_external external_storage init_free =
     (let p = \<lparr>storage = external_storage, free_head = 0, pool_size = 0\<rparr>
      in if init_free then initFreeList p else p)"

definition allocate :: "order_pool \<Rightarrow> (order_ptr option \<times> order_pool) option" where
  "allocate p =
     (let fh = free_head p; head = head_idx_of fh in
      if head \<noteq> UINT32_MAX then do {
        slot \<leftarrow> arr_get (storage p) head;
        Some (Some head, p\<lparr>free_head := tag_idx fh (pool_next_free slot),
                           pool_size := pool_size p + 1\<rparr>)
      } else Some (None, p))"

definition deallocate :: "u32 \<Rightarrow> order_pool \<Rightarrow> order_pool option" where
  "deallocate idx p =
     (let fh = free_head p; head = head_idx_of fh in do {
        st \<leftarrow> arr_upd (storage p) idx (pool_next_free_update (\<lambda>_. head));
        Some (p\<lparr>storage := st, free_head := tag_idx fh idx, pool_size := pool_size p - 1\<rparr>)
      })"

text \<open>\<^verbatim>\<open>at(idx)\<close>, read and write.\<close>

definition pool_at :: "order_pool \<Rightarrow> u32 \<Rightarrow> order option" where
  "pool_at p idx = arr_get (storage p) idx"

definition pool_upd :: "order_pool \<Rightarrow> u32 \<Rightarrow> (order \<Rightarrow> order) \<Rightarrow> order_pool option" where
  "pool_upd p idx f = map_option (\<lambda>st. p\<lparr>storage := st\<rparr>) (arr_upd (storage p) idx f)"

section \<open>Invariant\<close>

text \<open>\<open>fl\<close> is the list of free slots, the next one to be handed out first.\<close>

definition pool_inv :: "order_pool \<Rightarrow> u32 list \<Rightarrow> bool" where
  "pool_inv p fl \<longleftrightarrow>
     capacity p \<le> unat UINT32_MAX \<and>
     free_stack (fld pool_next_free (storage p)) (free_head p) fl \<and>
     (\<forall>x\<in>set fl. unat x < capacity p) \<and>
     pool_size p = of_nat (capacity p - length fl)"

text \<open>The slots in use: every slot that is not free.\<close>

definition live_slots :: "order_pool \<Rightarrow> u32 list \<Rightarrow> u32 set" where
  "live_slots p fl = {x. unat x < capacity p} - set fl"

lemma pool_inv_distinct: "pool_inv p fl \<Longrightarrow> distinct fl"
  by (auto simp: pool_inv_def dest: free_stack_distinct)

lemma pool_inv_length: "pool_inv p fl \<Longrightarrow> length fl \<le> capacity p"
  using distinct_bounded_length [of fl "capacity p"]
  by (auto simp: pool_inv_def dest: free_stack_distinct)

lemma slot_not_NIL: "capacity p \<le> unat UINT32_MAX \<Longrightarrow> unat x < capacity p \<Longrightarrow> x \<noteq> UINT32_MAX"
  by auto

lemma upt_linked:
  assumes "n \<le> unat UINT32_MAX" and "i \<le> n"
    and "\<And>j. j < n \<Longrightarrow> nx (of_nat j) = (if j < n - 1 then of_nat (j + 1) else UINT32_MAX)"
  shows "list_at nx (if i < n then of_nat i else UINT32_MAX) (map of_nat [i..<n])"
  using assms(2)
proof (induction i rule: inc_induct)
  case (step i)
  have "of_nat i \<noteq> UINT32_MAX"
  proof
    assume "of_nat i = UINT32_MAX"
    then have "unat (of_nat i :: u32) = unat UINT32_MAX" by simp
    then show False using step.hyps assms(1) by (simp add: unat_of_nat)
  qed
  moreover have "list_at nx (nx (of_nat i)) (map of_nat [Suc i..<n])"
    using step assms(3) [of i] by (auto split: if_splits)
  ultimately show ?case using step.hyps by (simp add: upt_conv_Cons)
qed simp

lemma unat_of_nat_slot: "n \<le> unat UINT32_MAX \<Longrightarrow> i < n \<Longrightarrow> unat (of_nat i :: u32) = i"
  by (simp add: unat_of_nat)

lemma initFreeList_inv:
  assumes "0 < capacity p" and "capacity p \<le> unat UINT32_MAX"
  shows "pool_inv (initFreeList p) (map of_nat [0..<capacity p])"
proof -
  let ?q = "initFreeList p" and ?n = "capacity p"
  have cap: "capacity ?q = ?n" by (simp add: initFreeList_def)
  have "fld pool_next_free (storage ?q) (of_nat j) =
      (if j < ?n - 1 then of_nat (j + 1) else UINT32_MAX)" if "j < ?n" for j
    using that assms(2) by (simp add: fld_def initFreeList_def unat_of_nat_slot)
  from upt_linked [OF assms(2) _ this, of 0] assms(1)
  have "free_stack (fld pool_next_free (storage ?q)) (free_head ?q) (map of_nat [0..<?n])"
    by (simp add: free_stack_def initFreeList_def)
  then show ?thesis using assms
    by (auto simp: pool_inv_def cap unat_of_nat_slot) (simp add: initFreeList_def)
qed

lemma rebuildFreelist_eq: "rebuildFreelist p = initFreeList p"
  by (simp add: rebuildFreelist_def initFreeList_def)

lemma new_OrderPool_inv:
  "0 < n \<Longrightarrow> n \<le> unat UINT32_MAX \<Longrightarrow> pool_inv (new_OrderPool n) (map of_nat [0..<n])"
  using initFreeList_inv [of "\<lparr>storage = replicate n new_Order, free_head = 0, pool_size = 0\<rparr>"]
  by (simp add: new_OrderPool_def)

section \<open>Functional behaviour\<close>

lemma allocate_empty: "pool_inv p [] \<Longrightarrow> allocate p = Some (None, p)"
  by (simp add: pool_inv_def free_stack_Nil allocate_def)

lemma allocate_slot:
  assumes "pool_inv p (x # fl)"
  shows "allocate p = Some (Some x, p\<lparr>free_head := tag_idx (free_head p) (pool_next_free (storage p ! unat x)),
                                      pool_size := pool_size p + 1\<rparr>)"
    and "pool_inv (p\<lparr>free_head := tag_idx (free_head p) (pool_next_free (storage p ! unat x)),
                     pool_size := pool_size p + 1\<rparr>) fl"
proof -
  from assms have fs: "free_stack (fld pool_next_free (storage p)) (free_head p) (x # fl)"
    and b: "unat x < capacity p" "\<forall>y\<in>set fl. unat y < capacity p"
    and c: "capacity p \<le> unat UINT32_MAX" and sz: "pool_size p = of_nat (capacity p - length (x # fl))"
    by (auto simp: pool_inv_def)
  have len: "Suc (length fl) \<le> capacity p" using pool_inv_length [OF assms] by simp
  from free_stack_Cons [OF fs] b show "allocate p = Some (Some x, p\<lparr>free_head := tag_idx (free_head p) (pool_next_free (storage p ! unat x)),
                                      pool_size := pool_size p + 1\<rparr>)"
    by (simp add: allocate_def arr_get_Some)
  have "of_nat (capacity p - Suc (length fl)) + 1 = (of_nat (capacity p - length fl) :: u64)"
    using len by (metis Suc_diff_Suc Suc_le_lessD add.commute of_nat_Suc)
  with free_stack_pop [OF fs] b c sz
  show "pool_inv (p\<lparr>free_head := tag_idx (free_head p) (pool_next_free (storage p ! unat x)),
                     pool_size := pool_size p + 1\<rparr>) fl"
    by (simp add: pool_inv_def fld_def)
qed

lemma deallocate_slot:
  assumes "pool_inv p fl" and "unat x < capacity p" and "x \<notin> set fl"
  shows "\<exists>p'. deallocate x p = Some p' \<and> pool_inv p' (x # fl) \<and>
     storage p' = (storage p)[unat x := (storage p ! unat x)\<lparr>pool_next_free := head_idx_of (free_head p)\<rparr>]"
proof -
  have len: "Suc (length fl) \<le> capacity p"
  proof -
    have "length (x # fl) \<le> capacity p"
      using assms by (intro distinct_bounded_length) (auto simp: pool_inv_def free_stack_distinct)
    then show ?thesis by simp
  qed
  have sz: "of_nat (capacity p - length fl) - 1 = (of_nat (capacity p - Suc (length fl)) :: u64)"
  proof -
    have "capacity p - length fl = Suc (capacity p - Suc (length fl))" using len by simp
    then show ?thesis by simp
  qed
  let ?p' = "p\<lparr>storage := (storage p)[unat x := (storage p ! unat x)\<lparr>pool_next_free := head_idx_of (free_head p)\<rparr>],
       free_head := tag_idx (free_head p) x, pool_size := pool_size p - 1\<rparr>"
  have "deallocate x p = Some ?p'" using assms(2) by (simp add: deallocate_def arr_upd_Some Let_def)
  moreover have "pool_inv ?p' (x # fl)"
    using assms sz free_stack_push [of "fld pool_next_free (storage p)" "free_head p" fl x] slot_not_NIL [of p x]
    by (simp add: pool_inv_def)
  ultimately show ?thesis by auto
qed

text \<open>Writes to a slot that is not free leave the free list alone.\<close>

lemma pool_inv_update:
  assumes "pool_inv p fl" and "x \<notin> set fl"
  shows "pool_inv (p\<lparr>storage := (storage p)[unat x := v]\<rparr>) fl"
  using assms by (cases "unat x < capacity p")
    (auto simp: pool_inv_def free_stack_upd list_update_beyond)

lemma pool_upd_live:
  assumes "pool_inv p fl" and "x \<notin> set fl" and "unat x < capacity p"
  shows "pool_upd p x f = Some (p\<lparr>storage := (storage p)[unat x := f (storage p ! unat x)]\<rparr>)"
    and "pool_inv (p\<lparr>storage := (storage p)[unat x := f (storage p ! unat x)]\<rparr>) fl"
  using assms by (simp_all add: pool_upd_def arr_upd_Some pool_inv_update)

section \<open>The allocator contract\<close>

text \<open>
  What a client of a slot allocator relies on: \<open>free_rep s fl\<close> says that \<open>fl\<close> is the stack of
  free slots of \<open>s\<close>, and \<open>valid s x\<close> that \<open>x\<close> is a slot of \<open>s\<close>.
\<close>

locale slot_allocator =
  fixes alloc :: "'s \<Rightarrow> (u32 option \<times> 's) option"
    and release :: "u32 \<Rightarrow> 's \<Rightarrow> 's option"
    and free_rep :: "'s \<Rightarrow> u32 list \<Rightarrow> bool"
    and valid :: "'s \<Rightarrow> u32 \<Rightarrow> bool"
  assumes alloc_Nil: "free_rep s [] \<Longrightarrow> \<exists>s'. alloc s = Some (None, s') \<and> free_rep s' []"
    and alloc_Cons: "free_rep s (x # fl) \<Longrightarrow>
      \<exists>s'. alloc s = Some (Some x, s') \<and> free_rep s' fl \<and> (\<forall>y. valid s' y = valid s y)"
    and release_ok: "free_rep s fl \<Longrightarrow> valid s x \<Longrightarrow> x \<notin> set fl \<Longrightarrow>
      \<exists>s'. release x s = Some s' \<and> free_rep s' (x # fl) \<and> (\<forall>y. valid s' y = valid s y)"
    and free_valid: "free_rep s fl \<Longrightarrow> x \<in> set fl \<Longrightarrow> valid s x"
    and free_distinct: "free_rep s fl \<Longrightarrow> distinct fl"
begin

text \<open>Allocating \<open>n\<close> times in a row.\<close>

fun alloc_many :: "nat \<Rightarrow> 's \<Rightarrow> (u32 list \<times> 's) option" where
  "alloc_many 0 s = Some ([], s)"
| "alloc_many (Suc n) s =
     Option.bind (alloc s) (\<lambda>(r, s'). case r of
         None \<Rightarrow> Some ([], s')
       | Some x \<Rightarrow> Option.bind (alloc_many n s') (\<lambda>(xs, s''). Some (x # xs, s'')))"

lemma alloc_many_take:
  "free_rep s fl \<Longrightarrow> \<exists>s'. alloc_many n s = Some (take n fl, s') \<and> free_rep s' (drop n fl)"
proof (induction n arbitrary: s fl)
  case (Suc n)
  show ?case
  proof (cases fl)
    case Nil
    then show ?thesis using alloc_Nil Suc.prems by fastforce
  next
    case (Cons x xs)
    then obtain s' where "alloc s = Some (Some x, s')" "free_rep s' xs"
      using alloc_Cons Suc.prems by blast
    with Suc.IH [of s' xs] show ?thesis by (auto simp: Cons)
  qed
qed simp

lemma alloc_many_distinct:
  assumes "free_rep s fl" and "alloc_many n s = Some (xs, s')"
  shows "distinct xs" and "length xs = min n (length fl)"
  using alloc_many_take [OF assms(1), of n] free_distinct [OF assms(1)] assms(2) by auto

lemma release_then_alloc:
  assumes "free_rep s fl" and "valid s x" and "x \<notin> set fl"
  shows "\<exists>s1 s2. release x s = Some s1 \<and> alloc s1 = Some (Some x, s2) \<and> free_rep s2 fl"
  using release_ok [OF assms] alloc_Cons by blast

end

interpretation pool_alloc: slot_allocator allocate deallocate pool_inv "\<lambda>p x. unat x < capacity p"
proof (unfold_locales, goal_cases)
  case (1 p) then show ?case using allocate_empty by blast
next
  case (2 p x fl) then show ?case using allocate_slot [of p x fl] by auto
next
  case (3 p fl x) then show ?case using deallocate_slot [of p fl x] by auto
next
  case (4 p fl x) then show ?case by (auto simp: pool_inv_def)
next
  case (5 p fl) then show ?case by (rule pool_inv_distinct)
qed

end
