(* ===== verification/Order_Map.thy ===== *)
theory Order_Map
  imports Order_Pool
begin

text \<open>
  \<^verbatim>\<open>include/order_map.h\<close>: the index from order ids to order slots.  Separate chaining over a
  preallocated node array; a bucket whose chain reaches eight nodes is copied into an overflow
  \<^verbatim>\<open>std::map\<close> and served from there afterwards.  As for the pool, the operations are those of one
  thread at a time; the mutex around the overflow map has no effect then.
\<close>

record node =
  n_order_id :: u64
  n_order :: order_ptr
  n_next :: u32
  n_bucket :: u32

record order_map =
  nodes :: "node list"
  buckets :: "u32 list"
  bucket_len :: "u16 list"
  bstate :: "u8 list"
  bucket_mask :: u32
  hash_shift :: nat
  map_free_head :: u64
  map_size :: u64
  overflow :: "u64 \<rightharpoonup> order_ptr"

section \<open>Construction\<close>

function roundPow2_loop :: "nat \<Rightarrow> nat \<Rightarrow> nat" where
  "roundPow2_loop n p = (if 0 < p \<and> p < n then roundPow2_loop n (2 * p) else p)"
  by pat_completeness auto
termination
  by (relation "measure (\<lambda>(n, p). n - p)") auto

declare roundPow2_loop.simps [simp del]

definition roundPow2 :: "nat \<Rightarrow> u32" where
  "roundPow2 n = of_nat (roundPow2_loop n 1)"

text \<open>\<^verbatim>\<open>__builtin_ctz\<close> on a nonzero argument.\<close>

fun builtin_ctz :: "nat \<Rightarrow> nat" where
  "builtin_ctz n = (if n = 0 \<or> odd n then 0 else Suc (builtin_ctz (n div 2)))"

declare builtin_ctz.simps [simp del]

definition new_OrderMap :: "nat \<Rightarrow> order_map" where
  "new_OrderMap cap =
     (let n = roundPow2 cap in
      \<lparr>nodes = map (\<lambda>i. \<lparr>n_order_id = 0, n_order = 0,
                 n_next = (if i < cap - 1 then of_nat (i + 1) else UINT32_MAX),
                 n_bucket = 0\<rparr>) [0..<cap],
       buckets = replicate (unat n) UINT32_MAX,
       bucket_len = replicate (unat n) 0,
       bstate = replicate (unat n) 0,
       bucket_mask = n - 1,
       hash_shift = 64 - builtin_ctz (unat (n - 1 + 1)),
       map_free_head = 0, map_size = 0, overflow = Map.empty\<rparr>)"

definition TREEIFY_THRESHOLD :: u16 where "TREEIFY_THRESHOLD = 8"

section \<open>Operations\<close>

definition hash :: "order_map \<Rightarrow> u64 \<Rightarrow> u32" where
  "hash m id' = ucast (drop_bit (hash_shift m) (id' * 0x9E3779B97F4A7C15))"

definition allocNode :: "order_map \<Rightarrow> (u32 \<times> order_map) option" where
  "allocNode m =
     (let fh = map_free_head m; head = head_idx_of fh in
      if head \<noteq> UINT32_MAX then do {
        nd \<leftarrow> arr_get (nodes m) head;
        Some (head, m\<lparr>map_free_head := tag_idx fh (n_next nd)\<rparr>)
      } else Some (UINT32_MAX, m))"

definition freeNode :: "u32 \<Rightarrow> order_map \<Rightarrow> order_map option" where
  "freeNode idx m =
     (let fh = map_free_head m; head = head_idx_of fh in do {
        ns \<leftarrow> arr_upd (nodes m) idx (n_next_update (\<lambda>_. head));
        Some (m\<lparr>nodes := ns, map_free_head := tag_idx fh idx\<rparr>)
      })"

text \<open>
  The copying loop of \<^verbatim>\<open>treeify\<close>.  Fuel bounds the traversal: a walk that leaves an array of
  \<open>n\<close> nodes does so within \<open>n\<close> steps, a longer one repeats forever.
\<close>

fun treeify_loop :: "nat \<Rightarrow> node list \<Rightarrow> u32 \<Rightarrow> (u64 \<rightharpoonup> order_ptr) \<Rightarrow> (u64 \<rightharpoonup> order_ptr) option" where
  "treeify_loop 0 ns cur ov = None"
| "treeify_loop (Suc f) ns cur ov =
     (if cur = UINT32_MAX then Some ov
      else do {
        nd \<leftarrow> arr_get ns cur;
        treeify_loop f ns (n_next nd) (ov(n_order_id nd \<mapsto> n_order nd))
      })"

definition treeify :: "u32 \<Rightarrow> order_map \<Rightarrow> order_map option" where
  "treeify b m = do {
     s \<leftarrow> arr_get (bstate m) b;
     if s \<noteq> 0 then Some m
     else do {
       cur \<leftarrow> arr_get (buckets m) b;
       ov \<leftarrow> treeify_loop (Suc (length (nodes m))) (nodes m) cur (overflow m);
       ss \<leftarrow> arr_upd (bstate m) b (\<lambda>_. 2);
       Some (m\<lparr>overflow := ov, bstate := ss\<rparr>)
     }
   }"

text \<open>\<^verbatim>\<open>overflow_[order_id] = order; size_.fetch_add(1)\<close>\<close>

definition overflow_put :: "u64 \<Rightarrow> order_ptr \<Rightarrow> order_map \<Rightarrow> order_map" where
  "overflow_put oid ord m = m\<lparr>overflow := (overflow m)(oid \<mapsto> ord), map_size := map_size m + 1\<rparr>"

definition map_insert :: "u64 \<Rightarrow> order_ptr \<Rightarrow> order_map \<Rightarrow> (bool \<times> order_map) option" where
  "map_insert oid ord m = (let b = hash m oid in do {
     s \<leftarrow> arr_get (bstate m) b;
     if s \<noteq> 0 then Some (True, overflow_put oid ord m)
     else do {
       len \<leftarrow> arr_get (bucket_len m) b;
       if len \<ge> TREEIFY_THRESHOLD \<or> map_free_head m = ucast UINT32_MAX then do {
         m1 \<leftarrow> treeify b m;
         Some (True, overflow_put oid ord m1)
       } else do {
         (idx, m1) \<leftarrow> allocNode m;
         if idx = UINT32_MAX then Some (False, m1)
         else do {
           ns1 \<leftarrow> arr_upd (nodes m1) idx
                   (\<lambda>nd. nd\<lparr>n_order_id := oid, n_order := ord, n_bucket := b\<rparr>);
           s1 \<leftarrow> arr_get (bstate m1) b;
           if s1 \<noteq> 0 then do {
             m2 \<leftarrow> freeNode idx (m1\<lparr>nodes := ns1\<rparr>);
             Some (True, overflow_put oid ord m2)
           } else do {
             head \<leftarrow> arr_get (buckets m1) b;
             ns2 \<leftarrow> arr_upd ns1 idx (n_next_update (\<lambda>_. head));
             bs \<leftarrow> arr_upd (buckets m1) b (\<lambda>_. idx);
             ls \<leftarrow> arr_upd (bucket_len m1) b (\<lambda>l. l + 1);
             let m3 = m1\<lparr>nodes := ns2, buckets := bs, bucket_len := ls,
                         map_size := map_size m1 + 1\<rparr>;
             len3 \<leftarrow> arr_get (bucket_len m3) b;
             m4 \<leftarrow> (if len3 \<ge> TREEIFY_THRESHOLD then treeify b m3 else Some m3);
             Some (True, m4)
           }
         }
       }
     }
   })"

text \<open>
  The chain walk of \<^verbatim>\<open>find\<close>.  Meeting a node of another bucket jumps back to \<^verbatim>\<open>retry\<close>; with no
  concurrent writer the walk then takes the same way again and never ends, hence \<open>None\<close>.
\<close>

fun find_loop :: "nat \<Rightarrow> node list \<Rightarrow> u32 \<Rightarrow> u64 \<Rightarrow> u32 \<Rightarrow> order_ptr option option" where
  "find_loop 0 ns b oid idx = None"
| "find_loop (Suc f) ns b oid idx =
     (if idx = UINT32_MAX then Some None
      else do {
        nd \<leftarrow> arr_get ns idx;
        if n_bucket nd \<noteq> b then None
        else if n_order_id nd = oid then Some (Some (n_order nd))
        else find_loop f ns b oid (n_next nd)
      })"

definition map_find :: "order_map \<Rightarrow> u64 \<Rightarrow> order_ptr option option" where
  "map_find m oid = (let b = hash m oid in do {
     s \<leftarrow> arr_get (bstate m) b;
     if s \<noteq> 0 then Some (overflow m oid)
     else do {
       idx \<leftarrow> arr_get (buckets m) b;
       find_loop (Suc (length (nodes m))) (nodes m) b oid idx
     }
   })"

definition map_contains :: "order_map \<Rightarrow> u64 \<Rightarrow> bool option" where
  "map_contains m oid = map_option (\<lambda>r. r \<noteq> None) (map_find m oid)"

text \<open>\<^verbatim>\<open>freeNode(idx); bucket_len_[b].fetch_sub(1); size_.fetch_sub(1)\<close>\<close>

definition drop_node :: "u32 \<Rightarrow> u32 \<Rightarrow> order_map \<Rightarrow> order_map option" where
  "drop_node b idx m = do {
     m1 \<leftarrow> freeNode idx m;
     ls \<leftarrow> arr_upd (bucket_len m1) b (\<lambda>l. l - 1);
     Some (m1\<lparr>bucket_len := ls, map_size := map_size m1 - 1\<rparr>)
   }"

text \<open>The search for a node inside the chain, holding its predecessor \<open>idx\<close>.\<close>

fun erase_loop :: "nat \<Rightarrow> u32 \<Rightarrow> u64 \<Rightarrow> u32 \<Rightarrow> order_map \<Rightarrow> order_map option" where
  "erase_loop 0 b oid idx m = None"
| "erase_loop (Suc f) b oid idx m =
     (if idx = UINT32_MAX then Some m
      else do {
        nd \<leftarrow> arr_get (nodes m) idx;
        if n_bucket nd \<noteq> b then None
        else if n_next nd = UINT32_MAX then Some m
        else do {
          nd2 \<leftarrow> arr_get (nodes m) (n_next nd);
          if n_order_id nd2 = oid then do {
            ns \<leftarrow> arr_upd (nodes m) idx (n_next_update (\<lambda>_. n_next nd2));
            drop_node b (n_next nd) (m\<lparr>nodes := ns\<rparr>)
          } else erase_loop f b oid (n_next nd) m
        }
      })"

definition map_erase :: "u64 \<Rightarrow> order_map \<Rightarrow> order_map option" where
  "map_erase oid m = (let b = hash m oid in do {
     s \<leftarrow> arr_get (bstate m) b;
     if s \<noteq> 0 then
       Some (case overflow m oid of
          Some _ \<Rightarrow> m\<lparr>overflow := (overflow m)(oid := None), map_size := map_size m - 1\<rparr>
        | None \<Rightarrow> m)
     else do {
       idx \<leftarrow> arr_get (buckets m) b;
       if idx = UINT32_MAX then Some m
       else do {
         nd \<leftarrow> arr_get (nodes m) idx;
         if n_order_id nd = oid then do {
           bs \<leftarrow> arr_upd (buckets m) b (\<lambda>_. n_next nd);
           drop_node b idx (m\<lparr>buckets := bs\<rparr>)
         } else erase_loop (Suc (length (nodes m))) b oid idx m
       }
     }
   })"

section \<open>Invariant and abstraction\<close>

text \<open>The (id, slot) pairs held by a list of nodes.\<close>

definition assocs :: "node list \<Rightarrow> u32 list \<Rightarrow> (u64 \<times> order_ptr) list" where
  "assocs ns cs = map (\<lambda>x. (fld n_order_id ns x, fld n_order ns x)) cs"

text \<open>The finite map an order map stands for.\<close>

definition map_abs :: "order_map \<Rightarrow> u64 \<rightharpoonup> order_ptr" where
  "map_abs m oid =
     (let b = hash m oid in
      if bstate m ! unat b \<noteq> 0 then overflow m oid
      else map_of (assocs (nodes m)
             (chain (fld n_next (nodes m)) (length (nodes m)) (buckets m ! unat b))) oid)"

text \<open>An insertion succeeds: the bucket is a tree, or a node can be had.\<close>

definition map_room :: "order_map \<Rightarrow> u64 \<Rightarrow> bool" where
  "map_room m oid \<longleftrightarrow> bstate m ! unat (hash m oid) \<noteq> 0 \<or>
     bucket_len m ! unat (hash m oid) \<ge> TREEIFY_THRESHOLD \<or>
     map_free_head m = ucast UINT32_MAX \<or> head_idx_of (map_free_head m) \<noteq> UINT32_MAX"

definition map_shape :: "order_map \<Rightarrow> bool" where
  "map_shape m \<longleftrightarrow> (\<exists>k. 1 \<le> k \<and> k \<le> 31 \<and> length (buckets m) = 2 ^ k \<and>
     length (bucket_len m) = 2 ^ k \<and> length (bstate m) = 2 ^ k \<and> hash_shift m = 64 - k) \<and>
     length (nodes m) \<le> unat UINT32_MAX"

definition bucket_rep :: "order_map \<Rightarrow> u32 \<Rightarrow> u32 list \<Rightarrow> bool" where
  "bucket_rep m b cs \<longleftrightarrow>
     list_at (fld n_next (nodes m)) (buckets m ! unat b) cs \<and>
     (\<forall>x\<in>set cs. unat x < length (nodes m) \<and> fld n_bucket (nodes m) x = b \<and>
        hash m (fld n_order_id (nodes m) x) = b) \<and>
     (bstate m ! unat b = 0 \<longrightarrow> bucket_len m ! unat b = of_nat (length cs) \<and>
        length cs \<le> 8 \<and> distinct (map (fld n_order_id (nodes m)) cs))"

text \<open>\<open>ch b\<close> is the chain of bucket \<open>b\<close> and \<open>fl\<close> the list of free nodes.\<close>

definition map_rep :: "order_map \<Rightarrow> (u32 \<Rightarrow> u32 list) \<Rightarrow> u32 list \<Rightarrow> bool" where
  "map_rep m ch fl \<longleftrightarrow> map_shape m \<and>
     free_stack (fld n_next (nodes m)) (map_free_head m) fl \<and>
     (\<forall>x\<in>set fl. unat x < length (nodes m)) \<and>
     (\<forall>b. unat b < length (buckets m) \<longrightarrow> bucket_rep m b (ch b) \<and> set (ch b) \<inter> set fl = {}) \<and>
     (\<forall>x. unat x < length (nodes m) \<longrightarrow> x \<in> set fl \<or>
        (unat (fld n_bucket (nodes m) x) < length (buckets m) \<and> x \<in> set (ch (fld n_bucket (nodes m) x)))) \<and>
     (\<forall>oid v. overflow m oid = Some v \<longrightarrow> bstate m ! unat (hash m oid) \<noteq> 0)"

definition map_inv :: "order_map \<Rightarrow> bool" where
  "map_inv m \<longleftrightarrow> (\<exists>ch fl. map_rep m ch fl)"

lemma unat_drop_bit_bound:
  assumes "k \<le> 64"
  shows "unat (drop_bit (64 - k) (x :: u64)) < 2 ^ k"
proof -
  have "unat x < 2 ^ (64 - k) * 2 ^ k"
    using assms unsigned_less [of x] by (simp flip: power_add)
  then have "unat x div 2 ^ (64 - k) < 2 ^ k"
    by (simp add: less_mult_imp_div_less mult.commute)
  then show ?thesis by (subst unat_drop_bit_eq) (simp only: drop_bit_eq_div)
qed

lemma hash_bound:
  assumes "map_shape m"
  shows "unat (hash m oid) < length (buckets m)"
    and "unat (hash m oid) < length (bucket_len m)"
    and "unat (hash m oid) < length (bstate m)"
proof -
  obtain k where k: "k \<le> 31" "hash_shift m = 64 - k" and
    len: "length (buckets m) = 2 ^ k" "length (bucket_len m) = 2 ^ k" "length (bstate m) = 2 ^ k"
    using assms by (auto simp: map_shape_def)
  let ?x = "drop_bit (64 - k) (oid * 0x9E3779B97F4A7C15) :: u64"
  have b: "unat ?x < 2 ^ k" using k unat_drop_bit_bound [of k "oid * 0x9E3779B97F4A7C15"] by simp
  have "unat ?x mod 2 ^ 32 \<le> unat ?x" by simp
  then have "unat (hash m oid) < 2 ^ k"
    using b by (simp add: hash_def k(2) unsigned_ucast_eq take_bit_eq_mod)
  then show "unat (hash m oid) < length (buckets m)" "unat (hash m oid) < length (bucket_len m)"
    "unat (hash m oid) < length (bstate m)" by (simp_all add: len)
qed

lemma hash_cong [simp]:
  "hash (m\<lparr>nodes := ns\<rparr>) = hash m" "hash (m\<lparr>buckets := bs\<rparr>) = hash m"
  "hash (m\<lparr>bucket_len := ls\<rparr>) = hash m" "hash (m\<lparr>bstate := ss\<rparr>) = hash m"
  "hash (m\<lparr>map_free_head := fh\<rparr>) = hash m" "hash (m\<lparr>map_size := sz\<rparr>) = hash m"
  "hash (m\<lparr>overflow := ov\<rparr>) = hash m"
  by (simp_all add: hash_def fun_eq_iff)

lemma map_shape_cong:
  "length (nodes m') = length (nodes m) \<Longrightarrow> length (buckets m') = length (buckets m) \<Longrightarrow>
   length (bucket_len m') = length (bucket_len m) \<Longrightarrow> length (bstate m') = length (bstate m) \<Longrightarrow>
   hash_shift m' = hash_shift m \<Longrightarrow> map_shape m' = map_shape m"
  by (simp add: map_shape_def)

lemma map_rep_shape: "map_rep m ch fl \<Longrightarrow> map_shape m"
  by (simp add: map_rep_def)

lemma bucket_rep_chain:
  assumes "bucket_rep m b cs"
  shows "chain (fld n_next (nodes m)) (length (nodes m)) (buckets m ! unat b) = cs"
    and "length cs \<le> length (nodes m)"
proof -
  show len: "length cs \<le> length (nodes m)"
    using assms by (intro distinct_bounded_length) (auto simp: bucket_rep_def dest: list_at_distinct)
  then show "chain (fld n_next (nodes m)) (length (nodes m)) (buckets m ! unat b) = cs"
    using assms by (intro chain_list_at) (simp_all add: bucket_rep_def)
qed

lemma map_abs_rep:
  assumes "map_rep m ch fl"
  shows "map_abs m oid = (if bstate m ! unat (hash m oid) \<noteq> 0 then overflow m oid
     else map_of (assocs (nodes m) (ch (hash m oid))) oid)"
proof -
  have "bucket_rep m (hash m oid) (ch (hash m oid))"
    using assms hash_bound(1) [OF map_rep_shape [OF assms], of oid] by (simp add: map_rep_def)
  then show ?thesis by (simp add: map_abs_def Let_def bucket_rep_chain)
qed

lemma map_of_assocs_None: "map_of (assocs ns cs) oid = None \<longleftrightarrow> oid \<notin> fld n_order_id ns ` set cs"
  by (auto simp: assocs_def map_of_eq_None_iff image_image)

lemma assocs_cong:
  "(\<And>x. x \<in> set cs \<Longrightarrow> ns ! unat x = ns' ! unat x) \<Longrightarrow> assocs ns cs = assocs ns' cs"
  by (simp add: assocs_def fld_def)

section \<open>Functional behaviour\<close>

lemma find_loop_assocs:
  assumes "list_at (fld n_next ns) idx cs" and "length cs < f"
    and "\<forall>x\<in>set cs. unat x < length ns \<and> fld n_bucket ns x = b"
  shows "find_loop f ns b oid idx = Some (map_of (assocs ns cs) oid)"
  using assms
proof (induction f arbitrary: idx cs)
  case (Suc f)
  show ?case
  proof (cases cs)
    case Nil
    with Suc.prems show ?thesis by (simp add: assocs_def)
  next
    case (Cons x xs)
    with Suc.prems have "list_at (fld n_next ns) (fld n_next ns x) xs" by simp
    with Suc.IH [of "fld n_next ns x" xs] Suc.prems Cons show ?thesis
      by (simp add: arr_get_Some assocs_def) (simp add: fld_def)
  qed
qed simp

lemma map_find_abs:
  assumes "map_inv m"
  shows "map_find m oid = Some (map_abs m oid)"
proof -
  obtain ch fl where r: "map_rep m ch fl" using assms by (auto simp: map_inv_def)
  let ?b = "hash m oid"
  have hb: "unat ?b < length (buckets m)" "unat ?b < length (bstate m)"
    using hash_bound [OF map_rep_shape [OF r]] by blast+
  then have br: "bucket_rep m ?b (ch ?b)" using r by (simp add: map_rep_def)
  have "find_loop (Suc (length (nodes m))) (nodes m) ?b oid (buckets m ! unat ?b) =
      Some (map_of (assocs (nodes m) (ch ?b)) oid)"
    using br bucket_rep_chain(2) [OF br]
    by (intro find_loop_assocs) (auto simp: bucket_rep_def)
  then show ?thesis using hb by (simp add: map_find_def arr_get_Some map_abs_rep [OF r])
qed

lemma treeify_loop_assocs:
  assumes "list_at (fld n_next ns) cur cs" and "length cs < f"
    and "\<forall>x\<in>set cs. unat x < length ns" and "distinct (map (fld n_order_id ns) cs)"
  shows "treeify_loop f ns cur ov = Some (ov ++ map_of (assocs ns cs))"
  using assms
proof (induction f arbitrary: cur cs ov)
  case (Suc f)
  show ?case
  proof (cases cs)
    case Nil
    with Suc.prems show ?thesis by (simp add: assocs_def)
  next
    case (Cons x xs)
    let ?k = "fld n_order_id ns x" and ?v = "fld n_order ns x"
    have "treeify_loop f ns (fld n_next ns x) (ov(?k \<mapsto> ?v)) =
        Some ((ov(?k \<mapsto> ?v)) ++ map_of (assocs ns xs))"
      using Suc.prems Cons by (intro Suc.IH) auto
    moreover have "(ov(?k \<mapsto> ?v)) ++ map_of (assocs ns xs) = ov ++ map_of (assocs ns cs)"
    proof -
      have "?k \<notin> dom (map_of (assocs ns xs))"
        using Suc.prems(4) Cons by (simp add: domIff map_of_assocs_None)
      then show ?thesis by (simp add: Cons assocs_def map_add_upd_left)
    qed
    ultimately show ?thesis using Suc.prems Cons by (simp add: arr_get_Some) (simp add: fld_def)
  qed
qed simp

lemma treeify_ok:
  assumes r: "map_rep m ch fl" and b: "unat b < length (buckets m)"
  shows "\<exists>m'. treeify b m = Some m' \<and> map_rep m' ch fl \<and> map_abs m' = map_abs m \<and>
     bstate m' ! unat b \<noteq> 0 \<and> hash m' = hash m"
proof (cases "bstate m ! unat b = 0")
  case False
  then show ?thesis using assms hash_bound map_rep_shape [OF r]
    by (auto simp: treeify_def arr_get_Some map_shape_def)
next
  case True
  have br: "bucket_rep m b (ch b)" using assms by (simp add: map_rep_def)
  have lens: "unat b < length (bstate m)" using b map_rep_shape [OF r] by (auto simp: map_shape_def)
  let ?ov = "overflow m ++ map_of (assocs (nodes m) (ch b))"
  let ?m' = "m\<lparr>overflow := ?ov, bstate := (bstate m)[unat b := 2]\<rparr>"
  have tl: "treeify_loop (Suc (length (nodes m))) (nodes m) (buckets m ! unat b) (overflow m) = Some ?ov"
    using br bucket_rep_chain(2) [OF br] True
    by (intro treeify_loop_assocs) (auto simp: bucket_rep_def)
  have t: "treeify b m = Some ?m'"
    using True b lens tl by (simp add: treeify_def arr_get_Some arr_upd_Some del: treeify_loop.simps)
  have keys: "hash m oid = b" if "map_of (assocs (nodes m) (ch b)) oid = Some v" for oid v
    using br that by (auto simp: bucket_rep_def assocs_def dest!: map_of_SomeD)
  have rep': "map_rep ?m' ch fl"
  proof -
    have "bucket_rep ?m' c (ch c)" if "bucket_rep m c (ch c)" for c
      using that lens by (auto simp: bucket_rep_def)
    moreover have "map_shape ?m' = map_shape m" by (rule map_shape_cong) simp_all
    moreover have "bstate ?m' ! unat (hash m oid) \<noteq> 0" if "?ov oid = Some v" for oid v
      using that r keys lens by (auto simp: map_add_Some_iff map_rep_def)
    ultimately show ?thesis using r by (auto simp: map_rep_def)
  qed
  have "map_abs ?m' oid = map_abs m oid" for oid
  proof (cases "hash m oid = b")
    case b': True
    then have "overflow m oid = None" using r True by (cases "overflow m oid") (auto simp: map_rep_def)
    then show ?thesis using b' True lens
      unfolding map_abs_rep [OF rep'] map_abs_rep [OF r] by (simp add: map_add_def split: option.splits)
  next
    case False
    then have "map_of (assocs (nodes m) (ch b)) oid = None" using keys by fastforce
    then show ?thesis using False lens
      unfolding map_abs_rep [OF rep'] map_abs_rep [OF r] by (simp add: map_add_def)
  qed
  then show ?thesis using t rep' lens by auto
qed

lemma overflow_put_ok:
  assumes r: "map_rep m ch fl" and st: "bstate m ! unat (hash m oid) \<noteq> 0"
  shows "map_rep (overflow_put oid v m) ch fl" and "map_abs (overflow_put oid v m) = (map_abs m)(oid \<mapsto> v)"
proof -
  have "bucket_rep (overflow_put oid v m) c (ch c) = bucket_rep m c (ch c)" for c
    by (simp add: bucket_rep_def overflow_put_def)
  moreover have "map_shape (overflow_put oid v m) = map_shape m"
    by (rule map_shape_cong) (simp_all add: overflow_put_def)
  ultimately show "map_rep (overflow_put oid v m) ch fl"
    using r st by (auto simp: map_rep_def overflow_put_def)
  show "map_abs (overflow_put oid v m) = (map_abs m)(oid \<mapsto> v)"
  proof
    fix j
    show "map_abs (overflow_put oid v m) j = ((map_abs m)(oid \<mapsto> v)) j"
      using st by (simp add: map_abs_def overflow_put_def Let_def)
  qed
qed

lemma allocNode_rep:
  assumes r: "map_rep m ch (x # fl)"
  shows "allocNode m = Some (x, m\<lparr>map_free_head := tag_idx (map_free_head m) (fld n_next (nodes m) x)\<rparr>)"
    and "x \<noteq> UINT32_MAX" and "unat x < length (nodes m)" and "x \<notin> set fl"
    and "unat b < length (buckets m) \<Longrightarrow> x \<notin> set (ch b)"
proof -
  have fs: "free_stack (fld n_next (nodes m)) (map_free_head m) (x # fl)"
    and xb: "unat x < length (nodes m)" using r by (auto simp: map_rep_def)
  from free_stack_Cons [OF fs] xb
  show "allocNode m = Some (x, m\<lparr>map_free_head := tag_idx (map_free_head m) (fld n_next (nodes m) x)\<rparr>)"
    "x \<noteq> UINT32_MAX" "x \<notin> set fl"
    by (simp_all add: allocNode_def arr_get_Some fld_def)
  show "unat x < length (nodes m)" by fact
  show "x \<notin> set (ch b)" if "unat b < length (buckets m)"
    using r that by (auto simp: map_rep_def)
qed

text \<open>Linking a fresh node in front of a chain.\<close>

lemma bucket_rep_push:
  assumes br: "bucket_rep m b cs" and b: "unat b < length (buckets m)" "unat b < length (bucket_len m)"
    and st: "bstate m ! unat b = 0" "length cs < 8"
    and x: "x \<noteq> UINT32_MAX" "unat x < length (nodes m)" "x \<notin> set cs"
    and nd: "n_bucket nd = b" "n_next nd = buckets m ! unat b" "hash m (n_order_id nd) = b"
    and fresh: "n_order_id nd \<notin> fld n_order_id (nodes m) ` set cs"
  shows "bucket_rep (m\<lparr>map_free_head := fh, nodes := (nodes m)[unat x := nd], buckets := (buckets m)[unat b := x],
           bucket_len := (bucket_len m)[unat b := bucket_len m ! unat b + 1],
           map_size := sz\<rparr>) b (x # cs)"
  using assms by (auto simp: bucket_rep_def path_upd)

lemma bucket_rep_frame:
  assumes br: "bucket_rep m c cs" and "x \<notin> set cs" and "c \<noteq> b" and x: "unat x < length (nodes m)"
    and b: "unat b < length (buckets m)" "unat b < length (bucket_len m)"
  shows "bucket_rep (m\<lparr>map_free_head := fh, nodes := (nodes m)[unat x := nd], buckets := (buckets m)[unat b := y],
           bucket_len := (bucket_len m)[unat b := l], map_size := sz\<rparr>) c cs"
proof -
  have map_eq: "map ((fld n_order_id (nodes m))(x := i)) cs = map (fld n_order_id (nodes m)) cs" for i
    using \<open>x \<notin> set cs\<close> by simp
  show ?thesis using assms unfolding bucket_rep_def
    by (auto simp: path_upd map_eq)
qed

text \<open>The state after linking node \<open>x\<close> for \<open>oid\<close>, before the threshold check.\<close>

lemma link_node_ok:
  assumes r: "map_rep m ch (x # fl)" and st: "bstate m ! unat (hash m oid) = 0"
    and len: "length (ch (hash m oid)) < 8" and none: "map_abs m oid = None"
    and m3: "m3 = m\<lparr>map_free_head := tag_idx (map_free_head m) (fld n_next (nodes m) x),
           nodes := (nodes m)[unat x := nd], buckets := (buckets m)[unat (hash m oid) := x],
           bucket_len := (bucket_len m)[unat (hash m oid) := bucket_len m ! unat (hash m oid) + 1],
           map_size := sz\<rparr>"
    and nd: "nd = (nodes m ! unat x)\<lparr>n_order_id := oid, n_order := v, n_bucket := hash m oid,
           n_next := buckets m ! unat (hash m oid)\<rparr>"
  shows "map_rep m3 (ch(hash m oid := x # ch (hash m oid))) fl" and "map_abs m3 = (map_abs m)(oid \<mapsto> v)"
proof -
  let ?b = "hash m oid" and ?ch = "ch(hash m oid := x # ch (hash m oid))"
  have hb: "unat ?b < length (buckets m)" "unat ?b < length (bucket_len m)"
    using hash_bound [OF map_rep_shape [OF r]] by blast+
  note a = allocNode_rep [OF r]
  have oid: "oid \<notin> fld n_order_id (nodes m) ` set (ch ?b)"
    using none st by (simp add: map_abs_rep [OF r] map_of_assocs_None)
  have push: "bucket_rep m3 ?b (x # ch ?b)"
    unfolding m3 using r hb st len a oid
    by (intro bucket_rep_push) (auto simp: map_rep_def nd)
  have frame: "bucket_rep m3 c (ch c)" if "c \<noteq> ?b" "unat c < length (buckets m)" for c :: u32
    unfolding m3 using r hb that a by (intro bucket_rep_frame) (auto simp: map_rep_def)
  have shape: "map_shape m3 = map_shape m" by (rule map_shape_cong) (simp_all add: m3)
  have fs: "free_stack (fld n_next (nodes m)) (map_free_head m) (x # fl)" using r by (simp add: map_rep_def)
  have fs3: "free_stack (fld n_next (nodes m3)) (map_free_head m3) fl"
    using free_stack_pop [OF fs] a by (simp add: m3 free_stack_upd)
  have disj: "set (?ch c) \<inter> set fl = {}" if "unat c < length (buckets m)" for c
    using r a(4) that by (auto simp: map_rep_def)
  show rep3: "map_rep m3 ?ch fl"
    unfolding map_rep_def
  proof (intro conjI allI impI ballI)
    show "map_shape m3" using shape r by (simp add: map_rep_def)
    show "free_stack (fld n_next (nodes m3)) (map_free_head m3) fl" by (rule fs3)
    show "unat y < length (nodes m3)" if "y \<in> set fl" for y
      using r that by (simp add: map_rep_def m3)
    fix c :: u32 assume "unat c < length (buckets m3)"
    then have c: "unat c < length (buckets m)" by (simp add: m3)
    show "bucket_rep m3 c (?ch c)" using push frame c by auto
    show "set (?ch c) \<inter> set fl = {}" using disj c by blast
  next
    fix y :: u32 assume "unat y < length (nodes m3)"
    then have y: "unat y < length (nodes m)" by (simp add: m3)
    show "y \<in> set fl \<or> unat (fld n_bucket (nodes m3) y) < length (buckets m3) \<and>
        y \<in> set (?ch (fld n_bucket (nodes m3) y))"
    proof (cases "y = x")
      case True
      then show ?thesis using a(3) hb by (simp add: m3 nd)
    next
      case False
      then have "fld n_bucket (nodes m3) y = fld n_bucket (nodes m) y" using a(3) by (simp add: m3)
      then show ?thesis using r y False by (auto simp: map_rep_def m3)
    qed
  next
    fix k v' assume "overflow m3 k = Some v'"
    then show "bstate m3 ! unat (hash m3 k) \<noteq> 0" using r by (auto simp: map_rep_def m3)
  qed
  show "map_abs m3 = (map_abs m)(oid \<mapsto> v)"
  proof
    fix j
    have same: "assocs (nodes m3) (ch c) = assocs (nodes m) (ch c)" if "unat c < length (buckets m)" for c
      using a(3) a(5) [OF that] by (intro assocs_cong) (auto simp: m3)
    have nx: "assocs (nodes m3) (x # ch ?b) = (oid, v) # assocs (nodes m) (ch ?b)"
      using same [OF hb(1)] a(3) by (simp add: assocs_def m3 nd)
    have hj: "hash m3 = hash m" by (simp add: m3)
    have sj: "bstate m3 = bstate m" "overflow m3 = overflow m" by (simp_all add: m3)
    show "map_abs m3 j = ((map_abs m)(oid \<mapsto> v)) j"
      using st nx same [OF hash_bound(1) [OF map_rep_shape [OF r]], of j]
      unfolding map_abs_rep [OF rep3] map_abs_rep [OF r] hj sj by (auto simp: map_abs_rep [OF r])
  qed
qed

lemma map_insert_ok:
  assumes inv: "map_inv m" and none: "map_abs m oid = None" and room: "map_room m oid"
  shows "\<exists>m'. map_insert oid v m = Some (True, m') \<and> map_inv m' \<and> map_abs m' = (map_abs m)(oid \<mapsto> v)"
proof -
  obtain ch fl where r: "map_rep m ch fl" using inv by (auto simp: map_inv_def)
  let ?b = "hash m oid"
  have hb: "unat ?b < length (buckets m)" "unat ?b < length (bucket_len m)" "unat ?b < length (bstate m)"
    using hash_bound [OF map_rep_shape [OF r]] by blast+
  note gets = arr_get_Some [OF hb(1)] arr_get_Some [OF hb(2)] arr_get_Some [OF hb(3)]
  show ?thesis
  proof (cases "bstate m ! unat ?b = 0")
    case False
    then show ?thesis using overflow_put_ok [OF r False]
      by (auto simp: map_insert_def gets map_inv_def)
  next
    case st: True
    show ?thesis
    proof (cases "bucket_len m ! unat ?b \<ge> TREEIFY_THRESHOLD \<or> map_free_head m = ucast UINT32_MAX")
      case True
      obtain m1 where m1: "treeify ?b m = Some m1" "map_rep m1 ch fl" "map_abs m1 = map_abs m"
        "bstate m1 ! unat ?b \<noteq> 0" "hash m1 = hash m" using treeify_ok [OF r hb(1)] by blast
      then show ?thesis using overflow_put_ok [OF m1(2), of oid v] True st
        by (auto simp: map_insert_def gets map_inv_def)
    next
      case len: False
      have br: "bucket_rep m ?b (ch ?b)" using r hb by (simp add: map_rep_def)
      have l8: "length (ch ?b) < 8"
        using br st len by (auto simp: bucket_rep_def TREEIFY_THRESHOLD_def le_less)
      have "fl \<noteq> []" using room st len r by (auto simp: map_room_def map_rep_def free_stack_Nil)
      then obtain x fl' where fl: "fl = x # fl'" by (cases fl) auto
      note a = allocNode_rep [OF r [unfolded fl]]
      let ?nd = "(nodes m ! unat x)\<lparr>n_order_id := oid, n_order := v, n_bucket := ?b,
           n_next := buckets m ! unat ?b\<rparr>"
      define m3 where "m3 = m\<lparr>map_free_head := tag_idx (map_free_head m) (fld n_next (nodes m) x),
           nodes := (nodes m)[unat x := ?nd], buckets := (buckets m)[unat ?b := x],
           bucket_len := (bucket_len m)[unat ?b := bucket_len m ! unat ?b + 1],
           map_size := map_size m + 1\<rparr>"
      note l = link_node_ok [OF r [unfolded fl] st l8 none m3_def refl]
      obtain m4 where m4: "(if bucket_len m3 ! unat ?b \<ge> TREEIFY_THRESHOLD then treeify ?b m3 else Some m3) = Some m4"
        "map_inv m4" "map_abs m4 = map_abs m3"
      proof (cases "bucket_len m3 ! unat ?b \<ge> TREEIFY_THRESHOLD")
        case True
        have "unat ?b < length (buckets m3)" using hb(1) by (simp add: m3_def)
        from treeify_ok [OF l(1) this] True that show thesis by (auto simp: map_inv_def)
      next
        case False
        with that l(1) show thesis by (auto simp: map_inv_def)
      qed
      have "map_insert oid v m = do { m4 \<leftarrow> (if bucket_len m3 ! unat ?b \<ge> TREEIFY_THRESHOLD then treeify ?b m3 else Some m3); Some (True, m4) }"
        using st len a hb
        by (simp add: map_insert_def gets arr_get_Some arr_upd_Some Let_def m3_def)
      then show ?thesis using m4 l(2) by auto
    qed
  qed
qed

lemma map_insert_full:
  assumes inv: "map_inv m" and full: "\<not> map_room m oid"
  shows "map_insert oid v m = Some (False, m)"
proof -
  obtain ch fl where r: "map_rep m ch fl" using inv by (auto simp: map_inv_def)
  note hb = hash_bound [OF map_rep_shape [OF r], of oid]
  show ?thesis using full
    by (auto simp: map_insert_def arr_get_Some hb map_room_def allocNode_def Let_def)
qed

lemma erase_loop_step:
  assumes "idx \<noteq> UINT32_MAX" and "unat idx < length (nodes m)" and "fld n_bucket (nodes m) idx = b"
    and "fld n_next (nodes m) idx = z" and "z \<noteq> UINT32_MAX" and "unat z < length (nodes m)"
  shows "erase_loop (Suc f) b oid idx m =
    (if fld n_order_id (nodes m) z = oid
     then drop_node b z (m\<lparr>nodes := (nodes m)[unat idx := (nodes m ! unat idx)\<lparr>n_next := fld n_next (nodes m) z\<rparr>]\<rparr>)
     else erase_loop f b oid z m)"
  using assms by (simp add: arr_get_Some arr_upd_Some fld_def)

lemma erase_loop_miss:
  assumes "list_at (fld n_next (nodes m)) idx (y # rest)" and "length rest < f"
    and "\<forall>x\<in>set (y # rest). unat x < length (nodes m) \<and> fld n_bucket (nodes m) x = b"
    and "oid \<notin> fld n_order_id (nodes m) ` set rest"
  shows "erase_loop f b oid idx m = Some m"
  using assms
proof (induction f arbitrary: idx y rest)
  case (Suc f)
  show ?case
  proof (cases rest)
    case Nil
    then show ?thesis using Suc.prems by (simp add: arr_get_Some) (simp add: fld_def)
  next
    case (Cons z zs)
    then have "erase_loop f b oid z m = Some m" using Suc.prems by (intro Suc.IH [of z z zs]) auto
    moreover have "erase_loop (Suc f) b oid idx m = (if fld n_order_id (nodes m) z = oid
       then drop_node b z (m\<lparr>nodes := (nodes m)[unat idx := (nodes m ! unat idx)\<lparr>n_next := fld n_next (nodes m) z\<rparr>]\<rparr>)
       else erase_loop f b oid z m)"
      using Suc.prems Cons by (intro erase_loop_step) auto
    ultimately show ?thesis using Suc.prems(4) Cons by auto
  qed
qed simp

lemma erase_loop_hit:
  assumes "list_at (fld n_next (nodes m)) idx (y # us @ z # ws)" and "length us < f"
    and "\<forall>x\<in>set (y # us @ [z]). unat x < length (nodes m) \<and> fld n_bucket (nodes m) x = b"
    and "oid \<notin> fld n_order_id (nodes m) ` set us" and "fld n_order_id (nodes m) z = oid"
  shows "erase_loop f b oid idx m = drop_node b z (m\<lparr>nodes := (nodes m)[unat (last (y # us)) :=
           (nodes m ! unat (last (y # us)))\<lparr>n_next := fld n_next (nodes m) z\<rparr>]\<rparr>)"
  using assms
proof (induction f arbitrary: idx y us)
  case (Suc f)
  obtain v vs where vs: "us @ z # ws = v # vs" by (cases us) auto
  then have v: "v \<in> set (y # us @ [z])" by (cases us) auto
  have path: "idx = y" "y \<noteq> UINT32_MAX" "fld n_next (nodes m) y = v" "v \<noteq> UINT32_MAX"
    using Suc.prems(1) unfolding vs by auto
  have step: "erase_loop (Suc f) b oid y m = (if fld n_order_id (nodes m) v = oid
       then drop_node b v (m\<lparr>nodes := (nodes m)[unat y := (nodes m ! unat y)\<lparr>n_next := fld n_next (nodes m) v\<rparr>]\<rparr>)
       else erase_loop f b oid v m)"
  proof (rule erase_loop_step)
    show "unat v < length (nodes m)" using Suc.prems(3) v by blast
    show "unat y < length (nodes m)" "fld n_bucket (nodes m) y = b" using Suc.prems(3) by simp_all
  qed (fact path)+
  show ?case
  proof (cases us)
    case Nil
    then show ?thesis using Suc.prems(5) step path(1) vs by simp
  next
    case (Cons v' vs')
    then have v': "v' = v" using vs by simp
    have "erase_loop f b oid v m = drop_node b z (m\<lparr>nodes := (nodes m)[unat (last (v # vs')) :=
           (nodes m ! unat (last (v # vs')))\<lparr>n_next := fld n_next (nodes m) z\<rparr>]\<rparr>)"
      using Suc.prems by (intro Suc.IH) (simp_all add: Cons v')
    moreover have "fld n_order_id (nodes m) v \<noteq> oid" using Suc.prems(4) by (auto simp: Cons v')
    ultimately show ?thesis using step path(1) by (simp add: Cons v' del: erase_loop.simps)
  qed
qed simp

text \<open>Unlinking node \<open>z\<close> from its chain, either at the head or behind its predecessor.\<close>

lemma unlink_node_ok:
  assumes r: "map_rep m ch fl" and b: "unat b < length (buckets m)" and ch: "ch b = as @ z # bs"
    and st: "bstate m ! unat b = 0"
    and ns1: "ns1 = (if as = [] then nodes m else (nodes m)[unat (last as) :=
               (nodes m ! unat (last as))\<lparr>n_next := fld n_next (nodes m) z\<rparr>])"
    and bs1: "bs1 = (if as = [] then (buckets m)[unat b := fld n_next (nodes m) z] else buckets m)"
  shows "\<exists>m'. drop_node b z (m\<lparr>nodes := ns1, buckets := bs1\<rparr>) = Some m' \<and>
           map_rep m' (ch(b := as @ bs)) (z # fl) \<and> map_abs m' = (map_abs m)(fld n_order_id (nodes m) z := None) \<and>
           hash m' = hash m \<and> bstate m' = bstate m"
proof -
  have rb: "bucket_rep m b (ch b)" "set (ch b) \<inter> set fl = {}" using r b by (simp_all add: map_rep_def)
  have br: "bucket_rep m b (as @ z # bs)" using rb(1) by (simp only: ch)
  have sh: "unat b < length (bucket_len m)" using b map_rep_shape [OF r] by (auto simp: map_shape_def)
  have la: "list_at (fld n_next (nodes m)) (buckets m ! unat b) (as @ z # bs)"
    using br by (simp only: bucket_rep_def)
  have dist: "distinct (as @ z # bs)" using la by (rule list_at_distinct)
  have zb: "unat z < length (nodes m)" and asb: "as \<noteq> [] \<Longrightarrow> unat (last as) < length (nodes m)"
    using br by (auto simp: bucket_rep_def)
  have zN: "z \<noteq> UINT32_MAX" using path_not_NIL [OF la] by auto
  let ?h = "head_idx_of (map_free_head m)"
  define ns2 where "ns2 = ns1[unat z := (ns1 ! unat z)\<lparr>n_next := ?h\<rparr>]"
  have len1: "length ns1 = length (nodes m)" by (simp add: ns1)
  have nx: "fld n_next ns2 = (if as = [] then fld n_next (nodes m)
      else (fld n_next (nodes m))(last as := fld n_next (nodes m) z))(z := ?h)"
    using zb asb by (simp add: ns2_def ns1)
  have other: "fld n_order_id ns2 = fld n_order_id (nodes m)" "fld n_order ns2 = fld n_order (nodes m)"
    "fld n_bucket ns2 = fld n_bucket (nodes m)"
    by (simp_all add: ns2_def ns1 fld_list_update_same)
  define m' where "m' = m\<lparr>nodes := ns2, buckets := bs1, map_free_head := tag_idx (map_free_head m) z,
      bucket_len := (bucket_len m)[unat b := bucket_len m ! unat b - 1], map_size := map_size m - 1\<rparr>"
  have d: "drop_node b z (m\<lparr>nodes := ns1, buckets := bs1\<rparr>) = Some m'"
    using zb sh len1 by (simp add: drop_node_def freeNode_def arr_upd_Some Let_def m'_def ns2_def)
  have len2: "length (nodes m') = length (nodes m)" "length (buckets m') = length (buckets m)"
    by (simp_all add: m'_def ns2_def len1 bs1)
  have hash': "hash m' = hash m" and st': "bstate m' = bstate m" "overflow m' = overflow m"
    by (simp_all add: m'_def)
  have brb: "bucket_rep m' b (as @ bs)"
  proof -
    have "list_at (fld n_next ns2) (bs1 ! unat b) (as @ bs)"
    proof (cases "as = []")
      case True
      then show ?thesis using la dist b by (simp add: nx bs1 path_upd)
    next
      case False
      have "list_at ((fld n_next (nodes m))(last as := fld n_next (nodes m) z)) (buckets m ! unat b) (as @ bs)"
        using la False by (rule path_bypass)
      then show ?thesis using False dist unfolding nx by (subst path_upd) (simp_all add: bs1)
    qed
    then show ?thesis using br sh len2 st
      unfolding bucket_rep_def m'_def by (simp add: other) 
  qed
  have notin: "x \<notin> set (ch c)"
    if "x \<in> set (as @ z # bs)" "c \<noteq> b" "unat c < length (buckets m)" for x and c :: u32
  proof -
    have rc: "bucket_rep m c (ch c)" using r that by (simp add: map_rep_def)
    show ?thesis using rc br that(1,2) unfolding bucket_rep_def by metis
  qed
  have brc: "bucket_rep m' c (ch c)" if c: "c \<noteq> b" "unat c < length (buckets m)" for c :: u32
  proof -
    have rc: "bucket_rep m c (ch c)" using r c by (simp add: map_rep_def)
    have "list_at (fld n_next ns2) (buckets m ! unat c) (ch c)"
      using rc notin [of z c] notin [of "last as" c] c by (auto simp: bucket_rep_def nx path_upd)
    moreover have "bs1 ! unat c = buckets m ! unat c" using c b by (simp add: bs1)
    ultimately show ?thesis using rc c(1) sh len2 unfolding bucket_rep_def m'_def
      by (auto simp: other)
  qed
  have fls: "x \<notin> set fl" if "x \<in> set (as @ z # bs)" for x
    using rb(2) that unfolding ch by blast
  have fs: "free_stack (fld n_next ns2) (tag_idx (map_free_head m) z) (z # fl)"
  proof -
    have push: "free_stack ((fld n_next (nodes m))(z := ?h)) (tag_idx (map_free_head m) z) (z # fl)"
      using r fls [of z] zN by (intro free_stack_push) (auto simp: map_rep_def)
    have eq: "fld n_next ns2 a = ((fld n_next (nodes m))(z := ?h)) a" if "a \<in> set (z # fl)" for a
      using that fls [of "last as"] dist by (auto simp: nx)
    show ?thesis using push
      free_stack_cong [of "z # fl" "fld n_next ns2" "(fld n_next (nodes m))(z := ?h)", OF eq] by blast
  qed
  have rep': "map_rep m' (ch(b := as @ bs)) (z # fl)"
    unfolding map_rep_def
  proof (intro conjI allI impI ballI)
    have "map_shape m' = map_shape m" by (rule map_shape_cong) (simp_all add: len2, simp_all add: m'_def)
    then show "map_shape m'" using map_rep_shape [OF r] by simp
    show "free_stack (fld n_next (nodes m')) (map_free_head m') (z # fl)" using fs by (simp add: m'_def)
    show "unat x < length (nodes m')" if "x \<in> set (z # fl)" for x
      using that zb r by (auto simp: len2 map_rep_def)
    fix c :: u32 assume c: "unat c < length (buckets m')"
    show "bucket_rep m' c ((ch(b := as @ bs)) c)" using c brb brc by (simp add: len2)
    show "set ((ch(b := as @ bs)) c) \<inter> set (z # fl) = {}"
    proof (cases "c = b")
      case True
      then show ?thesis using fls dist by auto
    next
      case False
      have "z \<notin> set (ch c)" using notin [of z c] c False by (simp add: len2)
      then show ?thesis using r c False by (auto simp: map_rep_def len2)
    qed
  next
    fix x :: u32 assume "unat x < length (nodes m')"
    then have "x \<in> set fl \<or> unat (fld n_bucket (nodes m) x) < length (buckets m) \<and>
        x \<in> set (ch (fld n_bucket (nodes m) x))" using r by (simp add: map_rep_def len2)
    moreover have "fld n_bucket (nodes m') = fld n_bucket (nodes m)" by (simp add: m'_def other)
    ultimately show "x \<in> set (z # fl) \<or> unat (fld n_bucket (nodes m') x) < length (buckets m') \<and>
        x \<in> set ((ch(b := as @ bs)) (fld n_bucket (nodes m') x))"
      using ch by (auto simp: len2)
  next
    fix k v assume "overflow m' k = Some v"
    then show "bstate m' ! unat (hash m' k) \<noteq> 0" using r by (auto simp: map_rep_def st' hash')
  qed
  have as': "assocs (nodes m') cs = assocs (nodes m) cs" for cs
    by (simp add: assocs_def m'_def other)
  have "map_abs m' j = ((map_abs m)(fld n_order_id (nodes m) z := None)) j" for j
  proof (cases "hash m j = b")
    case True
    have dk: "distinct (map (fld n_order_id (nodes m)) (as @ z # bs))"
      using br st by (simp add: bucket_rep_def)
    have "map_of (assocs (nodes m) (as @ bs)) j =
        (if j = fld n_order_id (nodes m) z then None else map_of (assocs (nodes m) (as @ z # bs)) j)"
    proof (cases "j = fld n_order_id (nodes m) z")
      case True
      then show ?thesis using dk by (auto simp: map_of_assocs_None)
    next
      case False
      then show ?thesis by (auto simp: assocs_def map_add_def split: option.splits)
    qed
    then show ?thesis using True st ch
      unfolding map_abs_rep [OF rep'] map_abs_rep [OF r] st' hash' as' by (simp add: map_abs_rep [OF r])
  next
    case False
    then have "j \<noteq> fld n_order_id (nodes m) z" using br by (auto simp: bucket_rep_def)
    then show ?thesis using False
      unfolding map_abs_rep [OF rep'] st' hash' as' by (simp add: map_abs_rep [OF r])
  qed
  then show ?thesis using d rep' hash' st'(1) by blast
qed

lemma map_erase_rep:
  assumes r: "map_rep m ch fl"
  shows "\<exists>m' ch' fl'. map_erase oid m = Some m' \<and> map_rep m' ch' fl' \<and>
     map_abs m' = (map_abs m)(oid := None) \<and> bstate m' = bstate m \<and> hash m' = hash m \<and>
     (fl' \<noteq> [] \<or> map_free_head m' = map_free_head m \<and> bucket_len m' = bucket_len m)"
proof -
  let ?b = "hash m oid"
  have hb: "unat ?b < length (buckets m)" "unat ?b < length (bstate m)"
    using hash_bound [OF map_rep_shape [OF r]] by blast+
  note gets = arr_get_Some [OF hb(1)] arr_get_Some [OF hb(2)]
  have br: "bucket_rep m ?b (ch ?b)" using r hb by (simp add: map_rep_def)
  have la: "list_at (fld n_next (nodes m)) (buckets m ! unat ?b) (ch ?b)"
    and nds: "\<forall>x\<in>set (ch ?b). unat x < length (nodes m) \<and> fld n_bucket (nodes m) x = ?b"
    using br by (auto simp: bucket_rep_def)
  have lc: "length (ch ?b) \<le> length (nodes m)" using br by (rule bucket_rep_chain(2))
  show ?thesis
  proof (cases "bstate m ! unat ?b = 0")
    case False
    let ?m' = "case overflow m oid of
        Some _ \<Rightarrow> m\<lparr>overflow := (overflow m)(oid := None), map_size := map_size m - 1\<rparr> | None \<Rightarrow> m"
    have e: "map_erase oid m = Some ?m'" using False by (simp add: map_erase_def gets)
    have fields: "nodes ?m' = nodes m" "buckets ?m' = buckets m" "bucket_len ?m' = bucket_len m"
      "bstate ?m' = bstate m" "hash_shift ?m' = hash_shift m" "map_free_head ?m' = map_free_head m"
      "overflow ?m' = (overflow m)(oid := None)" by (auto split: option.splits)
    have hash': "hash ?m' = hash m" by (simp add: hash_def fun_eq_iff fields)
    have "bucket_rep ?m' c (ch c) = bucket_rep m c (ch c)" for c by (simp add: bucket_rep_def fields hash')
    moreover have "map_shape ?m' = map_shape m" by (rule map_shape_cong) (simp_all add: fields)
    ultimately have "map_rep ?m' ch fl" using r by (simp add: map_rep_def fields hash')
    moreover have "map_abs ?m' = (map_abs m)(oid := None)"
    proof
      fix j show "map_abs ?m' j = ((map_abs m)(oid := None)) j"
        using False by (simp add: map_abs_def fields hash' Let_def)
    qed
    ultimately show ?thesis using e fields(3,4,6) hash' by blast
  next
    case st: True
    have abs: "map_abs m oid = map_of (assocs (nodes m) (ch ?b)) oid" using st by (simp add: map_abs_rep [OF r])
    show ?thesis
    proof (cases "oid \<in> fld n_order_id (nodes m) ` set (ch ?b)")
      case False
      have "map_erase oid m = Some m"
      proof (cases "ch ?b")
        case Nil
        then show ?thesis using la st by (simp add: map_erase_def gets)
      next
        case (Cons y rest)
        then have y: "buckets m ! unat ?b = y" "y \<noteq> UINT32_MAX" "unat y < length (nodes m)"
          "n_order_id (nodes m ! unat y) \<noteq> oid" using la nds False by (auto simp: fld_def)
        have "erase_loop (Suc (length (nodes m))) ?b oid y m = Some m"
          using la nds False lc y(1) by (intro erase_loop_miss [of m y y rest]) (auto simp: Cons)
        then show ?thesis using st y by (simp add: map_erase_def gets arr_get_Some del: erase_loop.simps)
      qed
      moreover have "map_abs m oid = None" using False abs by (simp add: map_of_assocs_None)
      ultimately show ?thesis using r by (auto simp: fun_upd_idem)
    next
      case True
      then obtain z where z: "z \<in> set (ch ?b)" "fld n_order_id (nodes m) z = oid" by auto
      then obtain as bs where ch: "ch ?b = as @ z # bs" by (meson split_list)
      have dk: "distinct (map (fld n_order_id (nodes m)) (ch ?b))" using br st by (simp add: bucket_rep_def)
      let ?ns1 = "if as = [] then nodes m else (nodes m)[unat (last as) :=
               (nodes m ! unat (last as))\<lparr>n_next := fld n_next (nodes m) z\<rparr>]"
      let ?bs1 = "if as = [] then (buckets m)[unat ?b := fld n_next (nodes m) z] else buckets m"
      obtain m' where m': "drop_node ?b z (m\<lparr>nodes := ?ns1, buckets := ?bs1\<rparr>) = Some m'"
        "map_rep m' (ch(?b := as @ bs)) (z # fl)" "map_abs m' = (map_abs m)(oid := None)"
        "hash m' = hash m" "bstate m' = bstate m"
        using unlink_node_ok [OF r hb(1) ch st refl refl] z(2) by auto
      have "map_erase oid m = drop_node ?b z (m\<lparr>nodes := ?ns1, buckets := ?bs1\<rparr>)"
      proof (cases as)
        case Nil
        then have "buckets m ! unat ?b = z" "z \<noteq> UINT32_MAX" "unat z < length (nodes m)"
          "n_order_id (nodes m ! unat z) = oid" using la nds z ch by (auto simp: fld_def)
        then show ?thesis using st hb Nil
          by (simp add: map_erase_def gets arr_get_Some arr_upd_Some Let_def) (simp add: fld_def)
      next
        case (Cons y us)
        then have y: "buckets m ! unat ?b = y" "y \<noteq> UINT32_MAX" "unat y < length (nodes m)"
          using la nds ch by auto
        have ny: "n_order_id (nodes m ! unat y) \<noteq> oid" and us: "oid \<notin> fld n_order_id (nodes m) ` set us"
          using dk z(2) ch Cons by (auto simp: fld_def)
        have "erase_loop (Suc (length (nodes m))) ?b oid y m = drop_node ?b z (m\<lparr>nodes := ?ns1\<rparr>)"
          using erase_loop_hit [of m y y us z bs "Suc (length (nodes m))" ?b oid] la nds us z(2) lc y(1)
          by (simp add: ch Cons del: erase_loop.simps)
        then show ?thesis using st y ny Cons
          by (simp add: map_erase_def gets arr_get_Some Let_def del: erase_loop.simps)
      qed
      then have "map_erase oid m = Some m'" using m'(1) by simp
      then show ?thesis using m'(2-5)
        by (intro exI [of _ m'] exI [of _ "ch(?b := as @ bs)"] exI [of _ "z # fl"]) auto
    qed
  qed
qed

lemma map_erase_ok:
  assumes "map_inv m"
  shows "\<exists>m'. map_erase oid m = Some m' \<and> map_inv m' \<and> map_abs m' = (map_abs m)(oid := None) \<and>
     bstate m' = bstate m"
  using assms map_erase_rep unfolding map_inv_def by metis

section \<open>Construction establishes the invariant\<close>

lemma roundPow2_loop_pow:
  "n \<le> 2 ^ 31 \<Longrightarrow> j \<le> 31 \<Longrightarrow> \<exists>k. j \<le> k \<and> k \<le> 31 \<and> roundPow2_loop n (2 ^ j) = 2 ^ k \<and> n \<le> 2 ^ k"
proof (induction "31 - j" arbitrary: j)
  case 0
  then have "j = 31" by simp
  with 0 show ?case by (intro exI [of _ 31]) (simp add: roundPow2_loop.simps [of n])
next
  case (Suc d)
  show ?case
  proof (cases "2 ^ j < n")
    case True
    then have "roundPow2_loop n (2 ^ j) = roundPow2_loop n (2 ^ Suc j)"
      by (simp add: roundPow2_loop.simps [of n "2 ^ j"])
    then show ?thesis using Suc.hyps(1) [of "Suc j"] Suc.hyps(2) Suc.prems by fastforce
  next
    case False
    then show ?thesis using Suc.prems by (intro exI [of _ j]) (simp add: roundPow2_loop.simps [of n "2 ^ j"])
  qed
qed

lemma builtin_ctz_pow: "builtin_ctz (2 ^ k) = k"
  by (induction k) (simp_all add: builtin_ctz.simps [of "Suc 0"] builtin_ctz.simps [of "2 * 2 ^ k" for k])

lemma roundPow2_pow:
  assumes "2 \<le> n" and "n \<le> 2 ^ 31"
  obtains k where "1 \<le> k" and "k \<le> 31" and "unat (roundPow2 n) = 2 ^ k" and "n \<le> 2 ^ k"
proof -
  obtain k where k: "k \<le> 31" "roundPow2_loop n 1 = 2 ^ k" "n \<le> 2 ^ k"
    using roundPow2_loop_pow [of n 0] assms by auto
  have "k \<noteq> 0" using k assms by (cases k) auto
  moreover have "(2 :: nat) ^ k < 2 ^ 32" using k(1) by (intro power_strict_increasing) auto
  then have "unat (roundPow2 n) = 2 ^ k" by (simp only: roundPow2_def k(2) unat_of_nat) simp
  ultimately show thesis using k that [of k] by simp
qed

lemma new_OrderMap_rep:
  assumes "2 \<le> n" and "n \<le> 2 ^ 31"
  shows "map_rep (new_OrderMap n) (\<lambda>_. []) (map of_nat [0..<n])" and "map_abs (new_OrderMap n) = Map.empty"
    and "\<forall>s\<in>set (bstate (new_OrderMap n)). s = 0" and "length (nodes (new_OrderMap n)) = n"
proof -
  let ?m = "new_OrderMap n"
  obtain k where k: "1 \<le> k" "k \<le> 31" "unat (roundPow2 n) = 2 ^ k" using roundPow2_pow [OF assms] by metis
  have lens: "length (buckets ?m) = 2 ^ k" "length (bucket_len ?m) = 2 ^ k" "length (bstate ?m) = 2 ^ k"
    "hash_shift ?m = 64 - k" "length (nodes ?m) = n"
    by (simp_all add: new_OrderMap_def Let_def k builtin_ctz_pow)
  have st: "bstate ?m ! i = 0" "buckets ?m ! i = UINT32_MAX" "bucket_len ?m ! i = 0" if "i < 2 ^ k" for i
    using that by (simp_all add: new_OrderMap_def Let_def k)
  have shape: "map_shape ?m" using k lens assms by (auto simp: map_shape_def)
  have nx: "fld n_next (nodes ?m) (of_nat j) = (if j < n - 1 then of_nat (j + 1) else UINT32_MAX)"
    if "j < n" for j
    using that assms by (simp add: fld_def new_OrderMap_def Let_def unat_of_nat_slot [of n])
  have fs: "free_stack (fld n_next (nodes ?m)) (map_free_head ?m) (map of_nat [0..<n])"
    using upt_linked [of n 0 "fld n_next (nodes ?m)", OF _ _ nx] assms
    by (simp add: free_stack_def new_OrderMap_def Let_def)
  have br: "bucket_rep ?m b []" if "unat b < 2 ^ k" for b using st that by (simp add: bucket_rep_def)
  have all: "x \<in> set (map of_nat [0..<n])" if "unat x < n" for x :: u32
    using that by (auto simp: image_iff intro!: bexI [of _ "unat x"])
  show rep: "map_rep ?m (\<lambda>_. []) (map of_nat [0..<n])"
    unfolding map_rep_def lens using shape fs br all assms
    by (auto simp: unat_of_nat_slot [of n]) (simp_all add: new_OrderMap_def Let_def)
  show "map_abs ?m = Map.empty"
  proof
    fix oid show "map_abs ?m oid = None"
      using st(1) hash_bound(1) [OF shape, of oid] lens by (simp add: map_abs_rep [OF rep] assocs_def)
  qed
  show "\<forall>s\<in>set (bstate ?m). s = 0" by (simp add: new_OrderMap_def Let_def)
  show "length (nodes ?m) = n" by (fact lens)
qed

lemma new_OrderMap_inv: "2 \<le> n \<Longrightarrow> n \<le> 2 ^ 31 \<Longrightarrow> map_inv (new_OrderMap n)"
  using new_OrderMap_rep(1) by (auto simp: map_inv_def)

text \<open>
  While no bucket has been turned into a tree, every node is either free or holds a live entry,
  so an index with fewer entries than nodes accepts one more.
\<close>

lemma map_room_no_tree:
  assumes inv: "map_inv m" and st: "\<forall>s\<in>set (bstate m). s = 0" and few: "card (dom (map_abs m)) < length (nodes m)"
  shows "map_room m oid"
proof (rule ccontr)
  assume no: "\<not> map_room m oid"
  obtain ch fl where r: "map_rep m ch fl" using inv by (auto simp: map_inv_def)
  have s0: "bstate m ! unat b = 0" if "unat b < length (buckets m)" for b :: u32
    using st that map_rep_shape [OF r] by (auto simp: map_shape_def)
  have "fl = []"
  proof (cases fl)
    case (Cons x fl')
    then have "head_idx_of (map_free_head m) \<noteq> UINT32_MAX"
      using r free_stack_Cons [of _ _ x fl'] by (auto simp: map_rep_def)
    then show ?thesis using no by (simp add: map_room_def)
  qed
  let ?N = "{x :: u32. unat x < length (nodes m)}" and ?id = "fld n_order_id (nodes m)"
  have node: "unat (fld n_bucket (nodes m) x) < length (buckets m) \<and> x \<in> set (ch (fld n_bucket (nodes m) x))"
    if "x \<in> ?N" for x using r that \<open>fl = []\<close> by (auto simp: map_rep_def)
  have chain: "bucket_rep m b (ch b)" if "unat b < length (buckets m)" for b using r that by (simp add: map_rep_def)
  have hid: "hash m (?id x) = fld n_bucket (nodes m) x" if "x \<in> ?N" for x
    using node [OF that] chain by (auto simp: bucket_rep_def)
  have inj: "inj_on ?id ?N"
  proof (rule inj_onI)
    fix x y assume xy: "x \<in> ?N" "y \<in> ?N" "?id x = ?id y"
    then have b: "fld n_bucket (nodes m) x = fld n_bucket (nodes m) y" using hid by metis
    let ?c = "ch (fld n_bucket (nodes m) x)"
    have "distinct (map ?id ?c)" using node [OF xy(1)] chain s0 by (simp add: bucket_rep_def)
    then show "x = y" using node [OF xy(1)] node [OF xy(2)] b xy(3)
      by (auto simp: distinct_map inj_on_def)
  qed
  have sub: "?id ` ?N \<subseteq> dom (map_abs m)"
  proof
    fix k assume "k \<in> ?id ` ?N"
    then obtain x where x: "x \<in> ?N" "k = ?id x" by auto
    have "map_of (assocs (nodes m) (ch (hash m k))) k \<noteq> None"
      using node [OF x(1)] hid [OF x(1)] x(2) by (simp add: map_of_assocs_None)
    then show "k \<in> dom (map_abs m)"
      using node [OF x(1)] hid [OF x(1)] x(2) s0 by (simp add: map_abs_rep [OF r] domIff)
  qed
  have "card ?N = length (nodes m)"
  proof -
    have "bij_betw unat ?N {..<length (nodes m)}"
      unfolding bij_betw_def
    proof
      show "inj_on unat ?N" by (simp add: inj_on_def word_unat_eq_iff)
      have "i \<in> unat ` ?N" if i: "i < length (nodes m)" for i
      proof -
        have "unat (of_nat i :: u32) = i"
          using i map_rep_shape [OF r] by (intro unat_of_nat_slot [of "length (nodes m)"]) (simp_all add: map_shape_def)
        then show ?thesis using i by (intro image_eqI [of _ _ "of_nat i :: u32"]) simp_all
      qed
      then show "unat ` ?N = {..<length (nodes m)}" by auto
    qed
    then show ?thesis by (simp add: bij_betw_same_card)
  qed
  then have "length (nodes m) \<le> card (dom (map_abs m))"
    using card_mono [OF _ sub] card_image [OF inj] by simp
  then show False using few by simp
qed

section \<open>The index contract\<close>

text \<open>
  What the order book relies on: the index is a finite map, \<open>find\<close> reads it, an insertion of a
  new id extends it when there is room and reports failure without any effect otherwise, and
  \<open>erase\<close> removes the id and takes no room away.
\<close>

locale id_index =
  fixes find :: "'m \<Rightarrow> u64 \<Rightarrow> order_ptr option option"
    and insert :: "u64 \<Rightarrow> order_ptr \<Rightarrow> 'm \<Rightarrow> (bool \<times> 'm) option"
    and erase :: "u64 \<Rightarrow> 'm \<Rightarrow> 'm option"
    and invar :: "'m \<Rightarrow> bool"
    and room :: "'m \<Rightarrow> u64 \<Rightarrow> bool"
    and abs :: "'m \<Rightarrow> u64 \<rightharpoonup> order_ptr"
  assumes find_abs: "invar m \<Longrightarrow> find m k = Some (abs m k)"
    and insert_room: "invar m \<Longrightarrow> abs m k = None \<Longrightarrow> room m k \<Longrightarrow>
      \<exists>m'. insert k v m = Some (True, m') \<and> invar m' \<and> abs m' = (abs m)(k \<mapsto> v)"
    and insert_no_room: "invar m \<Longrightarrow> \<not> room m k \<Longrightarrow> insert k v m = Some (False, m)"
    and erase_abs: "invar m \<Longrightarrow> \<exists>m'. erase k m = Some m' \<and> invar m' \<and> abs m' = (abs m)(k := None)"
    and erase_room: "invar m \<Longrightarrow> erase k m = Some m' \<Longrightarrow> room m j \<Longrightarrow> room m' j"
begin

lemma insert_total: "invar m \<Longrightarrow> abs m k = None \<Longrightarrow> \<exists>r m'. insert k v m = Some (r, m') \<and> invar m' \<and>
    abs m' = (if r then (abs m)(k \<mapsto> v) else abs m) \<and> r = room m k"
  using insert_room insert_no_room by (cases "room m k") fastforce+

lemma find_after_insert:
  assumes "invar m" and "abs m k = None" and "insert k v m = Some (True, m')"
  shows "find m' j = Some (if j = k then Some v else abs m j)"
proof -
  obtain r m'' where "insert k v m = Some (r, m'')" "invar m''"
    "abs m'' = (if r then (abs m)(k \<mapsto> v) else abs m)" using insert_total [OF assms(1,2)] by blast
  then show ?thesis using assms(3) by (simp add: find_abs)
qed

lemma find_after_erase:
  assumes "invar m" and "erase k m = Some m'"
  shows "find m' j = Some (if j = k then None else abs m j)"
  using erase_abs [OF assms(1), of k] assms(2) by (auto simp: find_abs)

text \<open>Inserting a new id and erasing it again gives back the same map.\<close>

lemma insert_then_erase:
  assumes "invar m" and "abs m k = None" and "room m k"
  shows "\<exists>m1 m2. insert k v m = Some (True, m1) \<and> erase k m1 = Some m2 \<and> invar m2 \<and> abs m2 = abs m"
proof -
  obtain m1 where m1: "insert k v m = Some (True, m1)" "invar m1" "abs m1 = (abs m)(k \<mapsto> v)"
    using insert_room [OF assms] by blast
  obtain m2 where "erase k m1 = Some m2" "invar m2" "abs m2 = (abs m1)(k := None)"
    using erase_abs [OF m1(2)] by blast
  then show ?thesis using m1 assms(2) by auto
qed

end

lemma map_erase_room:
  assumes inv: "map_inv m" and e: "map_erase k m = Some m'" and room: "map_room m j"
  shows "map_room m' j"
proof -
  obtain ch fl where r: "map_rep m ch fl" using inv by (auto simp: map_inv_def)
  obtain ch' fl' where r': "map_rep m' ch' fl'" and same: "bstate m' = bstate m" "hash m' = hash m"
    and fh: "fl' \<noteq> [] \<or> map_free_head m' = map_free_head m \<and> bucket_len m' = bucket_len m"
    using map_erase_rep [OF r, of k] e by auto
  from fh show ?thesis
  proof
    assume "fl' \<noteq> []"
    then show ?thesis using r' by (cases fl') (auto simp: map_room_def map_rep_def dest: free_stack_Cons)
  next
    assume "map_free_head m' = map_free_head m \<and> bucket_len m' = bucket_len m"
    then show ?thesis using room by (simp add: map_room_def same)
  qed
qed

interpretation order_index: id_index map_find map_insert map_erase map_inv map_room map_abs
proof (unfold_locales, goal_cases)
  case (1 m k) then show ?case by (rule map_find_abs)
next
  case (2 m k v) then show ?case by (rule map_insert_ok)
next
  case (3 m k v) then show ?case by (rule map_insert_full)
next
  case (4 m k) then show ?case using map_erase_ok by blast
next
  case (5 m k m' j) then show ?case by (rule map_erase_room)
qed

end
