(* ===== verification/Ordered_Map.thy ===== *)
theory Ordered_Map
  imports Prelude
begin

text \<open>
  The part of \<^verbatim>\<open>std::map<K, V, Compare>\<close> the order book uses.  A map is the list of its entries
  in iteration order; \<open>lt\<close> is the map's comparison object (\<^verbatim>\<open>std::less\<close> for the asks,
  \<^verbatim>\<open>std::greater\<close> for the bids).
\<close>

type_synonym ('k, 'v) omap = "('k \<times> 'v) list"

text \<open>\<^verbatim>\<open>m.find(k)\<close>: the entry's value, if there is one.\<close>

definition om_find :: "'k \<Rightarrow> ('k, 'v) omap \<Rightarrow> 'v option" where
  "om_find k m = map_of m k"

text \<open>
  \<^verbatim>\<open>m[k] = v\<close>: overwrite the entry of \<open>k\<close>, or insert it at its place in the order.  Writing
  through the reference \<^verbatim>\<open>m[k]\<close> is \<open>om_put\<close> of the updated value.
\<close>

fun om_put :: "('k \<Rightarrow> 'k \<Rightarrow> bool) \<Rightarrow> 'k \<Rightarrow> 'v \<Rightarrow> ('k, 'v) omap \<Rightarrow> ('k, 'v) omap" where
  "om_put lt k v [] = [(k, v)]"
| "om_put lt k v ((k', v') # m) =
     (if k = k' then (k, v) # m
      else if lt k k' then (k, v) # (k', v') # m
      else (k', v') # om_put lt k v m)"

text \<open>The value \<^verbatim>\<open>m[k]\<close> reads: a missing entry is created from the default \<open>d\<close>.\<close>

definition om_index :: "'v \<Rightarrow> 'k \<Rightarrow> ('k, 'v) omap \<Rightarrow> 'v" where
  "om_index d k m = (case om_find k m of Some v \<Rightarrow> v | None \<Rightarrow> d)"

text \<open>\<^verbatim>\<open>m.erase(k)\<close>\<close>

definition om_erase :: "'k \<Rightarrow> ('k, 'v) omap \<Rightarrow> ('k, 'v) omap" where
  "om_erase k m = filter (\<lambda>e. fst e \<noteq> k) m"

abbreviation om_sorted :: "('k \<Rightarrow> 'k \<Rightarrow> bool) \<Rightarrow> ('k, 'v) omap \<Rightarrow> bool" where
  "om_sorted lt m \<equiv> sorted_wrt lt (map fst m)"

section \<open>The comparison object's contract\<close>

text \<open>A comparison object orders the keys strictly and totally.\<close>

locale key_order =
  fixes lt :: "'k \<Rightarrow> 'k \<Rightarrow> bool"
  assumes irrefl: "\<not> lt x x"
    and trans: "lt x y \<Longrightarrow> lt y z \<Longrightarrow> lt x z"
    and total: "x = y \<or> lt x y \<or> lt y x"
begin

lemma asym: "lt x y \<Longrightarrow> \<not> lt y x"
  using irrefl trans by blast

lemma sorted_distinct: "sorted_wrt lt xs \<Longrightarrow> distinct xs"
  by (induction xs) (auto simp: irrefl)

lemma find_in_set:
  "om_sorted lt m \<Longrightarrow> om_find k m = Some v \<longleftrightarrow> (k, v) \<in> set m"
  by (auto simp: om_find_def map_of_SomeD intro: map_of_is_SomeI sorted_distinct)

lemma find_split:
  assumes "om_find k m = Some v"
  obtains xs ys where "m = xs @ (k, v) # ys"
  using assms by (metis map_of_SomeD om_find_def split_list)

lemma put_split:
  assumes "om_sorted lt (xs @ (k, v) # ys)"
  shows "om_put lt k v' (xs @ (k, v) # ys) = xs @ (k, v') # ys"
  using assms by (induction xs) (auto dest: asym simp: irrefl)

lemma erase_split:
  assumes "om_sorted lt (xs @ (k, v) # ys)"
  shows "om_erase k (xs @ (k, v) # ys) = xs @ ys"
proof -
  have d: "distinct (map fst (xs @ (k, v) # ys))" using assms by (rule sorted_distinct)
  then have "\<forall>e\<in>set xs. fst e \<noteq> k" and "\<forall>e\<in>set ys. fst e \<noteq> k" by force+
  then show ?thesis by (simp add: om_erase_def)
qed

lemma put_set: "fst ` set (om_put lt k v m) = insert k (fst ` set m)"
proof (induction m)
  case (Cons e m)
  then show ?case by (cases e) (simp add: insert_commute)
qed simp

lemma put_sorted: "om_sorted lt m \<Longrightarrow> om_sorted lt (om_put lt k v m)"
proof (induction m)
  case (Cons e m)
  obtain k' v' where e: "e = (k', v')" by (cases e)
  have "fst e' = k \<or> fst e' \<in> fst ` set m" if "e' \<in> set (om_put lt k v m)" for e'
    using put_set [of k v m] that by auto
  with Cons show ?case using total [of k k'] by (fastforce simp: e intro: trans)
qed simp

lemma put_fresh:
  assumes "om_sorted lt m" and "om_find k m = None"
  obtains xs ys where "m = xs @ ys" and "om_put lt k v m = xs @ (k, v) # ys"
    and "\<forall>e\<in>set xs. lt (fst e) k" and "\<forall>e\<in>set ys. lt k (fst e)"
proof -
  have "\<exists>xs ys. m = xs @ ys \<and> om_put lt k v m = xs @ (k, v) # ys \<and>
          (\<forall>e\<in>set xs. lt (fst e) k) \<and> (\<forall>e\<in>set ys. lt k (fst e))"
    using assms
  proof (induction m)
    case (Cons e m)
    obtain k' v' where e: "e = (k', v')" by (cases e)
    from Cons.prems have nk: "k \<noteq> k'" and m: "om_find k m = None" "om_sorted lt m"
      by (auto simp: e om_find_def split: if_splits)
    show ?case
    proof (cases "lt k k'")
      case True
      with Cons.prems nk show ?thesis
        by (intro exI [of _ "[]"] exI [of _ "e # m"]) (auto simp: e intro: trans)
    next
      case False
      then have "lt k' k" using total nk by blast
      moreover obtain xs ys where "m = xs @ ys" "om_put lt k v m = xs @ (k, v) # ys"
        "\<forall>e\<in>set xs. lt (fst e) k" "\<forall>e\<in>set ys. lt k (fst e)"
        using Cons.IH [OF m(2,1)] by auto
      ultimately show ?thesis using nk False
        by (intro exI [of _ "e # xs"] exI [of _ ys]) (auto simp: e)
    qed
  qed simp
  then show thesis using that by blast
qed

lemma erase_sorted: "om_sorted lt m \<Longrightarrow> om_sorted lt (om_erase k m)"
  by (simp add: om_erase_def sorted_wrt_filter sorted_wrt_map)

end

interpretation less_order: key_order "(<) :: u32 \<Rightarrow> u32 \<Rightarrow> bool"
  by unfold_locales auto

interpretation greater_order: key_order "(>) :: u32 \<Rightarrow> u32 \<Rightarrow> bool"
  by unfold_locales auto

end
