(* ===== verification/Order_Book.thy ===== *)
theory Order_Book
  imports Order_Map Ordered_Map
begin

text \<open>
  \<^verbatim>\<open>include/order_book.h\<close> and \<^verbatim>\<open>src/order_book.cpp\<close>: the two sides of a book as ordered maps from
  price to a FIFO level threaded through the shared pool, and the shared index.  A value of type
  \<open>order_book\<close> holds everything an \<^verbatim>\<open>OrderBook\<close> object reaches: its own two maps and the pool and
  index behind its pointers.
\<close>

record top_of_book =
  bid_price :: u32
  bid_volume :: u32
  ask_price :: u32
  ask_volume :: u32

record price_level =
  head_idx :: u32
  tail_idx :: u32
  level_count :: u32
  total_qty :: u32

definition new_PriceLevel :: price_level where
  "new_PriceLevel = \<lparr>head_idx = UINT32_MAX, tail_idx = UINT32_MAX, level_count = 0, total_qty = 0\<rparr>"

type_synonym levels = "(u32, price_level) omap"

record order_book =
  ob_pool :: order_pool
  ob_index :: order_map
  bids :: levels
  asks :: levels

text \<open>\<^verbatim>\<open>(order.side == Side::BUY) ? bids_ : asks_\<close>, its comparison, and a write to it.\<close>

definition levels_of :: "side \<Rightarrow> order_book \<Rightarrow> levels" where
  "levels_of s b = (if s = BUY then bids b else asks b)"

definition level_lt :: "side \<Rightarrow> u32 \<Rightarrow> u32 \<Rightarrow> bool" where
  "level_lt s = (if s = BUY then (>) else (<))"

definition set_levels :: "side \<Rightarrow> levels \<Rightarrow> order_book \<Rightarrow> order_book" where
  "set_levels s ls b = (if s = BUY then b\<lparr>bids := ls\<rparr> else b\<lparr>asks := ls\<rparr>)"

section \<open>Construction\<close>

definition new_OrderBook :: "nat \<Rightarrow> order_book" where
  "new_OrderBook n = \<lparr>ob_pool = new_OrderPool n, ob_index = new_OrderMap n, bids = [], asks = []\<rparr>"

definition new_OrderBook_external :: "order_pool \<Rightarrow> order_book" where
  "new_OrderBook_external external_pool =
     \<lparr>ob_pool = external_pool, ob_index = new_OrderMap (capacity external_pool), bids = [], asks = []\<rparr>"

definition new_OrderBook_shared :: "order_pool \<Rightarrow> order_map \<Rightarrow> order_book" where
  "new_OrderBook_shared shared_pool shared_index =
     \<lparr>ob_pool = shared_pool, ob_index = shared_index, bids = [], asks = []\<rparr>"

section \<open>Adding and removing orders\<close>

definition addOrder :: "order \<Rightarrow> order_book \<Rightarrow> (bool \<times> order_book) option" where
  "addOrder ord b =
     (if side_of ord = INVALID then Some (False, b)
      else do {
        (slot, p0) \<leftarrow> allocate (ob_pool b);
        case slot of
          None \<Rightarrow> Some (False, b\<lparr>ob_pool := p0\<rparr>)
        | Some idx \<Rightarrow> do {
            p1 \<leftarrow> pool_upd p0 idx (\<lambda>_. ord);
            let ls = levels_of (side_of ord) b;
            let level = om_index new_PriceLevel (price ord) ls;
            (level1, p2) \<leftarrow>
              (if level_count level = 0 then do {
                 p2 \<leftarrow> pool_upd p1 idx (\<lambda>o'. o'\<lparr>prev_idx := UINT32_MAX, next_idx := UINT32_MAX\<rparr>);
                 Some (level\<lparr>head_idx := idx, tail_idx := idx\<rparr>, p2)
               } else do {
                 p2 \<leftarrow> pool_upd p1 idx (\<lambda>o'. o'\<lparr>prev_idx := tail_idx level, next_idx := UINT32_MAX\<rparr>);
                 p3 \<leftarrow> pool_upd p2 (tail_idx level) (next_idx_update (\<lambda>_. idx));
                 Some (level\<lparr>tail_idx := idx\<rparr>, p3)
               });
            let level2 = level1\<lparr>level_count := level_count level1 + 1,
                                total_qty := total_qty level1 + remaining_qty ord\<rparr>;
            let b2 = set_levels (side_of ord)
                       (om_put (level_lt (side_of ord)) (price ord) level2 ls) (b\<lparr>ob_pool := p2\<rparr>);
            (inserted, ix) \<leftarrow> map_insert (order_id ord) idx (ob_index b2);
            Some (True, b2\<lparr>ob_index := ix\<rparr>)
          }
      })"

definition reduceOrderQty :: "order_ptr \<Rightarrow> u32 \<Rightarrow> order_book \<Rightarrow> order_book option" where
  "reduceOrderQty idx amount b = do {
     p1 \<leftarrow> pool_upd (ob_pool b) idx
            (\<lambda>o'. o'\<lparr>remaining_qty := remaining_qty o' - amount, filled_qty := filled_qty o' + amount\<rparr>);
     ord \<leftarrow> pool_at p1 idx;
     let ls = levels_of (side_of ord) b;
     let level = om_index new_PriceLevel (price ord) ls;
     Some (set_levels (side_of ord)
             (om_put (level_lt (side_of ord)) (price ord) (level\<lparr>total_qty := total_qty level - amount\<rparr>) ls)
             (b\<lparr>ob_pool := p1\<rparr>))
   }"

definition reduceQtyCancel :: "order_ptr \<Rightarrow> u32 \<Rightarrow> order_book \<Rightarrow> order_book option" where
  "reduceQtyCancel idx amount b = do {
     p1 \<leftarrow> pool_upd (ob_pool b) idx (\<lambda>o'. o'\<lparr>remaining_qty := remaining_qty o' - amount\<rparr>);
     ord \<leftarrow> pool_at p1 idx;
     let ls = levels_of (side_of ord) b;
     let level = om_index new_PriceLevel (price ord) ls;
     Some (set_levels (side_of ord)
             (om_put (level_lt (side_of ord)) (price ord) (level\<lparr>total_qty := total_qty level - amount\<rparr>) ls)
             (b\<lparr>ob_pool := p1\<rparr>))
   }"

text \<open>\<^verbatim>\<open>removeOrder(Order*)\<close>: unlink from the level, then from the index, then free the slot.\<close>

definition removeOrder_ptr :: "order_ptr \<Rightarrow> order_book \<Rightarrow> order_book option" where
  "removeOrder_ptr idx b = do {
     ord \<leftarrow> pool_at (ob_pool b) idx;
     let s = side_of ord;
     (case om_find (price ord) (levels_of s b) of
        None \<Rightarrow> Some b
      | Some lvl \<Rightarrow> do {
          p1 \<leftarrow> (if prev_idx ord \<noteq> UINT32_MAX
                then pool_upd (ob_pool b) (prev_idx ord) (next_idx_update (\<lambda>_. next_idx ord))
                else Some (ob_pool b));
          ord1 \<leftarrow> pool_at p1 idx;
          p2 \<leftarrow> (if next_idx ord1 \<noteq> UINT32_MAX
                then pool_upd p1 (next_idx ord1) (prev_idx_update (\<lambda>_. prev_idx ord1))
                else Some p1);
          ord2 \<leftarrow> pool_at p2 idx;
          let lvl1 = lvl\<lparr>head_idx := (if head_idx lvl = idx then next_idx ord2 else head_idx lvl),
                         tail_idx := (if tail_idx lvl = idx then prev_idx ord2 else tail_idx lvl),
                         level_count := level_count lvl - 1,
                         total_qty := total_qty lvl - remaining_qty ord2\<rparr>;
          let ls = (if level_count lvl1 = 0 then om_erase (price ord2) (levels_of s b)
                    else om_put (level_lt s) (price ord2) lvl1 (levels_of s b));
          ix \<leftarrow> map_erase (order_id ord2) (ob_index b);
          p3 \<leftarrow> deallocate idx p2;
          Some (set_levels s ls (b\<lparr>ob_pool := p3, ob_index := ix\<rparr>))
        })
   }"

definition removeOrder :: "u64 \<Rightarrow> u64 \<Rightarrow> order_book \<Rightarrow> (bool \<times> order_book) option" where
  "removeOrder oid uid b = do {
     r \<leftarrow> map_find (ob_index b) oid;
     case r of
       None \<Rightarrow> Some (False, b)
     | Some idx \<Rightarrow> do {
         ord \<leftarrow> pool_at (ob_pool b) idx;
         if user_id ord \<noteq> uid then Some (False, b)
         else do {
           b' \<leftarrow> removeOrder_ptr idx b;
           Some (True, b')
         }
       }
   }"

definition findOrder :: "u64 \<Rightarrow> order_book \<Rightarrow> order_ptr option option" where
  "findOrder oid b = map_find (ob_index b) oid"

section \<open>Queries\<close>

text \<open>
  The inner loop of the best-order search: the first order of the level at \<open>idx\<close> whose owner is
  not \<open>exclude\<close>.  A walk that stays in the storage for more steps than there are slots meets a
  slot twice and never leaves, so running out of fuel is non-termination.
\<close>

fun scan_level :: "nat \<Rightarrow> order list \<Rightarrow> u64 \<Rightarrow> u32 \<Rightarrow> order_ptr option option" where
  "scan_level 0 st exclude idx = None"
| "scan_level (Suc f) st exclude idx =
     (if idx = UINT32_MAX then Some None
      else do {
        o' \<leftarrow> arr_get st idx;
        if user_id o' \<noteq> exclude then Some (Some idx)
        else scan_level f st exclude (next_idx o')
      })"

fun scan_levels :: "order list \<Rightarrow> u64 \<Rightarrow> levels \<Rightarrow> order_ptr option option" where
  "scan_levels st exclude [] = Some None"
| "scan_levels st exclude ((p, level) # ls) = do {
     r \<leftarrow> scan_level (Suc (length st)) st exclude (head_idx level);
     case r of
       Some idx \<Rightarrow> Some (Some idx)
     | None \<Rightarrow> scan_levels st exclude ls
   }"

definition best_in :: "u64 \<Rightarrow> order_pool \<Rightarrow> levels \<Rightarrow> order_ptr option option" where
  "best_in exclude p ls =
     (case ls of
        [] \<Rightarrow> Some None
      | (pr, level) # _ \<Rightarrow>
          if exclude = 0 then
            (if level_count level > 0
             then do { o' \<leftarrow> pool_at p (head_idx level); Some (Some (head_idx level)) }
             else Some None)
          else scan_levels (storage p) exclude ls)"

definition getBestBid :: "u64 \<Rightarrow> order_book \<Rightarrow> order_ptr option option" where
  "getBestBid exclude b = best_in exclude (ob_pool b) (bids b)"

definition getBestAsk :: "u64 \<Rightarrow> order_book \<Rightarrow> order_ptr option option" where
  "getBestAsk exclude b = best_in exclude (ob_pool b) (asks b)"

text \<open>The traversal loop \<^verbatim>\<open>while (idx != UINT32_MAX)\<close> with an accumulator.\<close>

fun walk_level :: "nat \<Rightarrow> order list \<Rightarrow> (order \<Rightarrow> 'a \<Rightarrow> 'a) \<Rightarrow> u32 \<Rightarrow> 'a \<Rightarrow> 'a option" where
  "walk_level 0 st step idx acc = None"
| "walk_level (Suc f) st step idx acc =
     (if idx = UINT32_MAX then Some acc
      else do {
        o' \<leftarrow> arr_get st idx;
        walk_level f st step (next_idx o') (step o' acc)
      })"

text \<open>The loop over the levels that stops at the first price outside the limit.\<close>

fun avail_levels :: "(u32 \<Rightarrow> bool) \<Rightarrow> order list \<Rightarrow> levels \<Rightarrow> u32 \<Rightarrow> u32 option" where
  "avail_levels outside st [] tot = Some tot"
| "avail_levels outside st ((p, level) # ls) tot =
     (if outside p then Some tot
      else do {
        t \<leftarrow> walk_level (Suc (length st)) st (\<lambda>o' t. t + remaining_qty o') (head_idx level) tot;
        avail_levels outside st ls t
      })"

definition availableQty :: "side \<Rightarrow> u32 \<Rightarrow> order_book \<Rightarrow> u32 option" where
  "availableQty s pr b =
     (if s = BUY then avail_levels (\<lambda>p. p > pr) (storage (ob_pool b)) (asks b) 0
      else avail_levels (\<lambda>p. p < pr) (storage (ob_pool b)) (bids b) 0)"

definition getTopOfBook :: "order_book \<Rightarrow> top_of_book" where
  "getTopOfBook b =
     \<lparr>bid_price = (case bids b of [] \<Rightarrow> 0 | (p, l) # _ \<Rightarrow> p),
      bid_volume = (case bids b of [] \<Rightarrow> 0 | (p, l) # _ \<Rightarrow> total_qty l),
      ask_price = (case asks b of [] \<Rightarrow> 0 | (p, l) # _ \<Rightarrow> p),
      ask_volume = (case asks b of [] \<Rightarrow> 0 | (p, l) # _ \<Rightarrow> total_qty l)\<rparr>"

definition poolUsage :: "order_book \<Rightarrow> u64" where
  "poolUsage b = pool_size (ob_pool b)"

section \<open>Snapshots\<close>

text \<open>A snapshot file: the magic word and the order records behind it.\<close>

type_synonym snapshot = "u32 \<times> order list"

definition SNAPSHOT_MAGIC :: u32 where "SNAPSHOT_MAGIC = 0x4E4253"

text \<open>One record of \<^verbatim>\<open>saveSnapshot\<close>: the running maximum id and the records written so far.\<close>

definition save_step :: "order \<Rightarrow> u64 \<times> order list \<Rightarrow> u64 \<times> order list" where
  "save_step o' acc = (case acc of (max_id, out) \<Rightarrow>
     (if order_id o' > max_id then order_id o' else max_id, out @ [o']))"

fun save_levels :: "order list \<Rightarrow> levels \<Rightarrow> u64 \<times> order list \<Rightarrow> (u64 \<times> order list) option" where
  "save_levels st [] acc = Some acc"
| "save_levels st ((p, level) # ls) acc = do {
     acc1 \<leftarrow> walk_level (Suc (length st)) st save_step (head_idx level) acc;
     save_levels st ls acc1
   }"

text \<open>The returned value and the file written; \<open>opened\<close> tells whether \<^verbatim>\<open>open\<close> succeeded.\<close>

definition saveSnapshot :: "bool \<Rightarrow> order_book \<Rightarrow> (u64 \<times> snapshot option) option" where
  "saveSnapshot opened b =
     (if \<not> opened then Some (0, None)
      else do {
        acc \<leftarrow> save_levels (storage (ob_pool b)) (bids b) (0, []);
        (max_id, out) \<leftarrow> save_levels (storage (ob_pool b)) (asks b) acc;
        Some (max_id, Some (SNAPSHOT_MAGIC, out))
      })"

fun load_orders :: "order list \<Rightarrow> u64 \<times> u64 \<Rightarrow> order_book \<Rightarrow> ((u64 \<times> u64) \<times> order_book) option" where
  "load_orders [] acc b = Some (acc, b)"
| "load_orders (o' # os) (max_seq, max_id) b = do {
     let o1 = o'\<lparr>prev_idx := UINT32_MAX, next_idx := UINT32_MAX, pool_next_free := UINT32_MAX\<rparr>;
     (added, b1) \<leftarrow> addOrder o1 b;
     load_orders os (if sequence o1 > max_seq then sequence o1 else max_seq,
                     if order_id o1 > max_id then order_id o1 else max_id) b1
   }"

text \<open>\<^verbatim>\<open>loadSnapshot\<close>: a missing file or a wrong magic word leaves the book and the maxima alone.\<close>

definition loadSnapshot :: "snapshot option \<Rightarrow> u64 \<times> u64 \<Rightarrow> order_book \<Rightarrow> ((u64 \<times> u64) \<times> order_book) option" where
  "loadSnapshot file acc b =
     (case file of
        None \<Rightarrow> Some (acc, b)
      | Some (magic, os) \<Rightarrow> if magic \<noteq> SNAPSHOT_MAGIC then Some (acc, b) else load_orders os acc b)"

end
