(* ===== verification/Wal.thy ===== *)
theory Wal
  imports Order_Types
begin

text \<open>
  \<^verbatim>\<open>include/wal.h\<close> and \<^verbatim>\<open>src/wal.cpp\<close>: the write-ahead log, a file of fixed size mapped into memory
  and written as a ring of entries.  A file is its size and its contents read as entries; whether
  \<^verbatim>\<open>open\<close> and \<^verbatim>\<open>mmap\<close> succeed is an argument.
\<close>

record wal_entry =
  we_type :: u8
  we_side :: u8
  we_locate :: u16
  we_price :: u32
  we_quantity :: u32
  we_user_id :: u64
  we_order_id :: u64
  we_wal_seq :: u64

definition WAL_SIZE :: u64 where "WAL_SIZE = push_bit 20 512"

definition WAL_ENTRIES :: u64 where "WAL_ENTRIES = WAL_SIZE div 40"

record wal_file =
  wf_size :: u64
  wf_data :: "u64 \<Rightarrow> wal_entry"

text \<open>What a hole of the file reads as.\<close>

definition zero_entry :: wal_entry where
  "zero_entry = \<lparr>we_type = 0, we_side = 0, we_locate = 0, we_price = 0, we_quantity = 0,
     we_user_id = 0, we_order_id = 0, we_wal_seq = 0\<rparr>"

section \<open>Writer\<close>

record wal_writer =
  wal_base :: "u64 \<Rightarrow> wal_entry"
  wal_total :: u64

definition WalWriter_init :: "bool \<Rightarrow> bool \<Rightarrow> wal_file \<Rightarrow> wal_writer option \<times> wal_file" where
  "WalWriter_init open_ok mmap_ok f =
     (if \<not> open_ok then (None, f)
      else
        let sz = wf_size f;
            f1 = (if sz = 0 then \<lparr>wf_size = WAL_SIZE, wf_data = (\<lambda>_. zero_entry)\<rparr> else f);
            n = (if sz = 0 then 0 else sz div 40);
            n1 = (if n > WAL_ENTRIES then WAL_ENTRIES else n)
        in if mmap_ok then (Some \<lparr>wal_base = wf_data f1, wal_total = n1\<rparr>, f1) else (None, f1))"

definition wal_append :: "wal_entry \<Rightarrow> wal_writer \<Rightarrow> wal_writer" where
  "wal_append entry w =
     (let pos = wal_total w mod WAL_ENTRIES
      in w\<lparr>wal_base := (wal_base w)(pos := entry), wal_total := wal_total w + 1\<rparr>)"

definition needCheckpoint :: "wal_writer \<Rightarrow> bool" where
  "needCheckpoint w \<longleftrightarrow> wal_total w > 0 \<and> wal_total w mod WAL_ENTRIES = 0"

definition curPosition :: "wal_writer \<Rightarrow> u64" where
  "curPosition w = wal_total w mod WAL_ENTRIES"

text \<open>\<^verbatim>\<open>close\<close> flushes the mapping to the file.\<close>

definition WalWriter_close :: "wal_writer \<Rightarrow> wal_file \<Rightarrow> wal_file" where
  "WalWriter_close w f = f\<lparr>wf_data := wal_base w\<rparr>"

section \<open>Reader\<close>

record wal_reader =
  rd_base :: "u64 \<Rightarrow> wal_entry"
  rd_count :: u64

definition WalReader_open :: "bool \<Rightarrow> bool \<Rightarrow> wal_file \<Rightarrow> wal_reader option" where
  "WalReader_open open_ok mmap_ok f =
     (if \<not> open_ok \<or> wf_size f < 40 \<or> \<not> mmap_ok then None
      else let n = wf_size f div 40
           in Some \<lparr>rd_base = wf_data f, rd_count = (if n > WAL_ENTRIES then WAL_ENTRIES else n)\<rparr>)"

definition entryCount :: "wal_reader \<Rightarrow> u64" where
  "entryCount r = rd_count r"

definition entryAt :: "wal_reader \<Rightarrow> u64 \<Rightarrow> wal_entry option" where
  "entryAt r i = (if i < rd_count r then Some (rd_base r i) else None)"

section \<open>The ring\<close>

lemma WAL_ENTRIES_value: "WAL_ENTRIES = 13421772"
  unfolding WAL_ENTRIES_def WAL_SIZE_def by code_simp

lemma unat_WAL_ENTRIES: "unat WAL_ENTRIES = 13421772"
  by (simp add: WAL_ENTRIES_value)

definition appends :: "wal_entry list \<Rightarrow> wal_writer \<Rightarrow> wal_writer" where
  "appends es w = fold wal_append es w"

lemma appends_total: "wal_total (appends es w) = wal_total w + of_nat (length es)"
  unfolding appends_def by (induction es arbitrary: w) (simp_all add: wal_append_def Let_def)

text \<open>The physical position of the entry written as number \<open>n\<close>.\<close>

definition wal_pos :: "nat \<Rightarrow> u64" where
  "wal_pos n = of_nat n mod WAL_ENTRIES"

lemma unat_wal_pos: "n < 2 ^ 64 \<Longrightarrow> unat (wal_pos n) = n mod 13421772"
  by (simp add: wal_pos_def unat_mod unat_WAL_ENTRIES unat_of_nat)

lemma wal_pos_eq:
  assumes "m < 2 ^ 64" and "n < 2 ^ 64"
  shows "wal_pos m = wal_pos n \<longleftrightarrow> m mod 13421772 = n mod 13421772"
  using unat_wal_pos [OF assms(1)] unat_wal_pos [OF assms(2)] by (metis word_unat_eq_iff)

lemma appends_base:
  assumes "unat (wal_total w) + length es < 2 ^ 64" and "j < length es" and "length es - j \<le> 13421772"
  shows "wal_base (appends es w) (wal_pos (unat (wal_total w) + j)) = es ! j"
  using assms
proof (induction es rule: rev_induct)
  case (snoc e es)
  let ?n = "unat (wal_total w)" and ?w = "appends es w"
  have step: "appends (es @ [e]) w = wal_append e ?w" by (simp add: appends_def)
  have pos: "wal_total ?w mod WAL_ENTRIES = wal_pos (?n + length es)"
    by (simp add: appends_total wal_pos_def)
  show ?case
  proof (cases "j = length es")
    case True
    then show ?thesis by (simp add: step wal_append_def pos)
  next
    case False
    then have j: "j < length es" using snoc.prems by simp
    have "wal_pos (?n + j) \<noteq> wal_pos (?n + length es)"
      using snoc.prems j mod_window [of "?n + j" "?n + length es" 13421772] by (subst wal_pos_eq) auto
    then show ?thesis using snoc j by (simp add: step wal_append_def pos nth_append)
  qed
qed simp

end
