(* ===== verification/Matching_Engine.thy ===== *)
theory Matching_Engine
  imports Order_Book Wal
begin

text \<open>
  \<^verbatim>\<open>include/matching_engine.h\<close> and \<^verbatim>\<open>src/matching_engine.cpp\<close>.  The part of the engine the matching
  loops write besides the book (counters, trade pool, the two function-local statics
  \<^verbatim>\<open>trade_id\<close>) is the record \<open>recorder\<close>; \<open>engine\<close> extends it by the books, the shared pool and
  index, the id counter and the log.  A handler takes the responses so far and returns them
  extended, as the code appends to its \<^verbatim>\<open>out\<close> vector.
\<close>

record recorder =
  eng_metrics :: "io_counters option"
  eng_trade_pool :: "trade_pool option"
  buy_trade_id :: u64
  sell_trade_id :: u64
  next_sequence :: u64

record engine = recorder +
  books :: "u64 \<rightharpoonup> levels \<times> levels"
  shared_pool :: order_pool
  shared_index :: order_map
  next_order_id :: u64
  wal :: "wal_writer option"

definition kMaxLocate :: u64 where "kMaxLocate = 65536"

text \<open>\<^verbatim>\<open>if (metrics_) ...\<close>\<close>

definition bump :: "(io_counters \<Rightarrow> io_counters) \<Rightarrow> 'a recorder_scheme \<Rightarrow> 'a recorder_scheme" where
  "bump f e = e\<lparr>eng_metrics := map_option f (eng_metrics e)\<rparr>"

section \<open>Construction\<close>

definition new_engine :: "order_pool \<Rightarrow> order_map \<Rightarrow> io_counters option \<Rightarrow> engine" where
  "new_engine pool index m =
     bump (\<lambda>c. c\<lparr>order_pool_capacity := of_nat (capacity pool)\<rparr>)
       \<lparr>eng_metrics = m, eng_trade_pool = None, buy_trade_id = 0, sell_trade_id = 0, next_sequence = 1,
        books = (\<lambda>_. None), shared_pool = pool, shared_index = index, next_order_id = 1, wal = None\<rparr>"

definition new_engine_owned :: "nat \<Rightarrow> io_counters option \<Rightarrow> engine" where
  "new_engine_owned pool_capacity m = new_engine (new_OrderPool pool_capacity) (new_OrderMap pool_capacity) m"

definition new_engine_external :: "order_pool \<Rightarrow> io_counters option \<Rightarrow> engine" where
  "new_engine_external external_pool m = new_engine external_pool (new_OrderMap (capacity external_pool)) m"

text \<open>The book behind a locate code, with the shared pool and index its pointers reach.\<close>

definition book_at :: "u64 \<Rightarrow> engine \<Rightarrow> order_book" where
  "book_at locate e =
     (case books e locate of
        None \<Rightarrow> new_OrderBook_shared (shared_pool e) (shared_index e)
      | Some (bs, as) \<Rightarrow> \<lparr>ob_pool = shared_pool e, ob_index = shared_index e, bids = bs, asks = as\<rparr>)"

definition put_book :: "u64 \<Rightarrow> order_book \<Rightarrow> engine \<Rightarrow> engine" where
  "put_book locate b e =
     e\<lparr>books := (books e)(locate \<mapsto> (bids b, asks b)), shared_pool := ob_pool b, shared_index := ob_index b\<rparr>"

definition book_for :: "u64 \<Rightarrow> engine \<Rightarrow> order_book option \<times> engine" where
  "book_for locate e =
     (if locate \<ge> kMaxLocate then (None, e)
      else case books e locate of
        Some _ \<Rightarrow> (Some (book_at locate e), e)
      | None \<Rightarrow> let nb = new_OrderBook_shared (shared_pool e) (shared_index e)
                in (Some nb, put_book locate nb e))"

section \<open>Matching\<close>

definition canFullFill :: "order_book \<Rightarrow> side \<Rightarrow> u32 \<Rightarrow> u32 \<Rightarrow> bool option" where
  "canFullFill book s pr quantity = map_option (\<lambda>q. q \<ge> quantity) (availableQty s pr book)"

text \<open>The write to the trade pool in \<^verbatim>\<open>matchBuyOrder\<close>; the \<^verbatim>\<open>timestamp\<close> field is never assigned.\<close>

definition record_buy_trade :: "order \<Rightarrow> order \<Rightarrow> u32 \<Rightarrow> 'a recorder_scheme \<Rightarrow> 'a recorder_scheme" where
  "record_buy_trade ord best_ask trade_qty e =
     (case eng_trade_pool e of
        None \<Rightarrow> e
      | Some tp \<Rightarrow>
          let idx = write_idx tp mod TRADE_CAPACITY;
              n = buy_trade_id e + 1;
              t = (entries tp idx)\<lparr>trade_id := n, buy_order_id := order_id ord, sell_order_id := order_id best_ask,
                    te_price := price best_ask, te_quantity := trade_qty,
                    buyer_id := user_id ord, seller_id := user_id best_ask, te_seq := next_sequence e\<rparr>
          in e\<lparr>eng_trade_pool := Some (tp\<lparr>entries := (entries tp)(idx := t), write_idx := write_idx tp + 1\<rparr>),
               buy_trade_id := n\<rparr>)"

definition record_sell_trade :: "order \<Rightarrow> order \<Rightarrow> u32 \<Rightarrow> 'a recorder_scheme \<Rightarrow> 'a recorder_scheme" where
  "record_sell_trade ord best_bid trade_qty e =
     (case eng_trade_pool e of
        None \<Rightarrow> e
      | Some tp \<Rightarrow>
          let idx = write_idx tp mod TRADE_CAPACITY;
              n = sell_trade_id e + 1;
              t = (entries tp idx)\<lparr>trade_id := n, buy_order_id := order_id best_bid, sell_order_id := order_id ord,
                    te_price := price best_bid, te_quantity := trade_qty,
                    buyer_id := user_id best_bid, seller_id := user_id ord, te_seq := next_sequence e\<rparr>
          in e\<lparr>eng_trade_pool := Some (tp\<lparr>entries := (entries tp)(idx := t), write_idx := write_idx tp + 1\<rparr>),
               sell_trade_id := n\<rparr>)"

text \<open>The end of an iteration: the resting order is marked, and removed when it is used up.\<close>

definition settle_resting :: "order_ptr \<Rightarrow> order_book \<Rightarrow> order_book option" where
  "settle_resting best book = do {
     r \<leftarrow> pool_at (ob_pool book) best;
     if remaining_qty r = 0 then do {
       p \<leftarrow> pool_upd (ob_pool book) best (status_update (\<lambda>_. FILLED));
       removeOrder_ptr best (book\<lparr>ob_pool := p\<rparr>)
     } else do {
       p \<leftarrow> pool_upd (ob_pool book) best (status_update (\<lambda>_. PARTIALLY_FILLED));
       Some (book\<lparr>ob_pool := p\<rparr>)
     }
   }"

text \<open>One iteration of the loop of \<^verbatim>\<open>matchBuyOrder\<close> once \<^verbatim>\<open>best_ask\<close> is found and its price accepted.\<close>

definition buy_fill :: "u64 \<Rightarrow> order_ptr \<Rightarrow> order_book \<Rightarrow> order \<Rightarrow> response list \<Rightarrow> 'a recorder_scheme \<Rightarrow>
    (order_book \<times> order \<times> response list \<times> 'a recorder_scheme) option" where
  "buy_fill locate best_ask book ord out e = do {
     r0 \<leftarrow> pool_at (ob_pool book) best_ask;
     let trade_qty = min (remaining_qty ord) (remaining_qty r0);
     let ord1 = ord\<lparr>remaining_qty := remaining_qty ord - trade_qty, filled_qty := filled_qty ord + trade_qty\<rparr>;
     book1 \<leftarrow> reduceOrderQty best_ask trade_qty book;
     r1 \<leftarrow> pool_at (ob_pool book1) best_ask;
     let out1 = out @ [RSP_TRADE locate (order_id r1) SIDE_SELL (price r1) trade_qty];
     let e1 = record_buy_trade ord1 r1 trade_qty (bump (\<lambda>m. m\<lparr>trades := trades m + 1\<rparr>) e);
     book2 \<leftarrow> settle_resting best_ask book1;
     Some (book2, ord1\<lparr>status := (if remaining_qty ord1 = 0 then FILLED else PARTIALLY_FILLED)\<rparr>, out1, e1)
   }"

definition sell_fill :: "u64 \<Rightarrow> order_ptr \<Rightarrow> order_book \<Rightarrow> order \<Rightarrow> response list \<Rightarrow> 'a recorder_scheme \<Rightarrow>
    (order_book \<times> order \<times> response list \<times> 'a recorder_scheme) option" where
  "sell_fill locate best_bid book ord out e = do {
     r0 \<leftarrow> pool_at (ob_pool book) best_bid;
     let trade_qty = min (remaining_qty ord) (remaining_qty r0);
     let ord1 = ord\<lparr>remaining_qty := remaining_qty ord - trade_qty, filled_qty := filled_qty ord + trade_qty\<rparr>;
     book1 \<leftarrow> reduceOrderQty best_bid trade_qty book;
     r1 \<leftarrow> pool_at (ob_pool book1) best_bid;
     let out1 = out @ [RSP_TRADE locate (order_id r1) SIDE_BUY (price r1) trade_qty];
     let e1 = record_sell_trade ord1 r1 trade_qty (bump (\<lambda>m. m\<lparr>trades := trades m + 1\<rparr>) e);
     book2 \<leftarrow> settle_resting best_bid book1;
     Some (book2, ord1\<lparr>status := (if remaining_qty ord1 = 0 then FILLED else PARTIALLY_FILLED)\<rparr>, out1, e1)
   }"

text \<open>The loops.  A loop that never leaves has the value \<open>None\<close>.\<close>

partial_function (option) matchBuyOrder :: "u64 \<Rightarrow> order_book \<Rightarrow> order \<Rightarrow> response list \<Rightarrow> 'a recorder_scheme \<Rightarrow>
    (order_book \<times> order \<times> response list \<times> 'a recorder_scheme) option" where
  "matchBuyOrder locate book ord out e =
     (if remaining_qty ord > 0 then do {
        best \<leftarrow> getBestAsk (user_id ord) book;
        (case best of
           None \<Rightarrow> Some (book, ord, out, e)
         | Some best_ask \<Rightarrow> do {
             r \<leftarrow> pool_at (ob_pool book) best_ask;
             if price ord < price r then Some (book, ord, out, e)
             else do {
               res \<leftarrow> buy_fill locate best_ask book ord out e;
               (case res of (book1, ord1, out1, e1) \<Rightarrow> matchBuyOrder locate book1 ord1 out1 e1)
             }
           })
      } else Some (book, ord, out, e))"

partial_function (option) matchSellOrder :: "u64 \<Rightarrow> order_book \<Rightarrow> order \<Rightarrow> response list \<Rightarrow> 'a recorder_scheme \<Rightarrow>
    (order_book \<times> order \<times> response list \<times> 'a recorder_scheme) option" where
  "matchSellOrder locate book ord out e =
     (if remaining_qty ord > 0 then do {
        best \<leftarrow> getBestBid (user_id ord) book;
        (case best of
           None \<Rightarrow> Some (book, ord, out, e)
         | Some best_bid \<Rightarrow> do {
             r \<leftarrow> pool_at (ob_pool book) best_bid;
             if price ord > price r then Some (book, ord, out, e)
             else do {
               res \<leftarrow> sell_fill locate best_bid book ord out e;
               (case res of (book1, ord1, out1, e1) \<Rightarrow> matchSellOrder locate book1 ord1 out1 e1)
             }
           })
      } else Some (book, ord, out, e))"

declare matchBuyOrder.simps [code] matchSellOrder.simps [code]

section \<open>Handlers\<close>

text \<open>An \<^verbatim>\<open>RSP_ERROR\<close> response and its count.\<close>

definition fail_with :: "error_code \<Rightarrow> response list \<Rightarrow> engine \<Rightarrow> response list \<times> engine" where
  "fail_with code out e = (out @ [RSP_ERROR code], bump (\<lambda>m. m\<lparr>errors := errors m + 1\<rparr>) e)"

definition set_pool_used :: "order_book \<Rightarrow> engine \<Rightarrow> engine" where
  "set_pool_used book e = bump (\<lambda>m. m\<lparr>order_pool_used := poolUsage book\<rparr>) e"

definition wal_log :: "wal_entry \<Rightarrow> engine \<Rightarrow> engine" where
  "wal_log en e = e\<lparr>wal := map_option (wal_append en) (wal e)\<rparr>"

definition match_order :: "side \<Rightarrow> u64 \<Rightarrow> order_book \<Rightarrow> order \<Rightarrow> response list \<Rightarrow> 'a recorder_scheme \<Rightarrow>
    (order_book \<times> order \<times> response list \<times> 'a recorder_scheme) option" where
  "match_order s = (if s = BUY then matchBuyOrder else matchSellOrder)"

text \<open>The remainder of a limit order goes to the book.\<close>

definition rest_order :: "u64 \<Rightarrow> u64 \<Rightarrow> order \<Rightarrow> order_book \<Rightarrow> response list \<Rightarrow> engine \<Rightarrow> (response list \<times> engine) option" where
  "rest_order locate ref ord book out e = do {
     (added, book1) \<leftarrow> addOrder ord book;
     let e1 = put_book locate book1 e;
     if \<not> added then
       (case fail_with POOL_FULL out e1 of (out1, e2) \<Rightarrow> Some (out1, set_pool_used book1 e2))
     else Some (out @ [RSP_OK ref], set_pool_used book1 e1)
   }"

definition market_price :: "side \<Rightarrow> u32" where
  "market_price s = (if s = BUY then UINT32_MAX else 0)"

definition processAdd :: "u64 \<Rightarrow> u64 \<Rightarrow> side \<Rightarrow> u32 \<Rightarrow> u32 \<Rightarrow> u64 \<Rightarrow> order_tif \<Rightarrow> response list \<Rightarrow> engine \<Rightarrow>
    (response list \<times> engine) option" where
  "processAdd locate order_ref s pr quantity uid tif out e0 =
     (case book_for locate (bump (\<lambda>m. m\<lparr>new_orders := new_orders m + 1\<rparr>) e0) of
        (None, e) \<Rightarrow> Some (fail_with INVALID_COMMAND_TYPE out e)
      | (Some book, e) \<Rightarrow>
          if s = INVALID then Some (fail_with INVALID_SIDE out e)
          else
            let is_market = (tif = IOC \<or> tif = FOK) \<and> pr = 0;
                limit = (if is_market then market_price s else pr)
            in if (\<not> is_market \<and> pr = 0) \<or> quantity = 0 \<or> uid = 0 \<or> order_ref = 0
            then Some (fail_with INVALID_PRICE_QTY_USER out e)
            else do {
              fillable \<leftarrow> (if tif = FOK then canFullFill book s limit quantity else Some True);
              if \<not> fillable then Some (fail_with FOK_NO_FULL_FILL out e)
              else do {
                let ord = new_Order\<lparr>user_id := uid, order_id := order_ref, side_of := s, price := limit,
                            original_qty := quantity, remaining_qty := quantity, filled_qty := 0,
                            sequence := next_sequence e, status := OPEN\<rparr>;
                let e1 = e\<lparr>next_sequence := next_sequence e + 1\<rparr>;
                let e2 = wal_log \<lparr>we_type = 0x01, we_side = (if s = BUY then 0x01 else 0x02), we_locate = ucast locate,
                            we_price = price ord, we_quantity = quantity, we_user_id = uid, we_order_id = order_ref,
                            we_wal_seq = next_sequence e1\<rparr> e1;
                (book1, ord1, out1, e3) \<leftarrow> match_order s locate book ord out e2;
                let e4 = put_book locate book1 e3;
                if status ord1 = FILLED then Some (out1 @ [RSP_FILLED order_ref], set_pool_used book1 e4)
                else if tif = IOC then
                  (if filled_qty ord1 = 0 then Some (fail_with MKT_NO_LIQUIDITY out1 e4) else Some (out1, e4))
                else if tif = FOK then
                  (if filled_qty ord1 < quantity then Some (fail_with FOK_NO_FULL_FILL out1 e4) else Some (out1, e4))
                else if status ord1 = OPEN \<or> status ord1 = PARTIALLY_FILLED then rest_order locate order_ref ord1 book1 out1 e4
                else Some (out1, e4)
              }
            })"

definition processCancel :: "u64 \<Rightarrow> u64 \<Rightarrow> u64 \<Rightarrow> response list \<Rightarrow> engine \<Rightarrow> (response list \<times> engine) option" where
  "processCancel locate order_ref uid out e0 =
     (case book_for locate (bump (\<lambda>m. m\<lparr>cancels := cancels m + 1\<rparr>) e0) of
        (None, e) \<Rightarrow> Some (fail_with ORDER_NOT_FOUND out e)
      | (Some book, e) \<Rightarrow> do {
          let e1 = wal_log \<lparr>we_type = 0x02, we_side = 0, we_locate = ucast locate, we_price = 0, we_quantity = 0,
                      we_user_id = uid, we_order_id = order_ref, we_wal_seq = next_sequence e\<rparr> e;
          (removed, book1) \<leftarrow> removeOrder order_ref uid book;
          let e2 = put_book locate book1 e1;
          if removed then Some (out @ [RSP_CANCELLED order_ref], e2)
          else Some (fail_with ORDER_NOT_FOUND out e2)
        })"

definition processCancelShares :: "u64 \<Rightarrow> u64 \<Rightarrow> u32 \<Rightarrow> u64 \<Rightarrow> response list \<Rightarrow> engine \<Rightarrow> (response list \<times> engine) option" where
  "processCancelShares locate order_ref shares uid out e0 =
     (case book_for locate (bump (\<lambda>m. m\<lparr>cancels := cancels m + 1\<rparr>) e0) of
        (None, e) \<Rightarrow> Some (fail_with ORDER_NOT_FOUND out e)
      | (Some book, e) \<Rightarrow> do {
          let e1 = wal_log \<lparr>we_type = 0x03, we_side = 0, we_locate = ucast locate, we_price = 0, we_quantity = shares,
                      we_user_id = uid, we_order_id = order_ref, we_wal_seq = next_sequence e\<rparr> e;
          found \<leftarrow> findOrder order_ref book;
          case found of
            None \<Rightarrow> Some (fail_with ORDER_NOT_FOUND out e1)
          | Some idx \<Rightarrow> do {
              r \<leftarrow> pool_at (ob_pool book) idx;
              if user_id r \<noteq> uid then Some (fail_with ORDER_NOT_FOUND out e1)
              else if shares \<ge> remaining_qty r then do {
                book1 \<leftarrow> removeOrder_ptr idx book;
                Some (out @ [RSP_CANCELLED order_ref], put_book locate book1 e1)
              } else do {
                book1 \<leftarrow> reduceQtyCancel idx shares book;
                Some (out @ [RSP_OK order_ref], put_book locate book1 e1)
              }
            }
        })"

definition processReplace :: "u64 \<Rightarrow> u64 \<Rightarrow> u64 \<Rightarrow> side \<Rightarrow> u32 \<Rightarrow> u32 \<Rightarrow> u64 \<Rightarrow> response list \<Rightarrow> engine \<Rightarrow>
    (response list \<times> engine) option" where
  "processReplace locate old_ref new_ref s pr quantity uid out e0 =
     (case book_for locate (bump (\<lambda>m. m\<lparr>cancels := cancels m + 1\<rparr>) e0) of
        (None, e) \<Rightarrow> Some (fail_with ORDER_NOT_FOUND out e)
      | (Some book, e) \<Rightarrow> do {
          let e1 = wal_log \<lparr>we_type = 0x04, we_side = 0, we_locate = ucast locate, we_price = pr, we_quantity = quantity,
                      we_user_id = uid, we_order_id = new_ref, we_wal_seq = next_sequence e\<rparr> e;
          found \<leftarrow> findOrder old_ref book;
          case found of
            None \<Rightarrow> Some (fail_with ORDER_NOT_FOUND out e1)
          | Some idx \<Rightarrow> do {
              r \<leftarrow> pool_at (ob_pool book) idx;
              if user_id r \<noteq> uid then Some (fail_with ORDER_NOT_FOUND out e1)
              else do {
                book1 \<leftarrow> removeOrder_ptr idx book;
                let ord = new_Order\<lparr>user_id := new_ref, order_id := new_ref, side_of := s, price := pr,
                            original_qty := quantity, remaining_qty := quantity, filled_qty := 0,
                            sequence := next_sequence e1, status := OPEN\<rparr>;
                let e2 = e1\<lparr>next_sequence := next_sequence e1 + 1\<rparr>;
                (book2, ord1, out1, e3) \<leftarrow> match_order s locate book1 ord out e2;
                let e4 = put_book locate book2 e3;
                if status ord1 = OPEN \<or> status ord1 = PARTIALLY_FILLED then rest_order locate new_ref ord1 book2 out1 e4
                else if status ord1 = FILLED then Some (out1 @ [RSP_FILLED new_ref], e4)
                else Some (out1, e4)
              }
            }
        })"

definition processNewOrder :: "side \<Rightarrow> u32 \<Rightarrow> u32 \<Rightarrow> u64 \<Rightarrow> response list \<Rightarrow> engine \<Rightarrow> (response list \<times> engine) option" where
  "processNewOrder s pr quantity uid out e =
     processAdd 0 (next_order_id e) s pr quantity uid DAY out (e\<lparr>next_order_id := next_order_id e + 1\<rparr>)"

definition processCancel_single :: "u64 \<Rightarrow> u64 \<Rightarrow> response list \<Rightarrow> engine \<Rightarrow> (response list \<times> engine) option" where
  "processCancel_single oid uid out e = processCancel 0 oid uid out e"

definition getBook :: "u64 \<Rightarrow> engine \<Rightarrow> response \<times> engine" where
  "getBook locate e =
     (let e1 = bump (\<lambda>m. m\<lparr>book_queries := book_queries m + 1\<rparr>) e in
      if locate \<ge> kMaxLocate then (RSP_BOOK locate 0 0 0 0, e1)
      else case books e locate of
        None \<Rightarrow> (RSP_BOOK locate 0 0 0 0, e1)
      | Some _ \<Rightarrow>
          let tob = getTopOfBook (book_at locate e)
          in (RSP_BOOK locate (bid_price tob) (bid_volume tob) (ask_price tob) (ask_volume tob), e1))"

end
