(* ===== verification/Order_Book_Rep.thy ===== *)
theory Order_Book_Rep
  imports Order_Book
begin

text \<open>
  The representation invariant of the order book and how it survives pointer writes.  A level
  stands for the list of its slots in arrival order, a side for the list of its levels' slot lists
  in price order, and the whole book for both sides plus the slots other books own in the shared
  pool.
\<close>

section \<open>The comparison of each side\<close>

interpretation level_order: key_order "level_lt s" for s
  by unfold_locales (auto simp: level_lt_def)

section \<open>Levels\<close>

definition level_rep :: "order list \<Rightarrow> side \<Rightarrow> u32 \<times> price_level \<Rightarrow> u32 list \<Rightarrow> bool" where
  "level_rep st s e ss \<longleftrightarrow> ss \<noteq> [] \<and>
     dll (fld next_idx st) (fld prev_idx st) (head_idx (snd e)) (tail_idx (snd e)) ss \<and>
     level_count (snd e) = of_nat (length ss) \<and>
     total_qty (snd e) = sum_list (map (fld remaining_qty st) ss) \<and>
     (\<forall>x\<in>set ss. unat x < length st \<and> fld price st x = fst e \<and> fld side_of st x = s)"

lemma level_repD:
  assumes "level_rep st s e ss"
  shows level_rep_dll: "dll (fld next_idx st) (fld prev_idx st) (head_idx (snd e)) (tail_idx (snd e)) ss"
    and level_rep_nonempty: "ss \<noteq> []" and level_rep_distinct: "distinct ss"
    and level_rep_bound: "x \<in> set ss \<Longrightarrow> unat x < length st"
    and level_rep_price: "x \<in> set ss \<Longrightarrow> price (st ! unat x) = fst e"
    and level_rep_side: "x \<in> set ss \<Longrightarrow> side_of (st ! unat x) = s"
    and level_rep_not_NIL: "UINT32_MAX \<notin> set ss"
  using assms dll_distinct path_not_NIL unfolding level_rep_def dll_def fld_def by blast+

lemma level_rep_cong:
  assumes "\<And>x. x \<in> set ss \<Longrightarrow> st' ! unat x = st ! unat x" and "length st' = length st"
  shows "level_rep st' s e ss = level_rep st s e ss"
proof -
  have f: "fld f st' x = fld f st x" if "x \<in> set ss" for f :: "order \<Rightarrow> 'z" and x
    using assms(1) that by (simp add: fld_def)
  have d: "dll (fld next_idx st') (fld prev_idx st') h t ss = dll (fld next_idx st) (fld prev_idx st) h t ss" for h t
    by (intro dll_cong) (simp_all add: fld_def assms(1))
  have m: "map (fld remaining_qty st') ss = map (fld remaining_qty st) ss"
    by (simp add: fld_def assms(1))
  show ?thesis unfolding level_rep_def d m assms(2) using assms(1) by (auto simp: fld_def)
qed

lemma level_rep_length:
  "level_rep st s e ss \<Longrightarrow> length ss \<le> length st"
  by (intro distinct_bounded_length) (auto simp: level_rep_def dest: dll_distinct)

lemma level_count_pos:
  assumes "level_rep st s e ss" and "length st \<le> unat UINT32_MAX"
  shows "unat (level_count (snd e)) = length ss" and "level_count (snd e) \<noteq> 0"
proof -
  have l: "length ss < 2 ^ 32" using level_rep_length [OF assms(1)] assms(2) by simp
  show c: "unat (level_count (snd e)) = length ss"
    using assms(1) l by (simp add: level_rep_def unat_of_nat)
  show "level_count (snd e) \<noteq> 0" using c assms(1) by (auto simp: level_rep_def)
qed

lemma level_head_tail:
  "level_rep st s e ss \<Longrightarrow> head_idx (snd e) = hd ss \<and> tail_idx (snd e) = last ss"
  using dll_head by (auto simp: level_rep_def)

lemma level_rep_single:
  assumes "unat x < length st" and "x \<noteq> UINT32_MAX" and "price o' = p" and "side_of o' = s"
    and "prev_idx o' = UINT32_MAX" and "next_idx o' = UINT32_MAX"
    and "level_count l = 1" and "total_qty l = remaining_qty o'" and "head_idx l = x" and "tail_idx l = x"
  shows "level_rep (st[unat x := o']) s (p, l) [x]"
  using assms by (simp add: level_rep_def dll_singleton fld_def)

lemma level_rep_snoc:
  assumes r: "level_rep st s (p, l) ss" and x: "unat x < length st" "x \<noteq> UINT32_MAX" "x \<notin> set ss"
    and o': "price o' = p" "side_of o' = s" "prev_idx o' = tail_idx l" "next_idx o' = UINT32_MAX"
    and st1: "st1 = st[unat x := o']"
    and st2: "st2 = st1[unat (tail_idx l) := (st1 ! unat (tail_idx l))\<lparr>next_idx := x\<rparr>]"
    and l': "head_idx l' = head_idx l" "tail_idx l' = x" "level_count l' = level_count l + 1"
      "total_qty l' = total_qty l + remaining_qty o'"
  shows "level_rep st2 s (p, l') (ss @ [x])"
proof -
  have t: "tail_idx l = last ss" and ss: "ss \<noteq> []" using level_head_tail [OF r] r by (simp_all add: level_rep_def)
  have tin: "tail_idx l \<in> set ss" using t ss by simp
  have tb: "unat (tail_idx l) < length st" using r tin by (auto simp: level_rep_def)
  have nt: "tail_idx l \<noteq> x" using tin x by auto
  have "dll ((fld next_idx st)(x := UINT32_MAX, tail_idx l := x)) ((fld prev_idx st)(x := tail_idx l))
      (head_idx l) x (ss @ [x])"
    using r x ss by (intro dll_snoc) (simp_all add: level_rep_def)
  moreover have "fld next_idx st2 = (fld next_idx st)(x := UINT32_MAX, tail_idx l := x)"
    "fld prev_idx st2 = (fld prev_idx st)(x := tail_idx l)"
    "fld remaining_qty st2 = (fld remaining_qty st)(x := remaining_qty o')"
    "fld price st2 = (fld price st)(x := p)" "fld side_of st2 = (fld side_of st)(x := s)"
    using x tb nt o' by (simp_all add: st1 st2) (simp_all add: fld_def fun_eq_iff)
  ultimately show ?thesis using r x o' l' tb unfolding level_rep_def
    by (auto simp: st1 st2)
qed

text \<open>The storage after the two unlinking writes of \<^verbatim>\<open>removeOrder\<close>.\<close>

definition unlink_slot :: "u32 \<Rightarrow> order list \<Rightarrow> order list" where
  "unlink_slot x st =
     (let st1 = (if prev_idx (st ! unat x) \<noteq> UINT32_MAX
                 then st[unat (prev_idx (st ! unat x)) :=
                        (st ! unat (prev_idx (st ! unat x)))\<lparr>next_idx := next_idx (st ! unat x)\<rparr>]
                 else st)
      in if next_idx (st1 ! unat x) \<noteq> UINT32_MAX
         then st1[unat (next_idx (st1 ! unat x)) :=
                (st1 ! unat (next_idx (st1 ! unat x)))\<lparr>prev_idx := prev_idx (st1 ! unat x)\<rparr>]
         else st1)"

lemma level_rep_neighbours:
  assumes "level_rep st s e (as @ x # bs)"
  shows "prev_idx (st ! unat x) = (if as = [] then UINT32_MAX else last as)"
    and "next_idx (st ! unat x) = (if bs = [] then UINT32_MAX else hd bs)"
  using dll_prev dll_next assms unfolding level_rep_def by (fastforce simp: fld_def)+

lemma unlink_slot_fields:
  assumes r: "level_rep st s e (as @ x # bs)"
  shows "fld next_idx (unlink_slot x st) = (if fld prev_idx st x \<noteq> UINT32_MAX
           then (fld next_idx st)(fld prev_idx st x := fld next_idx st x) else fld next_idx st)"
    and "fld prev_idx (unlink_slot x st) = (if fld next_idx st x \<noteq> UINT32_MAX
           then (fld prev_idx st)(fld next_idx st x := fld prev_idx st x) else fld prev_idx st)"
    and "core ((unlink_slot x st) ! unat y) = core (st ! unat y)"
    and "(unlink_slot x st) ! unat x = st ! unat x"
    and "y \<notin> set (as @ x # bs) \<Longrightarrow> (unlink_slot x st) ! unat y = st ! unat y"
    and "length (unlink_slot x st) = length st"
    and "pool_next_free ((unlink_slot x st) ! unat y) = pool_next_free (st ! unat y)"
proof -
  note nb = level_rep_neighbours [OF r]
  have dist: "distinct (as @ x # bs)" using r by (rule level_rep_distinct)
  have pb: "unat (last as) < length st \<and> last as \<noteq> x \<and> last as \<noteq> UINT32_MAX" if "as \<noteq> []"
  proof -
    have "last as \<in> set (as @ x # bs)" using that by simp
    then show ?thesis using level_rep_bound [OF r] level_rep_not_NIL [OF r] dist that by (metis
          distinct_append last_in_set list.set_intros(1) not_distinct_conv_prefix disjoint_iff)
  qed
  have nbd: "unat (hd bs) < length st \<and> hd bs \<noteq> x \<and> hd bs \<noteq> UINT32_MAX" if "bs \<noteq> []"
  proof -
    have "hd bs \<in> set (as @ x # bs)" "hd bs \<in> set bs" using that by simp_all
    then show ?thesis using level_rep_bound [OF r] level_rep_not_NIL [OF r] dist by auto
  qed
  have cross: "hd bs \<noteq> last as" if "as \<noteq> []" "bs \<noteq> []"
    using dist that by (cases bs) auto
  have N: "as \<noteq> [] \<Longrightarrow> last as \<noteq> UINT32_MAX" "bs \<noteq> [] \<Longrightarrow> hd bs \<noteq> UINT32_MAX"
    using pb nbd by blast+
  let ?st1 = "if as = [] then st else st[unat (last as) := (st ! unat (last as))\<lparr>next_idx := next_idx (st ! unat x)\<rparr>]"
  have s1x: "?st1 ! unat x = st ! unat x" using pb by auto
  have u: "unlink_slot x st = (if bs = [] then ?st1
      else ?st1[unat (hd bs) := (?st1 ! unat (hd bs))\<lparr>prev_idx := prev_idx (st ! unat x)\<rparr>])"
    by (cases "as = []"; cases "bs = []")
       (use pb nbd in \<open>auto simp: unlink_slot_def Let_def nb\<close>)
  show "fld next_idx (unlink_slot x st) = (if fld prev_idx st x \<noteq> UINT32_MAX
           then (fld next_idx st)(fld prev_idx st x := fld next_idx st x) else fld next_idx st)"
    using pb nbd cross N by (auto simp: u fun_eq_iff) (auto simp: fld_def nb)
  show "fld prev_idx (unlink_slot x st) = (if fld next_idx st x \<noteq> UINT32_MAX
           then (fld prev_idx st)(fld next_idx st x := fld prev_idx st x) else fld prev_idx st)"
    using pb nbd cross N by (auto simp: u fun_eq_iff) (auto simp: fld_def nb)
  show "core ((unlink_slot x st) ! unat y) = core (st ! unat y)"
    using pb nbd by (auto simp: u)
  show "(unlink_slot x st) ! unat x = st ! unat x" using pb nbd by (auto simp: u)
  show "(unlink_slot x st) ! unat y = st ! unat y" if y: "y \<notin> set (as @ x # bs)"
  proof -
    have "as \<noteq> [] \<Longrightarrow> y \<noteq> last as" "bs \<noteq> [] \<Longrightarrow> y \<noteq> hd bs" using y by (auto dest: last_in_set hd_in_set)
    then show ?thesis using pb nbd by (cases "as = []"; cases "bs = []") (simp_all add: u)
  qed
  show "length (unlink_slot x st) = length st" by (simp add: u)
  show "pool_next_free ((unlink_slot x st) ! unat y) = pool_next_free (st ! unat y)"
    using pb nbd by (auto simp: u)
qed

lemma level_rep_remove:
  assumes r: "level_rep st s (p, l) (as @ x # bs)" and ne: "as @ bs \<noteq> []"
    and st': "length st' = length st" "\<And>y. y \<in> set (as @ bs) \<Longrightarrow> st' ! unat y = (unlink_slot x st) ! unat y"
    and l': "head_idx l' = (if head_idx l = x then next_idx (st ! unat x) else head_idx l)"
      "tail_idx l' = (if tail_idx l = x then prev_idx (st ! unat x) else tail_idx l)"
      "level_count l' = level_count l - 1" "total_qty l' = total_qty l - remaining_qty (st ! unat x)"
  shows "level_rep st' s (p, l') (as @ bs)"
proof -
  note u = unlink_slot_fields [OF r]
  have d: "dll (fld next_idx (unlink_slot x st)) (fld prev_idx (unlink_slot x st)) (head_idx l') (tail_idx l') (as @ bs)"
  proof -
    have h: "head_idx l' = (if head_idx l = x then fld next_idx st x else head_idx l)"
      "tail_idx l' = (if tail_idx l = x then fld prev_idx st x else tail_idx l)"
      by (simp_all add: l' fld_def)
    show ?thesis unfolding u(1,2) h using level_rep_dll [OF r] by (intro dll_remove) simp
  qed
  have q: "fld remaining_qty (unlink_slot x st) = fld remaining_qty st"
    and p: "fld price (unlink_slot x st) = fld price st"
    and sd: "fld side_of (unlink_slot x st) = fld side_of st"
    by (rule ext; metis fld_def core_fields u(3))+
  have "remaining_qty (st ! unat x) = fld remaining_qty st x" by (simp add: fld_def)
  then have "level_rep (unlink_slot x st) s (p, l') (as @ bs)"
    using r ne d u(6) unfolding level_rep_def by (auto simp: l' q p sd)
  then show ?thesis using level_rep_cong [of "as @ bs" st' "unlink_slot x st"] st' u(6) by simp
qed

section \<open>Sides\<close>

definition side_rep :: "order list \<Rightarrow> side \<Rightarrow> levels \<Rightarrow> u32 list list \<Rightarrow> bool" where
  "side_rep st s ls sss \<longleftrightarrow> om_sorted (level_lt s) ls \<and> list_all2 (level_rep st s) ls sss"

lemma list_all2_level_cong:
  assumes "list_all2 (level_rep st s) ls sss" and "\<And>x. x \<in> set (concat sss) \<Longrightarrow> st' ! unat x = st ! unat x"
    and "length st' = length st"
  shows "list_all2 (level_rep st' s) ls sss"
  using assms(1)
proof (rule list.rel_mono_strong)
  fix e ss assume "e \<in> set ls" "ss \<in> set sss" and "level_rep st s e ss"
  then show "level_rep st' s e ss" using assms(2,3) level_rep_cong [of ss st' st s e] by auto
qed

lemma side_rep_cong:
  assumes "\<And>x. x \<in> set (concat sss) \<Longrightarrow> st' ! unat x = st ! unat x" and "length st' = length st"
    and "side_rep st s ls sss"
  shows "side_rep st' s ls sss"
  using list_all2_level_cong [of st s ls sss st'] assms by (simp add: side_rep_def)

text \<open>The level that holds a slot.\<close>

lemma side_rep_slot:
  assumes r: "side_rep st s ls sss" and x: "x \<in> set (concat sss)"
  obtains xs l ys X as bs Y where "ls = xs @ (price (st ! unat x), l) # ys" and "sss = X @ (as @ x # bs) # Y"
    and "list_all2 (level_rep st s) xs X" and "level_rep st s (price (st ! unat x), l) (as @ x # bs)"
    and "list_all2 (level_rep st s) ys Y" and "om_find (price (st ! unat x)) ls = Some l"
proof -
  from x obtain ss where ss: "ss \<in> set sss" "x \<in> set ss" by auto
  obtain X Y where sss: "sss = X @ ss # Y" using ss(1) by (meson split_list)
  obtain as bs where as: "ss = as @ x # bs" using ss(2) by (meson split_list)
  from r sss obtain xs e ys where ls: "ls = xs @ e # ys" "list_all2 (level_rep st s) xs X"
    "level_rep st s e ss" "list_all2 (level_rep st s) ys Y"
    unfolding side_rep_def by (auto simp: list_all2_append2 list_all2_Cons2)
  have "fst e = price (st ! unat x)" using level_rep_price [OF ls(3) ss(2)] by simp
  then obtain l where e: "e = (price (st ! unat x), l)" by (cases e) auto
  have "om_find (price (st ! unat x)) ls = Some l"
    using r ls e unfolding side_rep_def by (subst level_order.find_in_set) auto
  then show thesis using that [of xs l ys X as bs Y] ls sss as e by blast
qed

lemma side_rep_level:
  assumes r: "side_rep st s ls sss" and f: "om_find p ls = Some l"
  obtains xs ys X ss Y where "ls = xs @ (p, l) # ys" and "sss = X @ ss # Y"
    and "list_all2 (level_rep st s) xs X" and "level_rep st s (p, l) ss"
    and "list_all2 (level_rep st s) ys Y"
proof -
  obtain xs ys where ls: "ls = xs @ (p, l) # ys" using f by (rule level_order.find_split)
  with r obtain X ss Y where "sss = X @ ss # Y" "list_all2 (level_rep st s) xs X" "level_rep st s (p, l) ss"
    "list_all2 (level_rep st s) ys Y" unfolding side_rep_def by (auto simp: list_all2_append1 list_all2_Cons1)
  with ls show thesis using that by blast
qed

lemma side_rep_prices:
  assumes "list_all2 (level_rep st s) ls sss" and "x \<in> set (concat sss)"
  shows "price (st ! unat x) \<in> fst ` set ls"
  using assms
proof (induction rule: list_all2_induct)
  case (Cons e ls ss sss)
  then show ?case using level_rep_price [OF Cons.hyps(1)] by auto
qed simp

lemma side_rep_bound:
  assumes "side_rep st s ls sss" and "x \<in> set (concat sss)"
  shows "unat x < length st" and "side_of (st ! unat x) = s" and "x \<noteq> UINT32_MAX"
proof -
  obtain xs l ys X as bs Y where "level_rep st s (price (st ! unat x), l) (as @ x # bs)"
    using side_rep_slot [OF assms] by metis
  then show "unat x < length st" "side_of (st ! unat x) = s" "x \<noteq> UINT32_MAX"
    using level_rep_bound level_rep_side level_rep_not_NIL by fastforce+
qed

text \<open>
  The place of a new order in the priority sequence of its side: behind every order of a better
  or equal price, in front of every order of a worse one.
\<close>

definition inserted :: "side \<Rightarrow> ('a \<Rightarrow> u32) \<Rightarrow> u32 \<Rightarrow> 'a \<Rightarrow> 'a list \<Rightarrow> 'a list \<Rightarrow> bool" where
  "inserted s pr p x xs ys \<longleftrightarrow> (\<exists>as bs. xs = as @ bs \<and> ys = as @ x # bs \<and>
     (\<forall>y\<in>set as. \<not> level_lt s p (pr y)) \<and> (\<forall>y\<in>set bs. level_lt s p (pr y)))"

lemma levels_slots_prices:
  assumes "list_all2 (level_rep st s) ls sss" and "\<And>e. e \<in> set ls \<Longrightarrow> P (fst e)" and "x \<in> set (concat sss)"
  shows "P (price (st ! unat x))"
  using side_rep_prices [OF assms(1,3)] assms(2) by auto

lemma side_rep_add_new:
  assumes r: "side_rep st s ls sss" and none: "om_find (price o') ls = None"
    and x: "unat x < length st" "x \<noteq> UINT32_MAX" "x \<notin> set (concat sss)" and s: "side_of o' = s"
    and o': "prev_idx o' = UINT32_MAX" "next_idx o' = UINT32_MAX"
    and l: "level_count l = 1" "total_qty l = remaining_qty o'" "head_idx l = x" "tail_idx l = x"
  shows "\<exists>sss'. side_rep (st[unat x := o']) s (om_put (level_lt s) (price o') l ls) sss' \<and>
    inserted s (\<lambda>y. price (st ! unat y)) (price o') x (concat sss) (concat sss')"
proof -
  have so: "om_sorted (level_lt s) ls" using r by (simp add: side_rep_def)
  obtain xs ys where ls: "ls = xs @ ys" "om_put (level_lt s) (price o') l ls = xs @ (price o', l) # ys"
    "\<forall>e\<in>set xs. level_lt s (fst e) (price o')" "\<forall>e\<in>set ys. level_lt s (price o') (fst e)"
    using level_order.put_fresh [OF so none, of l] by metis
  obtain X Y where sss: "sss = X @ Y" "list_all2 (level_rep st s) xs X" "list_all2 (level_rep st s) ys Y"
    using r ls(1) by (auto simp: side_rep_def list_all2_append1)
  let ?st = "st[unat x := o']"
  have f: "?st ! unat y = st ! unat y" if "y \<in> set (concat sss)" for y
    using that x by auto
  have "list_all2 (level_rep ?st s) xs X" "list_all2 (level_rep ?st s) ys Y"
    by (rule list_all2_level_cong [OF sss(2)] list_all2_level_cong [OF sss(3)]; use f sss(1) in simp)+
  moreover have "level_rep ?st s (price o', l) [x]" using x s o' l by (intro level_rep_single) auto
  ultimately have "side_rep ?st s (om_put (level_lt s) (price o') l ls) (X @ [x] # Y)"
    using level_order.put_sorted [OF so, of "price o'" l]
    by (simp add: side_rep_def ls(2) list_all2_appendI)
  moreover have "inserted s (\<lambda>y. price (st ! unat y)) (price o') x (concat sss) (concat (X @ [x] # Y))"
    unfolding inserted_def
  proof (rule exI [of _ "concat X"], rule exI [of _ "concat Y"], intro conjI ballI)
    show "\<not> level_lt s (price o') (price (st ! unat y))" if "y \<in> set (concat X)" for y
      using levels_slots_prices [OF sss(2) _ that, of "\<lambda>p. \<not> level_lt s (price o') p"] ls(3)
        level_order.asym by blast
    show "level_lt s (price o') (price (st ! unat y))" if "y \<in> set (concat Y)" for y
      using levels_slots_prices [OF sss(3) _ that, of "level_lt s (price o')"] ls(4) by blast
  qed (simp_all add: sss)
  ultimately show ?thesis by blast
qed

lemma side_rep_add_old:
  assumes r: "side_rep st s ls sss" and l: "om_find (price o') ls = Some l"
    and x: "unat x < length st" "x \<noteq> UINT32_MAX" "x \<notin> set (concat sss)" and s: "side_of o' = s"
    and o': "prev_idx o' = tail_idx l" "next_idx o' = UINT32_MAX"
    and st1: "st1 = st[unat x := o']"
    and st2: "st2 = st1[unat (tail_idx l) := (st1 ! unat (tail_idx l))\<lparr>next_idx := x\<rparr>]"
    and l': "head_idx l' = head_idx l" "tail_idx l' = x" "level_count l' = level_count l + 1"
      "total_qty l' = total_qty l + remaining_qty o'"
  shows "\<exists>sss'. side_rep st2 s (om_put (level_lt s) (price o') l' ls) sss' \<and>
    inserted s (\<lambda>y. price (st ! unat y)) (price o') x (concat sss) (concat sss')"
    and "tail_idx l \<in> set (concat sss)"
proof -
  have so: "om_sorted (level_lt s) ls" using r by (simp add: side_rep_def)
  obtain xs ys X ss Y where ls: "ls = xs @ (price o', l) # ys" and sss: "sss = X @ ss # Y"
    and reps: "list_all2 (level_rep st s) xs X" "level_rep st s (price o', l) ss" "list_all2 (level_rep st s) ys Y"
    using side_rep_level [OF r l] .
  have t: "tail_idx l \<in> set ss" "unat (tail_idx l) < length st"
    using level_head_tail [OF reps(2)] level_rep_nonempty [OF reps(2)] level_rep_bound [OF reps(2)] by auto
  then show "tail_idx l \<in> set (concat sss)" by (simp add: sss)
  have prices: "\<forall>e\<in>set xs. level_lt s (fst e) (price o')" "\<forall>e\<in>set ys. level_lt s (price o') (fst e)"
    using so by (auto simp: ls sorted_wrt_append)
  have px: "price (st ! unat y) = price o'" if "y \<in> set ss" for y using level_rep_price [OF reps(2) that] by simp
  have lt: "level_lt s (price (st ! unat y)) (price o')" if "y \<in> set (concat X)" for y
    using levels_slots_prices [OF reps(1) _ that, of "\<lambda>p. level_lt s p (price o')"] prices by blast
  have gt: "level_lt s (price o') (price (st ! unat y))" if "y \<in> set (concat Y)" for y
    using levels_slots_prices [OF reps(3) _ that, of "level_lt s (price o')"] prices by blast
  have fr: "st2 ! unat y = st ! unat y" if "y \<in> set (concat X) \<union> set (concat Y)" for y
  proof -
    have "y \<noteq> x" using that x by (auto simp: sss)
    moreover have "y \<noteq> tail_idx l" using that lt [of y] gt [of y] px [OF t(1)] level_order.irrefl by (metis UnE)
    ultimately show ?thesis using x t by (simp add: st1 st2)
  qed
  have "list_all2 (level_rep st2 s) xs X" "list_all2 (level_rep st2 s) ys Y"
    by (rule list_all2_level_cong [OF reps(1)] list_all2_level_cong [OF reps(3)]; use fr in \<open>simp add: st1 st2\<close>)+
  moreover have "level_rep st2 s (price o', l') (ss @ [x])"
    by (rule level_rep_snoc [OF reps(2) _ _ _ _ _ _ _ st1 st2]) (use x s o' l' sss in auto)
  ultimately have "side_rep st2 s (om_put (level_lt s) (price o') l' ls) (X @ (ss @ [x]) # Y)"
    using level_order.put_sorted [OF so, of "price o'" l'] so
    by (simp add: side_rep_def ls level_order.put_split list_all2_appendI)
  moreover have "inserted s (\<lambda>y. price (st ! unat y)) (price o') x (concat sss) (concat (X @ (ss @ [x]) # Y))"
    unfolding inserted_def
  proof (rule exI [of _ "concat X @ ss"], rule exI [of _ "concat Y"], intro conjI ballI)
    show "\<not> level_lt s (price o') (price (st ! unat y))" if "y \<in> set (concat X @ ss)" for y
      using that lt [of y] px [of y] level_order.asym level_order.irrefl by auto
  qed (use gt in \<open>simp_all add: sss\<close>)
  ultimately show "\<exists>sss'. side_rep st2 s (om_put (level_lt s) (price o') l' ls) sss' \<and>
    inserted s (\<lambda>y. price (st ! unat y)) (price o') x (concat sss) (concat sss')" by blast
qed

end
