(* ===== verification/Order_Book_Correct.thy ===== *)
theory Order_Book_Correct
  imports Order_Book_Rep
begin

text \<open>
  Correctness of the order book operations of \<^verbatim>\<open>src/order_book.cpp\<close> against the two priority
  queues a book stands for.
\<close>

section \<open>Removing and changing an order of a side\<close>

lemma of_nat_u32_0: "n < 2 ^ 32 \<Longrightarrow> (of_nat n :: u32) = 0 \<longleftrightarrow> n = 0"
  by (auto simp: word_of_nat_eq_0_iff dest: nat_dvd_not_less)

lemma remove1_mid: "distinct (as @ x # bs) \<Longrightarrow> remove1 x (as @ x # bs) = as @ bs"
  by (induction as) auto

lemma side_rep_remove:
  assumes r: "side_rep st s ls sss" and x: "x \<in> set (concat sss)" and d: "distinct (concat sss)"
    and cap: "length st \<le> unat UINT32_MAX" and l: "om_find (price (st ! unat x)) ls = Some l"
    and st': "length st' = length st"
      "\<And>y. y \<in> set (concat sss) \<Longrightarrow> y \<noteq> x \<Longrightarrow> st' ! unat y = (unlink_slot x st) ! unat y"
    and l': "l' = l\<lparr>head_idx := (if head_idx l = x then next_idx (st ! unat x) else head_idx l),
                    tail_idx := (if tail_idx l = x then prev_idx (st ! unat x) else tail_idx l),
                    level_count := level_count l - 1,
                    total_qty := total_qty l - remaining_qty (st ! unat x)\<rparr>"
  shows "\<exists>sss'. side_rep st' s (if level_count l' = 0 then om_erase (price (st ! unat x)) ls
            else om_put (level_lt s) (price (st ! unat x)) l' ls) sss' \<and> concat sss' = remove1 x (concat sss)"
proof -
  let ?p = "price (st ! unat x)"
  have so: "om_sorted (level_lt s) ls" using r by (simp add: side_rep_def)
  obtain xs k ys X as bs Y where ls: "ls = xs @ (?p, k) # ys" and sss: "sss = X @ (as @ x # bs) # Y"
    and X: "list_all2 (level_rep st s) xs X" and lv: "level_rep st s (?p, k) (as @ x # bs)"
    and Y: "list_all2 (level_rep st s) ys Y" and k: "om_find ?p ls = Some k"
    using side_rep_slot [OF r x] .
  have kl: "k = l" using k l by simp
  have c: "concat sss = (concat X @ as) @ x # (bs @ concat Y)" by (simp add: sss)
  have rm: "remove1 x (concat sss) = (concat X @ as) @ bs @ concat Y"
    using d unfolding c by (rule remove1_mid)
  have fr: "st' ! unat y = st ! unat y" if "y \<in> set (concat X) \<union> set (concat Y)" for y
  proof -
    have ns: "y \<notin> set (as @ x # bs)" using that d by (auto simp: c)
    have "y \<in> set (concat sss)" "y \<noteq> x" using that ns by (auto simp: c)
    then show ?thesis using st'(2) unlink_slot_fields(5) [OF lv ns] by simp
  qed
  have X': "list_all2 (level_rep st' s) xs X" and Y': "list_all2 (level_rep st' s) ys Y"
    by (rule list_all2_level_cong [OF X] list_all2_level_cong [OF Y]; use fr st'(1) in simp)+
  have len: "length (as @ bs) < 2 ^ 32"
    using level_rep_length [OF lv] cap by simp
  have cnt: "level_count l' = of_nat (length (as @ bs))"
    using lv by (simp add: l' kl level_rep_def)
  then have z: "level_count l' = 0 \<longleftrightarrow> as @ bs = []"
    using of_nat_u32_0 [OF len] by (simp only: length_0_conv)
  show ?thesis
  proof (cases "as @ bs = []")
    case True
    have "side_rep st' s (om_erase ?p ls) (X @ Y)"
      using level_order.erase_sorted [OF so, of ?p] X' Y' so
      by (simp add: side_rep_def ls level_order.erase_split list_all2_appendI)
    then show ?thesis using True z rm by (intro exI [of _ "X @ Y"]) simp
  next
    case False
    have "level_rep st' s (?p, l') (as @ bs)"
      by (rule level_rep_remove [OF lv False st'(1)]) (use st'(2) d in \<open>auto simp: c l' kl\<close>)
    then have "side_rep st' s (om_put (level_lt s) ?p l' ls) (X @ (as @ bs) # Y)"
      using level_order.put_sorted [OF so, of ?p l'] X' Y' so
      by (simp add: side_rep_def ls level_order.put_split list_all2_appendI)
    then show ?thesis using False z rm by (intro exI [of _ "X @ (as @ bs) # Y"]) auto
  qed
qed

lemma level_rep_fields:
  assumes "length st' = length st"
    and "\<And>y. y \<in> set ss \<Longrightarrow> next_idx (st' ! unat y) = next_idx (st ! unat y) \<and>
      prev_idx (st' ! unat y) = prev_idx (st ! unat y) \<and> price (st' ! unat y) = price (st ! unat y) \<and>
      side_of (st' ! unat y) = side_of (st ! unat y)"
    and "level_rep st s (p, l) ss" and "head_idx l' = head_idx l" "tail_idx l' = tail_idx l"
      "level_count l' = level_count l" "total_qty l' = sum_list (map (fld remaining_qty st') ss)"
  shows "level_rep st' s (p, l') ss"
proof -
  have "dll (fld next_idx st') (fld prev_idx st') h t ss = dll (fld next_idx st) (fld prev_idx st) h t ss" for h t
    by (intro dll_cong) (simp_all add: fld_def assms(2))
  then show ?thesis using assms unfolding level_rep_def by (auto simp: fld_def)
qed

lemma sum_list_upd:
  fixes f :: "'a \<Rightarrow> 'b::ab_group_add"
  assumes "distinct xs" and "x \<in> set xs"
  shows "sum_list (map (f(x := v)) xs) = sum_list (map f xs) - f x + v"
proof -
  obtain as bs where xs: "xs = as @ x # bs" using assms(2) by (meson split_list)
  have "map (f(x := v)) as = map f as" "map (f(x := v)) bs = map f bs" using assms(1) by (auto simp: xs)
  then show ?thesis unfolding xs map_append list.map sum_list_append sum_list.Cons by (simp only:) (simp add: algebra_simps)
qed

lemma side_rep_change:
  assumes r: "side_rep st s ls sss" and x: "x \<in> set (concat sss)" and d: "distinct (concat sss)"
    and l: "om_find (price (st ! unat x)) ls = Some l"
    and o': "next_idx o' = next_idx (st ! unat x)" "prev_idx o' = prev_idx (st ! unat x)"
      "price o' = price (st ! unat x)" "side_of o' = side_of (st ! unat x)"
    and q: "q = total_qty l - remaining_qty (st ! unat x) + remaining_qty o'"
  shows "side_rep (st[unat x := o']) s (om_put (level_lt s) (price (st ! unat x)) (l\<lparr>total_qty := q\<rparr>) ls) sss"
proof -
  let ?p = "price (st ! unat x)" and ?st = "st[unat x := o']"
  have so: "om_sorted (level_lt s) ls" using r by (simp add: side_rep_def)
  obtain xs k ys X as bs Y where ls: "ls = xs @ (?p, k) # ys" and sss: "sss = X @ (as @ x # bs) # Y"
    and X: "list_all2 (level_rep st s) xs X" and lv: "level_rep st s (?p, k) (as @ x # bs)"
    and Y: "list_all2 (level_rep st s) ys Y" and k: "om_find ?p ls = Some k"
    using side_rep_slot [OF r x] .
  have kl: "k = l" using k l by simp
  have b: "unat x < length st" using level_rep_bound [OF lv] by simp
  have fr: "?st ! unat y = st ! unat y" if "y \<in> set (concat X) \<union> set (concat Y)" for y
    using that d b by (auto simp: sss)
  have XY: "list_all2 (level_rep ?st s) xs X" "list_all2 (level_rep ?st s) ys Y"
    by (rule list_all2_level_cong [OF X] list_all2_level_cong [OF Y]; use fr in simp)+
  have tot: "q = sum_list (map (fld remaining_qty ?st) (as @ x # bs))"
  proof -
    have "total_qty l = sum_list (map (fld remaining_qty st) (as @ x # bs))"
      using lv kl by (simp only: level_rep_def snd_conv)
    then show ?thesis unfolding q fld_list_update [OF b] sum_list_upd [OF level_rep_distinct [OF lv] in_set_conv_decomp [THEN iffD2, OF exI, OF exI, OF refl]]
      by (simp only: fld_def)
  qed
  have "level_rep ?st s (?p, l\<lparr>total_qty := q\<rparr>) (as @ x # bs)"
    by (rule level_rep_fields [OF _ _ lv]) (use b o' kl tot in simp_all)
  then show ?thesis using level_order.put_sorted [OF so, of ?p "l\<lparr>total_qty := q\<rparr>"] XY so
    by (simp add: side_rep_def ls sss level_order.put_split list_all2_appendI)
qed

lemma side_rep_fields:
  assumes r: "side_rep st s ls sss" and b: "length st' = length st"
    and f: "\<And>y. y \<in> set (concat sss) \<Longrightarrow> next_idx (st' ! unat y) = next_idx (st ! unat y) \<and>
      prev_idx (st' ! unat y) = prev_idx (st ! unat y) \<and> price (st' ! unat y) = price (st ! unat y) \<and>
      side_of (st' ! unat y) = side_of (st ! unat y) \<and> remaining_qty (st' ! unat y) = remaining_qty (st ! unat y)"
  shows "side_rep st' s ls sss"
proof -
  have "list_all2 (level_rep st' s) ls sss"
  proof (rule list.rel_mono_strong [of "level_rep st s"])
    show "list_all2 (level_rep st s) ls sss" using r by (simp add: side_rep_def)
    fix e ss assume ss: "ss \<in> set sss" and lv: "level_rep st s e ss"
    obtain p l where e: "e = (p, l)" by (cases e)
    have f': "\<And>y. y \<in> set ss \<Longrightarrow> next_idx (st' ! unat y) = next_idx (st ! unat y) \<and>
      prev_idx (st' ! unat y) = prev_idx (st ! unat y) \<and> price (st' ! unat y) = price (st ! unat y) \<and>
      side_of (st' ! unat y) = side_of (st ! unat y) \<and> remaining_qty (st' ! unat y) = remaining_qty (st ! unat y)"
      using f ss by auto
    then have "map (fld remaining_qty st') ss = map (fld remaining_qty st) ss" by (simp add: fld_def)
    then have q: "total_qty l = sum_list (map (fld remaining_qty st') ss)"
      using lv by (simp only: e level_rep_def snd_conv)
    show "level_rep st' s e ss"
      unfolding e by (rule level_rep_fields [OF b _ lv [unfolded e] refl refl refl q]) (use f' in blast)
  qed
  then show ?thesis using r by (simp add: side_rep_def)
qed

section \<open>The representation of a book\<close>

abbreviation ob_storage :: "order_book \<Rightarrow> order list" where "ob_storage b \<equiv> storage (ob_pool b)"

definition own :: "(side \<Rightarrow> u32 list list) \<Rightarrow> u32 list" where
  "own R = concat (R BUY) @ concat (R SELL)"

text \<open>
  \<open>R s\<close> lists the slots of side \<open>s\<close> level by level, \<open>F\<close> holds the slots the other books of the
  same pool own, and \<open>fl\<close> is the free list.  Every entry of the index points to a live order of
  that id; \<open>indexed\<close> is the converse.
\<close>

definition book_rep :: "order_book \<Rightarrow> (side \<Rightarrow> u32 list list) \<Rightarrow> u32 set \<Rightarrow> u32 list \<Rightarrow> bool" where
  "book_rep b R F fl \<longleftrightarrow> pool_inv (ob_pool b) fl \<and> map_inv (ob_index b) \<and>
     (\<forall>s. s \<noteq> INVALID \<longrightarrow> side_rep (ob_storage b) s (levels_of s b) (R s)) \<and>
     distinct (own R) \<and> set (own R) \<inter> F = {} \<and> set (own R) \<union> F = live_slots (ob_pool b) fl \<and>
     (\<forall>k i. map_abs (ob_index b) k = Some i \<longrightarrow>
        i \<in> live_slots (ob_pool b) fl \<and> order_id (ob_storage b ! unat i) = k)"

definition indexed :: "order_book \<Rightarrow> u32 set \<Rightarrow> bool" where
  "indexed b S \<longleftrightarrow> (\<forall>i\<in>S. map_abs (ob_index b) (order_id (ob_storage b ! unat i)) = Some i)"

lemma book_repD:
  assumes "book_rep b R F fl"
  shows book_rep_pool: "pool_inv (ob_pool b) fl" and book_rep_map: "map_inv (ob_index b)"
    and book_rep_side: "s \<noteq> INVALID \<Longrightarrow> side_rep (ob_storage b) s (levels_of s b) (R s)"
    and book_rep_distinct: "distinct (own R)" and book_rep_disj: "set (own R) \<inter> F = {}"
    and book_rep_live: "set (own R) \<union> F = live_slots (ob_pool b) fl"
    and book_rep_index: "map_abs (ob_index b) k = Some i \<Longrightarrow> i \<in> set (own R) \<union> F"
    and book_rep_index_id: "map_abs (ob_index b) k = Some i \<Longrightarrow> order_id (ob_storage b ! unat i) = k"
    and book_rep_cap: "length (ob_storage b) \<le> unat UINT32_MAX"
  using assms unfolding book_rep_def pool_inv_def by blast+

lemma side_cases: "s \<noteq> INVALID \<Longrightarrow> s = BUY \<or> s = SELL"
  by (cases s) auto

lemma own_side: "s \<noteq> INVALID \<Longrightarrow> set (concat (R s)) \<subseteq> set (own R)"
  by (cases s) (auto simp: own_def)

lemma own_upd: "s \<noteq> INVALID \<Longrightarrow> set (own (R(s := ss))) = set (concat ss) \<union> (set (own R) - set (concat (R s)))"
  if "distinct (own R)" using that by (cases s) (auto simp: own_def)

lemma own_upd_distinct:
  assumes "s \<noteq> INVALID" and "distinct (own R)" and "distinct (concat ss)"
    and "set (concat ss) \<inter> (set (own R) - set (concat (R s))) = {}"
  shows "distinct (own (R(s := ss)))"
  using assms by (cases s) (auto simp: own_def)

lemma own_sub_distinct: "s \<noteq> INVALID \<Longrightarrow> distinct (own R) \<Longrightarrow> distinct (concat (R s))"
  by (cases s) (auto simp: own_def)

lemma set_levels_simps [simp]:
  "ob_pool (set_levels s ls b) = ob_pool b" "ob_index (set_levels s ls b) = ob_index b"
  "ob_index_update f (set_levels s ls b) = set_levels s ls (ob_index_update f b)"
  by (simp_all add: set_levels_def)

lemma levels_of_updates [simp]:
  "levels_of s (ob_pool_update f b) = levels_of s b" "levels_of s (ob_index_update g b) = levels_of s b"
  by (simp_all add: levels_of_def)

lemma levels_of_set_levels:
  "s \<noteq> INVALID \<Longrightarrow> s' \<noteq> INVALID \<Longrightarrow> levels_of s' (set_levels s ls b) = (if s' = s then ls else levels_of s' b)"
  by (cases s; cases s') (simp_all add: levels_of_def set_levels_def)

lemma live_slots_upd: "capacity p' = capacity p \<Longrightarrow> live_slots p' fl = live_slots p fl"
  by (simp add: live_slots_def)

lemma own_bound:
  assumes "book_rep b R F fl" and "y \<in> set (own R) \<union> F"
  shows "unat y < length (ob_storage b)" and "y \<notin> set fl"
  using assms book_rep_live [OF assms(1)] by (auto simp: live_slots_def)

section \<open>addOrder\<close>

lemma addOrder_links:
  assumes rep: "book_rep b R F (x # fl)" and s: "side_of ord = s" "s \<noteq> INVALID"
  shows "\<exists>p2 lv ss. addOrder ord b = do {
        (inserted, ix) \<leftarrow> map_insert (order_id ord) x (ob_index b);
        Some (True, set_levels s (om_put (level_lt s) (price ord) lv (levels_of s b)) (b\<lparr>ob_pool := p2, ob_index := ix\<rparr>)) } \<and>
      pool_inv p2 fl \<and> capacity p2 = length (ob_storage b) \<and>
      side_rep (storage p2) s (om_put (level_lt s) (price ord) lv (levels_of s b)) ss \<and>
      inserted s (\<lambda>y. price (ob_storage b ! unat y)) (price ord) x (concat (R s)) (concat ss) \<and>
      (\<forall>y. core (storage p2 ! unat y) = (if y = x then core ord else core (ob_storage b ! unat y))) \<and>
      (\<forall>y. y \<notin> set (concat (R s)) \<longrightarrow> y \<noteq> x \<longrightarrow> storage p2 ! unat y = ob_storage b ! unat y)"
proof -
  let ?p = "ob_pool b" and ?st = "ob_storage b" and ?ls = "levels_of s b" and ?ix = "ob_index b"
  have pi: "pool_inv ?p (x # fl)" using rep by (rule book_rep_pool)
  define p0 where "p0 = ?p\<lparr>free_head := tag_idx (free_head ?p) (pool_next_free (?st ! unat x)), pool_size := pool_size ?p + 1\<rparr>"
  have al: "allocate ?p = Some (Some x, p0)" and pi0: "pool_inv p0 fl"
    using allocate_slot [OF pi] by (simp_all add: p0_def)
  have st0: "storage p0 = ?st" by (simp add: p0_def)
  have x: "unat x < length ?st" "x \<notin> set fl" "x \<noteq> UINT32_MAX"
    using pi pool_inv_distinct [OF pi] by (auto simp: pool_inv_def)
  have xo: "x \<notin> set (concat (R s))"
    using own_bound(2) [OF rep] own_side [OF s(2)] by fastforce
  have sr: "side_rep ?st s ?ls (R s)" using rep s(2) by (rule book_rep_side)
  have upd: "pool_upd (p0\<lparr>storage := st\<rparr>) z f = Some (p0\<lparr>storage := st[unat z := f (st ! unat z)]\<rparr>)"
    if "unat z < length st" for st z f using that by (simp add: pool_upd_def arr_upd_Some)
  have upd0: "pool_upd p0 x f = Some (p0\<lparr>storage := ?st[unat x := f (?st ! unat x)]\<rparr>)" for f
    using x by (simp add: pool_upd_def arr_upd_Some st0)
  show ?thesis
  proof (cases "om_find (price ord) ?ls")
    case None
    let ?o = "ord\<lparr>prev_idx := UINT32_MAX, next_idx := UINT32_MAX\<rparr>"
    let ?lv = "new_PriceLevel\<lparr>head_idx := x, tail_idx := x, level_count := 1, total_qty := remaining_qty ord\<rparr>"
    let ?p2 = "p0\<lparr>storage := ?st[unat x := ?o]\<rparr>"
    have add: "addOrder ord b = do {
        (inserted, ix) \<leftarrow> map_insert (order_id ord) x ?ix;
        Some (True, set_levels s (om_put (level_lt s) (price ord) ?lv ?ls) (b\<lparr>ob_pool := ?p2, ob_index := ix\<rparr>)) }"
      using s x None by (simp add: addOrder_def al upd0 upd om_index_def new_PriceLevel_def)
    obtain ss where "side_rep (storage ?p2) s (om_put (level_lt s) (price ord) ?lv ?ls) ss"
      "inserted s (\<lambda>y. price (?st ! unat y)) (price ord) x (concat (R s)) (concat ss)"
      using side_rep_add_new [OF sr, of ?o x ?lv] None x xo s by auto
    moreover have "pool_inv ?p2 fl" using pool_inv_update [OF pi0 x(2)] by (simp add: st0)
    ultimately show ?thesis using x
      by (intro exI [of _ ?p2] exI [of _ ?lv] exI [of _ ss] conjI add) auto
  next
    case (Some l)
    let ?o = "ord\<lparr>prev_idx := tail_idx l, next_idx := UINT32_MAX\<rparr>" and ?t = "tail_idx l"
    let ?lv = "l\<lparr>tail_idx := x, level_count := level_count l + 1, total_qty := total_qty l + remaining_qty ord\<rparr>"
    let ?st1 = "?st[unat x := ?o]"
    let ?st2 = "?st1[unat ?t := (?st1 ! unat ?t)\<lparr>next_idx := x\<rparr>]"
    let ?p2 = "p0\<lparr>storage := ?st2\<rparr>"
    note old = side_rep_add_old [OF sr, of ?o l x ?st1 ?st2 ?lv]
    have t: "?t \<in> set (concat (R s))" using Some x xo s by (intro old(2)) simp_all
    have tb: "unat ?t < length ?st" "?t \<notin> set fl"
      using own_bound [OF rep, of ?t] own_side [OF s(2)] t by auto
    obtain X ss Y xs ys where "level_rep ?st s (price ord, l) ss" using side_rep_level [OF sr Some] by metis
    then have c: "level_count l \<noteq> 0" using level_count_pos(2) book_rep_cap [OF rep] by fastforce
    have add: "addOrder ord b = do {
        (inserted, ix) \<leftarrow> map_insert (order_id ord) x ?ix;
        Some (True, set_levels s (om_put (level_lt s) (price ord) ?lv ?ls) (b\<lparr>ob_pool := ?p2, ob_index := ix\<rparr>)) }"
      using s x tb c Some by (simp add: addOrder_def al upd0 upd om_index_def)
    obtain ss where "side_rep (storage ?p2) s (om_put (level_lt s) (price ord) ?lv ?ls) ss"
      "inserted s (\<lambda>y. price (?st ! unat y)) (price ord) x (concat (R s)) (concat ss)"
      using old(1) Some x xo s by auto
    moreover have "pool_inv ?p2 fl"
      using pool_inv_update [OF pool_inv_update [OF pi0 x(2)] tb(2)] by (simp add: st0)
    moreover have "core (?st2 ! unat y) = (if y = x then core ord else core (?st ! unat y))" for y
      using x tb by simp
    moreover have "?st2 ! unat y = ?st ! unat y" if "y \<notin> set (concat (R s))" "y \<noteq> x" for y
    proof -
      have "y \<noteq> ?t" using that t by blast
      then show ?thesis using that x tb by simp
    qed
    ultimately show ?thesis
      by (intro exI [of _ ?p2] exI [of _ ?lv] exI [of _ ss] conjI add) simp_all
  qed
qed

lemma inserted_set:
  assumes "inserted s pr p x xs ys"
  shows "set ys = insert x (set xs)" and "distinct ys \<longleftrightarrow> distinct xs \<and> x \<notin> set xs"
  using assms by (auto simp: inserted_def)

lemma other_side_disjoint:
  assumes "s \<noteq> INVALID" "s' \<noteq> INVALID" "s' \<noteq> s" "distinct (own R)" "y \<in> set (concat (R s'))"
  shows "y \<notin> set (concat (R s))"
  using assms by (cases s; cases s') (auto simp: own_def)

lemma order_id_core: "core a = core b \<Longrightarrow> order_id a = order_id b"
  by (metis core_fields(2))

lemma addOrder_ok:
  assumes rep: "book_rep b R F (x # fl)" and s: "side_of ord = s" "s \<noteq> INVALID"
    and fresh: "map_abs (ob_index b) (order_id ord) = None"
  shows "\<exists>b' ss. addOrder ord b = Some (True, b') \<and> book_rep b' (R(s := ss)) F fl \<and>
      inserted s (\<lambda>y. price (ob_storage b ! unat y)) (price ord) x (concat (R s)) (concat ss) \<and>
      length (ob_storage b') = length (ob_storage b) \<and>
      (\<forall>y. core (ob_storage b' ! unat y) = (if y = x then core ord else core (ob_storage b ! unat y))) \<and>
      (\<forall>y\<in>F. ob_storage b' ! unat y = ob_storage b ! unat y) \<and>
      map_abs (ob_index b') = (if map_room (ob_index b) (order_id ord)
        then (map_abs (ob_index b))(order_id ord \<mapsto> x) else map_abs (ob_index b))"
proof -
  obtain p2 lv ss where add: "addOrder ord b = do {
        (inserted, ix) \<leftarrow> map_insert (order_id ord) x (ob_index b);
        Some (True, set_levels s (om_put (level_lt s) (price ord) lv (levels_of s b)) (b\<lparr>ob_pool := p2, ob_index := ix\<rparr>)) }"
    and pi: "pool_inv p2 fl" and cap: "capacity p2 = length (ob_storage b)"
    and sr: "side_rep (storage p2) s (om_put (level_lt s) (price ord) lv (levels_of s b)) ss"
    and ins: "inserted s (\<lambda>y. price (ob_storage b ! unat y)) (price ord) x (concat (R s)) (concat ss)"
    and co: "\<And>y. core (storage p2 ! unat y) = (if y = x then core ord else core (ob_storage b ! unat y))"
    and fr: "\<And>y. y \<notin> set (concat (R s)) \<Longrightarrow> y \<noteq> x \<Longrightarrow> storage p2 ! unat y = ob_storage b ! unat y"
    using addOrder_links [OF rep s] by metis
  obtain ok ix where mi: "map_insert (order_id ord) x (ob_index b) = Some (ok, ix)" "map_inv ix"
    "map_abs ix = (if ok then (map_abs (ob_index b))(order_id ord \<mapsto> x) else map_abs (ob_index b))"
    "ok = map_room (ob_index b) (order_id ord)"
    using order_index.insert_total [OF book_rep_map [OF rep] fresh, of x] by metis
  let ?b' = "set_levels s (om_put (level_lt s) (price ord) lv (levels_of s b)) (b\<lparr>ob_pool := p2, ob_index := ix\<rparr>)"
  have x: "x \<notin> set (own R) \<union> F" "x \<notin> set fl" "unat x < length (ob_storage b)"
    using own_bound(2) [OF rep] pool_inv_distinct [OF book_rep_pool [OF rep]] book_rep_pool [OF rep]
    by (fastforce simp: pool_inv_def)+
  have live: "live_slots p2 fl = insert x (live_slots (ob_pool b) (x # fl))"
    using cap x by (auto simp: live_slots_def)
  have own': "set (own (R(s := ss))) = insert x (set (own R))"
    using own_upd [OF book_rep_distinct [OF rep] s(2), of ss] inserted_set(1) [OF ins] own_side [OF s(2), of R] by auto
  have sides: "side_rep (storage p2) s' (levels_of s' ?b') ((R(s := ss)) s')" if "s' \<noteq> INVALID" for s'
  proof (cases "s' = s")
    case True then show ?thesis using sr s(2) by (simp add: levels_of_set_levels)
  next
    case False
    have "side_rep (storage p2) s' (levels_of s' b) (R s')"
    proof (rule side_rep_cong [OF _ cap book_rep_side [OF rep that]])
      fix y assume y: "y \<in> set (concat (R s'))"
      show "storage p2 ! unat y = ob_storage b ! unat y"
        using y x own_side [OF that, of R] other_side_disjoint [OF s(2) that False book_rep_distinct [OF rep] y]
        by (intro fr) auto
    qed
    then show ?thesis using False that s(2) by (simp add: levels_of_set_levels)
  qed
  have dis: "distinct (own (R(s := ss)))"
    using s(2) book_rep_distinct [OF rep] inserted_set [OF ins] own_sub_distinct [OF s(2), of R] own_side [OF s(2), of R] x
    by (intro own_upd_distinct) auto
  have idx: "i \<in> live_slots p2 fl \<and> order_id (storage p2 ! unat i) = k" if "map_abs ix k = Some i" for k i
  proof (cases "ok \<and> k = order_id ord")
    case True
    then show ?thesis using that live order_id_core [of "storage p2 ! unat x" ord] co [of x] by (simp add: mi(3))
  next
    case False
    then have m: "map_abs (ob_index b) k = Some i" using that by (auto simp: mi(3) split: if_splits)
    have i: "i \<in> set (own R) \<union> F" using rep m by (rule book_rep_index)
    then have "i \<noteq> x" using x by blast
    then show ?thesis
      using i book_rep_live [OF rep] live order_id_core [of "storage p2 ! unat i" "ob_storage b ! unat i"]
        co [of i] book_rep_index_id [OF rep m] by simp
  qed
  have "book_rep ?b' (R(s := ss)) F fl"
    unfolding book_rep_def using pi mi(2) sides dis own' live idx x book_rep_disj [OF rep] book_rep_live [OF rep]
    by auto
  moreover have "storage p2 ! unat y = ob_storage b ! unat y" if "y \<in> F" for y
    using that x book_rep_disj [OF rep] own_side [OF s(2), of R] by (intro fr) auto
  ultimately show ?thesis using ins co cap
    by (intro exI [of _ ?b'] exI [of _ ss]) (simp add: add mi)
qed

lemma addOrder_full: "book_rep b R F [] \<Longrightarrow> side_of ord \<noteq> INVALID \<Longrightarrow> addOrder ord b = Some (False, b)"
  using allocate_empty [OF book_rep_pool] by (simp add: addOrder_def)

section \<open>removeOrder\<close>

lemma unlink_slot_cases:
  "unlink_slot x st =
     (let st1 = (if prev_idx (st ! unat x) \<noteq> UINT32_MAX
                 then st[unat (prev_idx (st ! unat x)) := next_idx_update (\<lambda>_. next_idx (st ! unat x)) (st ! unat (prev_idx (st ! unat x)))]
                 else st)
      in if next_idx (st1 ! unat x) \<noteq> UINT32_MAX
         then st1[unat (next_idx (st1 ! unat x)) := prev_idx_update (\<lambda>_. prev_idx (st1 ! unat x)) (st1 ! unat (next_idx (st1 ! unat x)))]
         else st1)"
  by (simp add: unlink_slot_def)

text \<open>The two pointer writes stay inside the storage and compute \<open>unlink_slot\<close>.\<close>

lemma unlink_writes:
  assumes r: "level_rep (storage p) s e (as @ x # bs)" and st: "st = storage p"
  shows "(do {
      p1 \<leftarrow> (if prev_idx (st ! unat x) \<noteq> UINT32_MAX
            then pool_upd p (prev_idx (st ! unat x)) (next_idx_update (\<lambda>_. next_idx (st ! unat x))) else Some p);
      ord1 \<leftarrow> pool_at p1 x;
      p2 \<leftarrow> (if next_idx ord1 \<noteq> UINT32_MAX
            then pool_upd p1 (next_idx ord1) (prev_idx_update (\<lambda>_. prev_idx ord1)) else Some p1);
      g p2 }) = g (p\<lparr>storage := unlink_slot x st\<rparr>)"
proof -
  note nb = level_rep_neighbours [OF r]
  have b: "unat x < length (storage p)" using level_rep_bound [OF r] by simp
  have pb: "unat (prev_idx (storage p ! unat x)) < length (storage p)" if "prev_idx (storage p ! unat x) \<noteq> UINT32_MAX"
    using that level_rep_bound [OF r, of "last as"] by (auto simp: nb split: if_splits)
  have nbd: "unat (next_idx (storage p ! unat x)) < length (storage p)" if "next_idx (storage p ! unat x) \<noteq> UINT32_MAX"
    using that level_rep_bound [OF r, of "hd bs"] by (auto simp: nb split: if_splits)
  have ne: "prev_idx (storage p ! unat x) \<noteq> x" if "prev_idx (storage p ! unat x) \<noteq> UINT32_MAX"
  proof -
    have "as \<noteq> []" "prev_idx (storage p ! unat x) = last as" using that by (auto simp: nb split: if_splits)
    then show ?thesis using level_rep_distinct [OF r] by (auto dest: last_in_set)
  qed
  show ?thesis using b pb nbd ne
    by (auto simp: unlink_slot_def st pool_upd_def pool_at_def arr_upd_Some arr_get_Some Let_def)
qed

lemma removeOrder_ptr_ok:
  assumes rep: "book_rep b R F fl" and s: "s \<noteq> INVALID" and x: "x \<in> set (concat (R s))"
  shows "\<exists>b' ss. removeOrder_ptr x b = Some b' \<and> book_rep b' (R(s := ss)) F (x # fl) \<and>
      concat ss = remove1 x (concat (R s)) \<and> length (ob_storage b') = length (ob_storage b) \<and>
      (\<forall>y :: u32. core (ob_storage b' ! unat y) = core (ob_storage b ! unat y)) \<and>
      (\<forall>y\<in>F. ob_storage b' ! unat y = ob_storage b ! unat y) \<and>
      map_abs (ob_index b') = (map_abs (ob_index b))(order_id (ob_storage b ! unat x) := None) \<and>
      map_erase (order_id (ob_storage b ! unat x)) (ob_index b) = Some (ob_index b')"
proof -
  let ?st = "ob_storage b" and ?ls = "levels_of s b" and ?p = "ob_pool b"
  let ?o = "?st ! unat x" and ?u = "unlink_slot x ?st"
  have sr: "side_rep ?st s ?ls (R s)" using rep s by (rule book_rep_side)
  have xo: "x \<in> set (own R)" using own_side [OF s] x by blast
  have xb: "unat x < length ?st" "x \<notin> set fl" using own_bound [OF rep, of x] xo by auto
  have so: "side_of ?o = s" using side_rep_bound [OF sr x] by simp
  obtain xs l ys X as bs Y where sss: "R s = X @ (as @ x # bs) # Y" and lv: "level_rep ?st s (price ?o, l) (as @ x # bs)"
    and l: "om_find (price ?o) ?ls = Some l" using side_rep_slot [OF sr x] by metis
  note uf = unlink_slot_fields [OF lv]
  have pu: "pool_inv (?p\<lparr>storage := ?u\<rparr>) fl"
  proof -
    have "fld pool_next_free ?u = fld pool_next_free ?st" by (rule ext) (simp add: fld_def uf(7))
    then show ?thesis using book_rep_pool [OF rep] uf(6) by (simp add: pool_inv_def)
  qed
  obtain ix where ix: "map_erase (order_id ?o) (ob_index b) = Some ix" "map_inv ix"
    "map_abs ix = (map_abs (ob_index b))(order_id ?o := None)"
    using order_index.erase_abs [OF book_rep_map [OF rep]] by metis
  obtain p3 where p3: "deallocate x (?p\<lparr>storage := ?u\<rparr>) = Some p3" "pool_inv p3 (x # fl)"
    "storage p3 = ?u[unat x := (?u ! unat x)\<lparr>pool_next_free := head_idx_of (free_head ?p)\<rparr>]"
    using deallocate_slot [OF pu, of x] xb uf(6) by auto
  define l' where "l' = l\<lparr>head_idx := (if head_idx l = x then next_idx ?o else head_idx l),
                    tail_idx := (if tail_idx l = x then prev_idx ?o else tail_idx l),
                    level_count := level_count l - 1, total_qty := total_qty l - remaining_qty ?o\<rparr>"
  define ls' where "ls' = (if level_count l' = 0 then om_erase (price ?o) ?ls else om_put (level_lt s) (price ?o) l' ?ls)"
  let ?b' = "set_levels s ls' (b\<lparr>ob_pool := p3, ob_index := ix\<rparr>)"
  have rm: "removeOrder_ptr x b = Some ?b'"
    using xb l so uf(6) p3(1) ix(1) unfolding removeOrder_ptr_def pool_at_def arr_get_Some [OF xb(1)]
    by (simp add: unlink_writes [OF lv refl, unfolded pool_at_def] arr_get_Some uf(4) ls'_def l'_def)
  have len: "length (storage p3) = length ?st" by (simp add: p3(3) uf(6))
  have fr: "storage p3 ! unat y = ?u ! unat y" if "y \<noteq> x" for y using that xb uf(6) by (simp add: p3(3))
  obtain ss where ss: "side_rep (storage p3) s ls' ss" "concat ss = remove1 x (concat (R s))"
    using side_rep_remove [OF sr x own_sub_distinct [OF s book_rep_distinct [OF rep]] book_rep_cap [OF rep] l len _ l'_def] fr
    by (auto simp: ls'_def)
  have d: "distinct (concat (R s))" using own_sub_distinct [OF s book_rep_distinct [OF rep]] .
  have co: "core (storage p3 ! unat y) = core (?st ! unat y)" for y :: u32
    using uf(3) [of y] uf(4) xb uf(6) by (simp add: p3(3))
  have far: "storage p3 ! unat y = ?st ! unat y" if "y \<notin> set (concat (R s))" for y
  proof -
    have "y \<notin> set (as @ x # bs)" using that by (auto simp: sss)
    then show ?thesis using uf(5) [of y] fr [of y] by simp
  qed
  have own': "set (own (R(s := ss))) = set (own R) - {x}"
    using own_upd [OF book_rep_distinct [OF rep] s, of ss] own_side [OF s, of R] d x by (auto simp: ss(2))
  have sides: "side_rep (storage p3) s' (levels_of s' ?b') ((R(s := ss)) s')" if "s' \<noteq> INVALID" for s'
  proof (cases "s' = s")
    case True then show ?thesis using ss s by (simp add: levels_of_set_levels)
  next
    case False
    have "side_rep (storage p3) s' (levels_of s' b) (R s')"
      by (rule side_rep_cong [OF far len book_rep_side [OF rep that]])
         (rule other_side_disjoint [OF s that False book_rep_distinct [OF rep]])
    then show ?thesis using False that s by (simp add: levels_of_set_levels)
  qed
  have dis: "distinct (own (R(s := ss)))"
    using s book_rep_distinct [OF rep] d by (intro own_upd_distinct) (auto simp: ss(2) distinct_remove1 dest: notin_set_remove1)
  have live: "live_slots p3 (x # fl) = live_slots ?p fl - {x}" using len by (auto simp: live_slots_def)
  have idx: "i \<in> live_slots p3 (x # fl) \<and> order_id (storage p3 ! unat i) = k" if "map_abs ix k = Some i" for k i
  proof -
    have m: "map_abs (ob_index b) k = Some i" and k: "k \<noteq> order_id ?o" using that by (auto simp: ix(3) split: if_splits)
    have "i \<in> set (own R) \<union> F" "order_id (?st ! unat i) = k" using book_rep_index [OF rep m] book_rep_index_id [OF rep m] .
    then show ?thesis using k live book_rep_live [OF rep] order_id_core [OF co [of i]] by auto
  qed
  have "book_rep ?b' (R(s := ss)) F (x # fl)"
    unfolding book_rep_def using p3(2) ix(2) sides dis own' live idx xo book_rep_disj [OF rep] book_rep_live [OF rep]
    by auto
  moreover have "storage p3 ! unat y = ?st ! unat y" if "y \<in> F" for y
    using that book_rep_disj [OF rep] own_side [OF s, of R] by (intro far) auto
  ultimately show ?thesis using rm ss(2) len co ix
    by (intro exI [of _ ?b'] exI [of _ ss]) simp
qed

section \<open>Changing an order in place\<close>

lemma book_rep_change:
  assumes rep: "book_rep b R F fl" and s: "s \<noteq> INVALID" and x: "x \<in> set (concat (R s))"
    and l: "om_find (price (ob_storage b ! unat x)) (levels_of s b) = Some l"
    and o': "core o' = (core (ob_storage b ! unat x))\<lparr>remaining_qty := remaining_qty o', filled_qty := filled_qty o'\<rparr>"
      "next_idx o' = next_idx (ob_storage b ! unat x)" "prev_idx o' = prev_idx (ob_storage b ! unat x)"
      "pool_next_free o' = pool_next_free (ob_storage b ! unat x)"
    and q: "q = total_qty l - remaining_qty (ob_storage b ! unat x) + remaining_qty o'"
  shows "book_rep (set_levels s (om_put (level_lt s) (price (ob_storage b ! unat x)) (l\<lparr>total_qty := q\<rparr>) (levels_of s b))
            (b\<lparr>ob_pool := (ob_pool b)\<lparr>storage := (ob_storage b)[unat x := o']\<rparr>\<rparr>)) R F fl"
proof -
  let ?st = "ob_storage b" and ?p = "(ob_pool b)\<lparr>storage := (ob_storage b)[unat x := o']\<rparr>"
  let ?b' = "set_levels s (om_put (level_lt s) (price (?st ! unat x)) (l\<lparr>total_qty := q\<rparr>) (levels_of s b)) (b\<lparr>ob_pool := ?p\<rparr>)"
  have xo: "x \<in> set (own R)" using own_side [OF s] x by blast
  have xb: "unat x < length ?st" "x \<notin> set fl" using own_bound [OF rep, of x] xo by auto
  have f: "price o' = price (?st ! unat x)" "side_of o' = side_of (?st ! unat x)" "order_id o' = order_id (?st ! unat x)"
    using arg_cong [OF o'(1), of price] arg_cong [OF o'(1), of side_of] arg_cong [OF o'(1), of order_id] by simp_all
  have sides: "side_rep (storage ?p) s' (levels_of s' ?b') (R s')" if "s' \<noteq> INVALID" for s'
  proof (cases "s' = s")
    case True
    then show ?thesis using side_rep_change [OF book_rep_side [OF rep s] x own_sub_distinct [OF s book_rep_distinct [OF rep]] l o'(2,3) f(1,2) q] s
      by (simp add: levels_of_set_levels)
  next
    case False
    have "side_rep (storage ?p) s' (levels_of s' b) (R s')"
    proof (rule side_rep_cong [OF _ _ book_rep_side [OF rep that]])
      fix y assume "y \<in> set (concat (R s'))"
      then have "y \<noteq> x" using other_side_disjoint [OF s that False book_rep_distinct [OF rep], of y] x by blast
      then show "storage ?p ! unat y = ?st ! unat y" using xb by simp
    qed simp
    then show ?thesis using False that s by (simp add: levels_of_set_levels)
  qed
  have pi: "pool_inv ?p fl" using pool_inv_update [OF book_rep_pool [OF rep] xb(2)] by simp
  have live: "live_slots ?p fl = live_slots (ob_pool b) fl" by (simp add: live_slots_def)
  have idx: "order_id (storage ?p ! unat i) = order_id (?st ! unat i)" for i :: u32 using xb f(3) by simp
  show ?thesis using rep pi live idx sides unfolding book_rep_def by simp
qed

lemma reduceOrderQty_ok:
  assumes rep: "book_rep b R F fl" and s: "s \<noteq> INVALID" and x: "x \<in> set (concat (R s))"
  shows "\<exists>b'. reduceOrderQty x amount b = Some b' \<and> book_rep b' R F fl \<and> ob_index b' = ob_index b \<and>
     ob_storage b' = (ob_storage b)[unat x := (ob_storage b ! unat x)\<lparr>remaining_qty := remaining_qty (ob_storage b ! unat x) - amount,
        filled_qty := filled_qty (ob_storage b ! unat x) + amount\<rparr>]"
proof -
  let ?o = "ob_storage b ! unat x"
  have xb: "unat x < length (ob_storage b)" using own_bound [OF rep, of x] own_side [OF s] x by auto
  have so: "side_of ?o = s" using side_rep_bound [OF book_rep_side [OF rep s] x] by simp
  obtain l where l: "om_find (price ?o) (levels_of s b) = Some l" using side_rep_slot [OF book_rep_side [OF rep s] x] by metis
  note ch = book_rep_change [OF rep s x l, of "?o\<lparr>remaining_qty := remaining_qty ?o - amount, filled_qty := filled_qty ?o + amount\<rparr>" "total_qty l - amount"]
  show ?thesis using ch xb so l
    by (simp add: reduceOrderQty_def pool_upd_def pool_at_def arr_upd_Some arr_get_Some om_index_def)
qed

lemma reduceQtyCancel_ok:
  assumes rep: "book_rep b R F fl" and s: "s \<noteq> INVALID" and x: "x \<in> set (concat (R s))"
  shows "\<exists>b'. reduceQtyCancel x amount b = Some b' \<and> book_rep b' R F fl \<and> ob_index b' = ob_index b \<and>
     ob_storage b' = (ob_storage b)[unat x := (ob_storage b ! unat x)\<lparr>remaining_qty := remaining_qty (ob_storage b ! unat x) - amount\<rparr>]"
proof -
  let ?o = "ob_storage b ! unat x"
  have xb: "unat x < length (ob_storage b)" using own_bound [OF rep, of x] own_side [OF s] x by auto
  have so: "side_of ?o = s" using side_rep_bound [OF book_rep_side [OF rep s] x] by simp
  obtain l where l: "om_find (price ?o) (levels_of s b) = Some l" using side_rep_slot [OF book_rep_side [OF rep s] x] by metis
  note ch = book_rep_change [OF rep s x l, of "?o\<lparr>remaining_qty := remaining_qty ?o - amount\<rparr>" "total_qty l - amount"]
  show ?thesis using ch xb so l
    by (simp add: reduceQtyCancel_def pool_upd_def pool_at_def arr_upd_Some arr_get_Some om_index_def)
qed

text \<open>A status write touches nothing the representation looks at.\<close>

lemma book_rep_status:
  assumes rep: "book_rep b R F fl" and x: "x \<in> set (own R)"
  shows "book_rep (b\<lparr>ob_pool := (ob_pool b)\<lparr>storage := (ob_storage b)[unat x := (ob_storage b ! unat x)\<lparr>status := v\<rparr>]\<rparr>\<rparr>) R F fl"
proof -
  let ?st = "(ob_storage b)[unat x := (ob_storage b ! unat x)\<lparr>status := v\<rparr>]"
  have xb: "unat x < length (ob_storage b)" "x \<notin> set fl" using own_bound [OF rep, of x] x by auto
  have "side_rep ?st s (levels_of s b) (R s)" if "s \<noteq> INVALID" for s
    by (rule side_rep_fields [OF book_rep_side [OF rep that]]) (use xb in auto)
  moreover have "pool_inv ((ob_pool b)\<lparr>storage := ?st\<rparr>) fl" using pool_inv_update [OF book_rep_pool [OF rep] xb(2)] by simp
  moreover have "order_id (?st ! unat i) = order_id (ob_storage b ! unat i)" for i :: u32 using xb by simp
  ultimately show ?thesis using rep unfolding book_rep_def by (simp add: live_slots_def)
qed

end
