(* ===== verification/Order_Book_Spec.thy ===== *)
theory Order_Book_Spec
  imports Order_Book_Correct
begin

text \<open>
  What an order book promises: each side is one queue of orders in price-time priority.  The
  executable abstraction \<open>queue_of\<close> reads that queue out of the linked levels, and every operation of
  the book is a simple operation on the two queues.
\<close>

section \<open>The abstraction\<close>

definition level_orders :: "order list \<Rightarrow> u32 \<times> price_level \<Rightarrow> order list" where
  "level_orders st e = map (\<lambda>i. core (st ! unat i)) (chain (fld next_idx st) (length st) (head_idx (snd e)))"

definition queue_of :: "side \<Rightarrow> order_book \<Rightarrow> order list" where
  "queue_of s b = concat (map (level_orders (ob_storage b)) (levels_of s b))"

fun opp :: "side \<Rightarrow> side" where
  "opp BUY = SELL"
| "opp SELL = BUY"
| "opp INVALID = INVALID"

text \<open>An incoming order of side \<open>s\<close> and limit \<open>pr\<close> accepts the price \<open>p\<close> of a resting order.\<close>

definition acceptable :: "side \<Rightarrow> u32 \<Rightarrow> u32 \<Rightarrow> bool" where
  "acceptable s pr p \<longleftrightarrow> (if s = BUY then p \<le> pr else p \<ge> pr)"

definition enqueue :: "side \<Rightarrow> order \<Rightarrow> order list \<Rightarrow> order list" where
  "enqueue s o' q =
     takeWhile (\<lambda>r. \<not> level_lt s (price o') (price r)) q @ o' #
     dropWhile (\<lambda>r. \<not> level_lt s (price o') (price r)) q"

lemma level_orders_rep:
  assumes "level_rep st s e ss"
  shows "level_orders st e = map (\<lambda>i. core (st ! unat i)) ss"
proof -
  have "list_at (fld next_idx st) (head_idx (snd e)) ss" using level_rep_dll [OF assms] by (simp only: dll_def)
  then show ?thesis using level_rep_length [OF assms] by (simp add: level_orders_def chain_list_at)
qed

lemma levels_orders_rep:
  assumes "list_all2 (level_rep st s) ls sss"
  shows "concat (map (level_orders st) ls) = map (\<lambda>i. core (st ! unat i)) (concat sss)"
  using assms by (induction rule: list_all2_induct) (simp_all add: level_orders_rep)

lemma queue_of_rep:
  assumes "book_rep b R F fl" and "s \<noteq> INVALID"
  shows "queue_of s b = map (\<lambda>i. core (ob_storage b ! unat i)) (concat (R s))"
  unfolding queue_of_def by (rule levels_orders_rep [of _ s]) (use book_rep_side [OF assms] in \<open>simp add: side_rep_def\<close>)

lemma enqueue_inserted:
  assumes "inserted s pr (price o') x xs ys" and "f x = o'" and "\<And>y. y \<in> set xs \<Longrightarrow> pr y = price (f y)"
  shows "map f ys = enqueue s o' (map f xs)"
proof -
  obtain as bs where xs: "xs = as @ bs" "ys = as @ x # bs"
    and a: "\<forall>y\<in>set as. \<not> level_lt s (price o') (price (f y))" and b: "\<forall>y\<in>set bs. level_lt s (price o') (price (f y))"
    using assms(1,3) by (auto simp: inserted_def)
  have tb: "takeWhile (\<lambda>r. \<not> level_lt s (price o') (price r)) (map f bs) = []"
    "dropWhile (\<lambda>r. \<not> level_lt s (price o') (price r)) (map f bs) = map f bs"
    using b by (cases bs; simp)+
  have ta: "\<And>r. r \<in> set (map f as) \<Longrightarrow> \<not> level_lt s (price o') (price r)" using a by auto
  let ?P = "\<lambda>r. \<not> level_lt s (price o') (price r)"
  have "takeWhile ?P (map f as @ map f bs) = map f as @ takeWhile ?P (map f bs)"
    "dropWhile ?P (map f as @ map f bs) = dropWhile ?P (map f bs)"
    using ta by (rule takeWhile_append2 dropWhile_append2; blast)+
  then show ?thesis using assms(2) by (simp add: enqueue_def xs tb)
qed

section \<open>Queries\<close>

lemma scan_level_path:
  assumes "list_at (fld next_idx st) h ss" and "\<forall>x\<in>set ss. unat x < length st" and "length ss < f"
  shows "scan_level f st u h = Some (find (\<lambda>i. user_id (st ! unat i) \<noteq> u) ss)"
  using assms
proof (induction ss arbitrary: h f)
  case Nil
  then show ?case by (cases f) (auto simp: list_at_Nil_iff)
next
  case (Cons x ss)
  obtain g where f: "f = Suc g" using Cons.prems(3) by (cases f) auto
  have h: "h = x" "x \<noteq> UINT32_MAX" "list_at (fld next_idx st) (fld next_idx st x) ss"
    using Cons.prems(1) by auto
  then show ?case using Cons.IH [OF h(3), of g] Cons.prems(2,3) by (simp add: f arr_get_Some fld_def)
qed

lemma find_append: "find P (xs @ ys) = (case find P xs of None \<Rightarrow> find P ys | Some x \<Rightarrow> Some x)"
  by (induction xs) auto

lemma scan_levels_rep:
  assumes "list_all2 (level_rep st s) ls sss"
  shows "scan_levels st u ls = Some (find (\<lambda>i. user_id (st ! unat i) \<noteq> u) (concat sss))"
  using assms
proof (induction rule: list_all2_induct)
  case (Cons e ls ss sss)
  obtain p l where e: "e = (p, l)" by (cases e)
  have "list_at (fld next_idx st) (head_idx l) ss" using level_rep_dll [OF Cons.hyps(1)] by (simp add: dll_def e)
  then have "scan_level (Suc (length st)) st u (head_idx l) = Some (find (\<lambda>i. user_id (st ! unat i) \<noteq> u) ss)"
    using level_rep_bound [OF Cons.hyps(1)] level_rep_length [OF Cons.hyps(1)] by (intro scan_level_path) auto
  then show ?case using Cons.IH by (auto simp: e find_append split: option.splits)
qed simp

text \<open>The order the matching loop takes: the first of the queue that is not the taker's own.\<close>

definition eligible :: "u64 \<Rightarrow> order \<Rightarrow> bool" where
  "eligible u r \<longleftrightarrow> u = 0 \<or> user_id r \<noteq> u"

lemma best_in_rep:
  assumes rep: "book_rep b R F fl" and s: "s \<noteq> INVALID"
  shows "best_in u (ob_pool b) (levels_of s b) = Some (find (\<lambda>i. eligible u (ob_storage b ! unat i)) (concat (R s)))"
proof -
  have la: "list_all2 (level_rep (ob_storage b) s) (levels_of s b) (R s)"
    using book_rep_side [OF rep s] by (simp add: side_rep_def)
  show ?thesis
  proof (cases "levels_of s b")
    case Nil
    then show ?thesis using la by (simp add: best_in_def)
  next
    case (Cons e ls)
    obtain p l where e: "e = (p, l)" by (cases e)
    obtain ss sss where R: "R s = ss # sss" and lv: "level_rep (ob_storage b) s (p, l) ss"
      using la by (auto simp: Cons e list_all2_Cons1)
    have h: "head_idx l = hd ss" "ss \<noteq> []" "unat (hd ss) < length (ob_storage b)"
      using level_head_tail [OF lv] level_rep_nonempty [OF lv] level_rep_bound [OF lv, of "hd ss"] by auto
    have "level_count l \<noteq> 0" using level_count_pos(2) [OF lv book_rep_cap [OF rep]] by simp
    moreover have "find (\<lambda>i. eligible 0 (ob_storage b ! unat i)) (concat (R s)) = Some (hd ss)"
      using h(2) by (cases ss) (simp_all add: R eligible_def)
    ultimately show ?thesis using scan_levels_rep [OF la, of u] h
      by (simp add: best_in_def Cons e pool_at_def arr_get_Some word_gt_0 eligible_def)
  qed
qed

lemma walk_level_path:
  assumes "list_at (fld next_idx st) h ss" and "\<forall>x\<in>set ss. unat x < length st" and "length ss < f"
  shows "walk_level f st g h a = Some (fold (\<lambda>i. g (st ! unat i)) ss a)"
  using assms
proof (induction ss arbitrary: h f a)
  case Nil
  then show ?case by (cases f) (auto simp: list_at_Nil_iff)
next
  case (Cons x ss)
  obtain k where f: "f = Suc k" using Cons.prems(3) by (cases f) auto
  have h: "h = x" "x \<noteq> UINT32_MAX" "list_at (fld next_idx st) (fld next_idx st x) ss"
    using Cons.prems(1) by auto
  then show ?case using Cons.IH [OF h(3), of k] Cons.prems(2,3) by (simp add: f arr_get_Some fld_def)
qed

lemma walk_level_rep:
  assumes "level_rep st s (p, l) ss"
  shows "walk_level (Suc (length st)) st g (head_idx l) a = Some (fold (\<lambda>i. g (st ! unat i)) ss a)"
proof (rule walk_level_path)
  show "list_at (fld next_idx st) (head_idx l) ss" using level_rep_dll [OF assms] by (simp add: dll_def)
qed (use level_rep_bound [OF assms] level_rep_length [OF assms] in auto)

lemma level_orders_price:
  assumes "level_rep st s (p, l) ss" and "r \<in> set (level_orders st (p, l))"
  shows "price r = p"
  using assms level_rep_price [OF assms(1)] by (auto simp: level_orders_rep)

lemma fold_add_sum:
  fixes f :: "'a \<Rightarrow> 'b::comm_monoid_add"
  shows "fold (\<lambda>i t. t + f i) xs t = t + sum_list (map f xs)"
  by (induction xs arbitrary: t) (simp_all add: add.assoc)

lemma takeWhile_stop: "xs \<noteq> [] \<Longrightarrow> \<forall>x\<in>set xs. \<not> P x \<Longrightarrow> takeWhile P (xs @ ys) = []"
  by (cases xs) auto

lemma avail_levels_rep:
  assumes "list_all2 (level_rep st s) ls sss"
  shows "avail_levels outside st ls t =
    Some (t + sum_list (map remaining_qty (takeWhile (\<lambda>r. \<not> outside (price r)) (concat (map (level_orders st) ls)))))"
  using assms
proof (induction arbitrary: t rule: list_all2_induct)
  case (Cons e ls ss sss)
  obtain p l where e: "e = (p, l)" by (cases e)
  note lv = Cons.hyps(1) [unfolded e]
  let ?os = "level_orders st (p, l)" and ?P = "\<lambda>r. \<not> outside (price r)"
  have ne: "?os \<noteq> []" using level_rep_nonempty [OF lv] by (simp add: level_orders_rep [OF lv])
  have pr: "\<forall>r\<in>set ?os. price r = p" using level_orders_price [OF lv] by blast
  show ?case
  proof (cases "outside p")
    case True
    then have "takeWhile ?P (?os @ concat (map (level_orders st) ls)) = []"
      using ne pr by (intro takeWhile_stop) auto
    then show ?thesis using True by (simp add: e)
  next
    case False
    then have "takeWhile ?P (?os @ concat (map (level_orders st) ls)) = ?os @ takeWhile ?P (concat (map (level_orders st) ls))"
      using pr by (intro takeWhile_append2) auto
    moreover have "map remaining_qty ?os = map (\<lambda>i. remaining_qty (st ! unat i)) ss"
      by (simp add: level_orders_rep [OF lv])
    ultimately show ?thesis using False Cons.IH
      by (simp add: e walk_level_rep [OF lv] fold_add_sum add.assoc del: walk_level.simps)
  qed
qed simp

lemma availableQty_rep:
  assumes rep: "book_rep b R F fl" and s: "s \<noteq> INVALID"
  shows "availableQty s pr b =
    Some (sum_list (map remaining_qty (takeWhile (\<lambda>r. acceptable s pr (price r)) (queue_of (opp s) b))))"
proof -
  have la: "list_all2 (level_rep (ob_storage b) t) (levels_of t b) (R t)" if "t \<noteq> INVALID" for t
    using book_rep_side [OF rep that] by (simp add: side_rep_def)
  show ?thesis
    using s avail_levels_rep [OF la [of BUY]] avail_levels_rep [OF la [of SELL]]
    by (cases s) (simp_all add: availableQty_def queue_of_def acceptable_def levels_of_def not_less)
qed

lemma top_level_rep:
  assumes "side_rep st s ls sss"
  shows "(case ls of [] \<Rightarrow> 0 | (p, l) # _ \<Rightarrow> p) =
      (case concat (map (level_orders st) ls) of [] \<Rightarrow> 0 | r # _ \<Rightarrow> price r)" (is ?price)
    and "(case ls of [] \<Rightarrow> 0 | (p, l) # _ \<Rightarrow> total_qty l) =
      sum_list (map remaining_qty (filter (\<lambda>r. price r = price (hd (concat (map (level_orders st) ls))))
        (concat (map (level_orders st) ls))))" (is ?qty)
proof -
  have so: "om_sorted (level_lt s) ls" and la: "list_all2 (level_rep st s) ls sss"
    using assms by (simp_all add: side_rep_def)
  have "?price \<and> ?qty"
  proof (cases ls)
    case (Cons e ls')
    obtain p l where e: "e = (p, l)" by (cases e)
    obtain ss sss' where lv: "level_rep st s (p, l) ss" and la': "list_all2 (level_rep st s) ls' sss'"
      using la by (auto simp: Cons e list_all2_Cons1)
    let ?os = "level_orders st (p, l)" and ?rest = "concat (map (level_orders st) ls')"
    have ne: "?os \<noteq> []" using level_rep_nonempty [OF lv] by (simp add: level_orders_rep [OF lv])
    have pr: "\<forall>r\<in>set ?os. price r = p" using level_orders_price [OF lv] by blast
    have "price r \<noteq> p" if r: "r \<in> set ?rest" for r
    proof -
      obtain x where "x \<in> set (concat sss')" "r = core (st ! unat x)"
        using r unfolding levels_orders_rep [OF la'] set_map by blast
      then have "price r \<in> fst ` set ls'" using side_rep_prices [OF la'] by simp
      then show ?thesis using so level_order.irrefl by (fastforce simp: Cons e)
    qed
    then have fe: "filter (\<lambda>r. price r = p) ?rest = []" by (auto simp: filter_empty_conv)
    have fa: "filter (\<lambda>r. price r = p) ?os = ?os" using pr by simp
    have "total_qty l = sum_list (map remaining_qty ?os)"
    proof -
      have "total_qty l = sum_list (map (fld remaining_qty st) ss)" using lv by (simp only: level_rep_def snd_conv)
      then show ?thesis by (simp add: level_orders_rep [OF lv] comp_def fld_def [abs_def])
    qed
    moreover obtain r os where "?os = r # os" using ne by (cases ?os) auto
    ultimately show ?thesis using pr fe fa by (simp add: Cons e)
  qed simp
  then show ?price ?qty by blast+
qed

text \<open>The best price of a side and the total quantity at it.\<close>

definition best_price :: "order list \<Rightarrow> u32" where
  "best_price q = (case q of [] \<Rightarrow> 0 | r # _ \<Rightarrow> price r)"

definition best_volume :: "order list \<Rightarrow> u32" where
  "best_volume q = sum_list (map remaining_qty (filter (\<lambda>r. price r = best_price q) q))"

lemma getTopOfBook_rep:
  assumes rep: "book_rep b R F fl"
  shows "getTopOfBook b = \<lparr>bid_price = best_price (queue_of BUY b), bid_volume = best_volume (queue_of BUY b),
    ask_price = best_price (queue_of SELL b), ask_volume = best_volume (queue_of SELL b)\<rparr>"
proof -
  have vol: "best_volume q = sum_list (map remaining_qty (filter (\<lambda>r. price r = price (hd q)) q))" for q
    by (cases q) (simp_all add: best_volume_def best_price_def)
  note top = top_level_rep [OF book_rep_side [OF rep]]
  show ?thesis using top(1) [of BUY] top(2) [of BUY] top(1) [of SELL] top(2) [of SELL]
    by (simp add: getTopOfBook_def vol best_price_def queue_of_def levels_of_def)
qed

section \<open>Operations on the queues\<close>

lemma queue_of_other:
  assumes rep: "book_rep b R F fl" and rep': "book_rep b' R' F' fl'" and s: "s \<noteq> INVALID" and R: "R' s = R s"
    and c: "\<And>y. y \<in> set (concat (R s)) \<Longrightarrow> core (ob_storage b' ! unat y) = core (ob_storage b ! unat y)"
  shows "queue_of s b' = queue_of s b"
  using c by (simp add: queue_of_rep [OF rep s] queue_of_rep [OF rep' s] R)

end
