(* ===== verification/Matching_Spec.thy ===== *)
theory Matching_Spec
  imports Matching_Engine Order_Book_Spec
begin

text \<open>
  The matching rule as a function on priority queues, and the proof that the two loops of
  \<^verbatim>\<open>src/matching_engine.cpp\<close> compute it on the linked book.
\<close>

section \<open>Price-time priority matching\<close>

definition fill :: "u32 \<Rightarrow> order \<Rightarrow> order" where
  "fill q o' = o'\<lparr>remaining_qty := remaining_qty o' - q, filled_qty := filled_qty o' + q,
     status := (if remaining_qty o' - q = 0 then FILLED else PARTIALLY_FILLED)\<rparr>"

text \<open>
  The incoming order \<open>o'\<close> of side \<open>s\<close> walks the queue of the other side: it skips orders of its own
  user, stops at the first price it does not accept, and otherwise trades at the price of the
  resting order for the smaller of the two quantities.
\<close>

fun match_queue :: "side \<Rightarrow> order \<Rightarrow> order list \<Rightarrow> order \<times> order list \<times> (order \<times> u32) list" where
  "match_queue s o' [] = (o', [], [])"
| "match_queue s o' (r # rs) =
     (if remaining_qty o' = 0 then (o', r # rs, [])
      else if \<not> eligible (user_id o') r then
        (case match_queue s o' rs of (o1, rs1, ts) \<Rightarrow> (o1, r # rs1, ts))
      else if \<not> acceptable s (price o') (price r) then (o', r # rs, [])
      else let q = min (remaining_qty o') (remaining_qty r) in
        if remaining_qty r = q
        then (case match_queue s (fill q o') rs of (o1, rs1, ts) \<Rightarrow> (o1, rs1, (r, q) # ts))
        else (fill q o', fill q r # rs, [(r, q)]))"

definition side_byte :: "side \<Rightarrow> u8" where
  "side_byte s = (if s = BUY then SIDE_BUY else SIDE_SELL)"

definition trade_rsp :: "u64 \<Rightarrow> side \<Rightarrow> order \<times> u32 \<Rightarrow> response" where
  "trade_rsp locate s t = (case t of (r, q) \<Rightarrow> RSP_TRADE locate (order_id r) (side_byte (opp s)) (price r) q)"

definition record_trade :: "side \<Rightarrow> order \<Rightarrow> order \<times> u32 \<Rightarrow> 'a recorder_scheme \<Rightarrow> 'a recorder_scheme" where
  "record_trade s o' t e = (case t of (r, q) \<Rightarrow>
     (if s = BUY then record_buy_trade o' r q else record_sell_trade o' r q)
       (bump (\<lambda>m. m\<lparr>trades := trades m + 1\<rparr>) e))"

section \<open>What an operation keeps\<close>

text \<open>Orders of other books are untouched and the index loses entries but gains none.\<close>

definition book_frame :: "u32 set \<Rightarrow> order_book \<Rightarrow> order_book \<Rightarrow> bool" where
  "book_frame F b b' \<longleftrightarrow> length (ob_storage b') = length (ob_storage b) \<and>
     (\<forall>y\<in>F. ob_storage b' ! unat y = ob_storage b ! unat y) \<and>
     map_abs (ob_index b') \<subseteq>\<^sub>m map_abs (ob_index b) \<and>
     (\<forall>k. map_room (ob_index b) k \<longrightarrow> map_room (ob_index b') k)"

lemma book_frame_refl [simp]: "book_frame F b b"
  by (simp add: book_frame_def)

lemma book_frame_trans: "book_frame F b b' \<Longrightarrow> book_frame F b' b'' \<Longrightarrow> book_frame F b b''"
  unfolding book_frame_def by (auto intro: map_le_trans)

lemma book_frame_none: "book_frame F b b' \<Longrightarrow> map_abs (ob_index b) k = None \<Longrightarrow> map_abs (ob_index b') k = None"
  unfolding book_frame_def map_le_def by (metis domIff)

lemma removeOrder_ptr_frame:
  assumes "book_rep b R F fl" and "map_erase k (ob_index b) = Some (ob_index b')"
    and "length (ob_storage b') = length (ob_storage b)"
    and "\<forall>y\<in>F. ob_storage b' ! unat y = ob_storage b ! unat y"
    and "map_abs (ob_index b') = (map_abs (ob_index b))(k := None)"
  shows "book_frame F b b'"
  using assms order_index.erase_room [OF book_rep_map [OF assms(1)] assms(2)]
  unfolding book_frame_def by (auto simp: map_le_def)

lemma indexed_remove:
  assumes rep: "book_rep b R F fl" and ix: "indexed b S" and x: "x \<in> S"
    and c: "\<And>y :: u32. core (ob_storage b' ! unat y) = core (ob_storage b ! unat y)"
    and m: "map_abs (ob_index b') = (map_abs (ob_index b))(order_id (ob_storage b ! unat x) := None)"
  shows "indexed b' (S - {x})"
  unfolding indexed_def
proof
  fix i assume i: "i \<in> S - {x}"
  have "order_id (ob_storage b ! unat i) \<noteq> order_id (ob_storage b ! unat x)"
    using ix i x unfolding indexed_def by (metis DiffE option.inject singletonI)
  then show "map_abs (ob_index b') (order_id (ob_storage b' ! unat i)) = Some i"
    using ix i order_id_core [OF c [of i]] by (simp add: m indexed_def)
qed

section \<open>One iteration\<close>

definition settled :: "order_book \<Rightarrow> order_book \<Rightarrow> side \<Rightarrow> u32 \<Rightarrow> u32 set \<Rightarrow> (side \<Rightarrow> u32 list list) \<Rightarrow>
    (side \<Rightarrow> u32 list list) \<Rightarrow> u32 list \<Rightarrow> bool" where
  "settled b b' t x F R R' fl' \<longleftrightarrow> book_rep b' R' F fl' \<and> book_frame F b b' \<and>
     (\<forall>s. s \<noteq> t \<longrightarrow> R' s = R s) \<and> (indexed b (set (own R) \<union> F) \<longrightarrow> indexed b' (set (own R') \<union> F))"

lemma settle_resting_zero:
  assumes rep: "book_rep b R F fl" and t: "t \<noteq> INVALID" and x: "x \<in> set (concat (R t))"
    and z: "remaining_qty (ob_storage b ! unat x) = 0"
  shows "\<exists>b' ss. settle_resting x b = Some b' \<and> settled b b' t x F R (R(t := ss)) (x # fl) \<and>
     concat ss = remove1 x (concat (R t)) \<and>
     (\<forall>y. core (ob_storage b' ! unat y) =
        (if y = x then (core (ob_storage b ! unat x))\<lparr>status := FILLED\<rparr> else core (ob_storage b ! unat y)))"
proof -
  let ?st = "ob_storage b"
  define b1 where "b1 = b\<lparr>ob_pool := (ob_pool b)\<lparr>storage := ?st[unat x := (?st ! unat x)\<lparr>status := FILLED\<rparr>]\<rparr>\<rparr>"
  have xo: "x \<in> set (own R)" using own_side [OF t] x by blast
  have xb: "unat x < length ?st" using own_bound [OF rep, of x] xo by auto
  have rep1: "book_rep b1 R F fl" unfolding b1_def by (rule book_rep_status [OF rep xo])
  have st1: "ob_storage b1 = ?st[unat x := (?st ! unat x)\<lparr>status := FILLED\<rparr>]" and ix1: "ob_index b1 = ob_index b"
    by (simp_all add: b1_def)
  obtain b' ss where rm: "removeOrder_ptr x b1 = Some b'" "book_rep b' (R(t := ss)) F (x # fl)"
    "concat ss = remove1 x (concat (R t))" "length (ob_storage b') = length (ob_storage b1)"
    and co: "\<And>y :: u32. core (ob_storage b' ! unat y) = core (ob_storage b1 ! unat y)"
    and F: "\<forall>y\<in>F. ob_storage b' ! unat y = ob_storage b1 ! unat y"
    and m: "map_abs (ob_index b') = (map_abs (ob_index b1))(order_id (ob_storage b1 ! unat x) := None)"
      "map_erase (order_id (ob_storage b1 ! unat x)) (ob_index b1) = Some (ob_index b')"
    using removeOrder_ptr_ok [OF rep1 t x] by blast
  have sr: "settle_resting x b = Some b'"
    using z xb rm(1) by (simp add: settle_resting_def pool_at_def pool_upd_def arr_get_Some arr_upd_Some b1_def)
  have xF: "x \<notin> F" using book_rep_disj [OF rep] xo by blast
  have f1: "book_frame F b b1" using xF xb by (auto simp: book_frame_def st1 ix1)
  have own': "set (own (R(t := ss))) = set (own R) - {x}"
    using own_upd [OF book_rep_distinct [OF rep] t, of ss] own_sub_distinct [OF t book_rep_distinct [OF rep]]
      own_side [OF t, of R] x by (auto simp: rm(3))
  have idx: "indexed b' (set (own (R(t := ss))) \<union> F)" if "indexed b (set (own R) \<union> F)"
  proof -
    have "indexed b1 (set (own R) \<union> F)" using that xb by (simp add: indexed_def st1 ix1)
    from indexed_remove [OF rep1 this _ co m(1)] xo have "indexed b' (set (own R) \<union> F - {x})" by simp
    then show ?thesis using xF by (simp add: own' Un_Diff)
  qed
  have "settled b b' t x F R (R(t := ss)) (x # fl)"
    unfolding settled_def using rm(2) book_frame_trans [OF f1 removeOrder_ptr_frame [OF rep1 m(2) rm(4) F m(1)]] idx by simp
  then show ?thesis using sr rm(3) co xb by (intro exI [of _ b'] exI [of _ ss]) (simp add: st1)
qed

lemma settle_resting_more:
  assumes rep: "book_rep b R F fl" and t: "t \<noteq> INVALID" and x: "x \<in> set (concat (R t))"
    and z: "remaining_qty (ob_storage b ! unat x) \<noteq> 0"
  shows "\<exists>b'. settle_resting x b = Some b' \<and> settled b b' t x F R R fl \<and>
     (\<forall>y. core (ob_storage b' ! unat y) =
        (if y = x then (core (ob_storage b ! unat x))\<lparr>status := PARTIALLY_FILLED\<rparr> else core (ob_storage b ! unat y)))"
proof -
  let ?st = "ob_storage b"
  let ?b1 = "b\<lparr>ob_pool := (ob_pool b)\<lparr>storage := ?st[unat x := (?st ! unat x)\<lparr>status := PARTIALLY_FILLED\<rparr>]\<rparr>\<rparr>"
  have xo: "x \<in> set (own R)" using own_side [OF t] x by blast
  have xb: "unat x < length ?st" "x \<notin> F" using own_bound [OF rep, of x] xo book_rep_disj [OF rep] by auto
  have rep1: "book_rep ?b1 R F fl" by (rule book_rep_status [OF rep xo])
  have "book_frame F b ?b1" using xb by (auto simp: book_frame_def)
  moreover have "indexed ?b1 S" if "indexed b S" for S using that xb by (simp add: indexed_def)
  ultimately show ?thesis using rep1 z xb
    by (intro exI [of _ ?b1])
       (simp add: settled_def settle_resting_def pool_at_def pool_upd_def arr_get_Some arr_upd_Some)
qed

definition side_fill :: "side \<Rightarrow> u64 \<Rightarrow> order_ptr \<Rightarrow> order_book \<Rightarrow> order \<Rightarrow> response list \<Rightarrow> 'a recorder_scheme \<Rightarrow>
    (order_book \<times> order \<times> response list \<times> 'a recorder_scheme) option" where
  "side_fill s = (if s = BUY then buy_fill else sell_fill)"

lemma core_fill [simp]: "core (fill q o') = fill q (core o')"
  by (simp add: fill_def)

lemma fill_fields [simp]:
  "user_id (fill q o') = user_id o'" "order_id (fill q o') = order_id o'" "price (fill q o') = price o'"
  "side_of (fill q o') = side_of o'" "remaining_qty (fill q o') = remaining_qty o' - q"
  "filled_qty (fill q o') = filled_qty o' + q" "sequence (fill q o') = sequence o'"
  "original_qty (fill q o') = original_qty o'"
  "status (fill q o') = (if remaining_qty o' = q then FILLED else PARTIALLY_FILLED)"
  by (simp_all add: fill_def)

lemma record_trade_cong:
  assumes "order_id o1 = order_id o2" "user_id o1 = user_id o2"
    "order_id r1 = order_id r2" "user_id r1 = user_id r2" "price r1 = price r2"
  shows "record_trade s o1 (r1, q) = record_trade s o2 (r2, q)"
  unfolding record_trade_def record_buy_trade_def record_sell_trade_def prod.case assms by (rule refl)

lemma side_fill_unfold:
  assumes "unat x < length (ob_storage b)" and "s \<noteq> INVALID"
    and q: "q = min (remaining_qty ord) (remaining_qty (ob_storage b ! unat x))"
    and b1: "reduceOrderQty x q b = Some b1" and xb: "unat x < length (ob_storage b1)"
    and r: "order_id (ob_storage b1 ! unat x) = order_id r" "price (ob_storage b1 ! unat x) = price r"
      "user_id (ob_storage b1 ! unat x) = user_id r"
    and b2: "settle_resting x b1 = Some b2"
  shows "side_fill s locate x b ord out e = Some (b2, fill q ord, out @ [trade_rsp locate s (r, q)], record_trade s ord (r, q) e)"
proof -
  have rc: "record_trade s (ord\<lparr>remaining_qty := remaining_qty ord - q, filled_qty := filled_qty ord + q\<rparr>) (ob_storage b1 ! unat x, q) e =
      record_trade s ord (r, q) e" for s
    using r by (intro fun_cong [OF record_trade_cong]) simp_all
  show ?thesis using assms rc [of BUY] rc [of SELL]
    by (cases s) (simp_all add: side_fill_def buy_fill_def sell_fill_def pool_at_def arr_get_Some Let_def fill_def
        trade_rsp_def side_byte_def record_trade_def flip: q)
qed

lemma settled_trans:
  assumes "settled b b1 t x F R R1 fl1" and "settled b1 b2 t y F R1 R2 fl2"
  shows "settled b b2 t z F R R2 fl2"
  using assms unfolding settled_def by (auto intro: book_frame_trans)

lemma side_fill_ok:
  assumes rep: "book_rep b R F fl" and s: "s \<noteq> INVALID" and t: "t = opp s" and x: "x \<in> set (concat (R t))"
    and r: "r = core (ob_storage b ! unat x)" and q: "q = min (remaining_qty ord) (remaining_qty r)"
  shows "\<exists>b' R' fl'. side_fill s locate x b ord out e =
        Some (b', fill q ord, out @ [trade_rsp locate s (r, q)], record_trade s ord (r, q) e) \<and>
      settled b b' t x F R R' fl' \<and>
      (if remaining_qty r = q then concat (R' t) = remove1 x (concat (R t)) else R' = R) \<and>
      (\<forall>y. core (ob_storage b' ! unat y) = (if y = x then fill q r else core (ob_storage b ! unat y)))"
proof -
  let ?st = "ob_storage b"
  have t': "t \<noteq> INVALID" using s t by (cases s) auto
  have xo: "x \<in> set (own R)" using own_side [OF t'] x by blast
  have xb: "unat x < length ?st" "x \<notin> F" using own_bound [OF rep, of x] xo book_rep_disj [OF rep] by auto
  obtain b1 where b1: "reduceOrderQty x q b = Some b1" "book_rep b1 R F fl" "ob_index b1 = ob_index b"
    and st1: "ob_storage b1 = ?st[unat x := (?st ! unat x)\<lparr>remaining_qty := remaining_qty (?st ! unat x) - q,
        filled_qty := filled_qty (?st ! unat x) + q\<rparr>]"
    using reduceOrderQty_ok [OF rep t' x, of q] by blast
  have s1: "settled b b1 t x F R R fl"
    using b1 xb by (auto simp: settled_def book_frame_def st1 indexed_def)
  have unf: "side_fill s locate x b ord out e =
      Some (b2, fill q ord, out @ [trade_rsp locate s (r, q)], record_trade s ord (r, q) e)" if "settle_resting x b1 = Some b2" for b2
    using that b1(1) xb by (intro side_fill_unfold [OF xb(1) s]) (simp_all add: q r st1)
  have z: "remaining_qty (ob_storage b1 ! unat x) = 0 \<longleftrightarrow> remaining_qty r = q" using xb by (simp add: st1 r)
  have core1: "core (ob_storage b1 ! unat y) = (if y = x then (core (?st ! unat x))\<lparr>remaining_qty := remaining_qty r - q,
        filled_qty := filled_qty r + q\<rparr> else core (?st ! unat y))" for y
    using xb by (simp add: st1 r)
  show ?thesis
  proof (cases "remaining_qty r = q")
    case True
    then obtain b2 ss where b2: "settle_resting x b1 = Some b2" "settled b1 b2 t x F R (R(t := ss)) (x # fl)"
      "concat ss = remove1 x (concat (R t))" "\<And>y. core (ob_storage b2 ! unat y) =
        (if y = x then (core (ob_storage b1 ! unat x))\<lparr>status := FILLED\<rparr> else core (ob_storage b1 ! unat y))"
      using settle_resting_zero [OF b1(2) t' x] z by blast
    show ?thesis using unf [OF b2(1)] settled_trans [OF s1 b2(2)] b2(3,4) True
      by (intro exI [of _ b2] exI [of _ "R(t := ss)"] exI [of _ "x # fl"]) (simp add: core1 fill_def r)
  next
    case False
    then obtain b2 where b2: "settle_resting x b1 = Some b2" "settled b1 b2 t x F R R fl"
      "\<And>y. core (ob_storage b2 ! unat y) =
        (if y = x then (core (ob_storage b1 ! unat x))\<lparr>status := PARTIALLY_FILLED\<rparr> else core (ob_storage b1 ! unat y))"
      using settle_resting_more [OF b1(2) t' x] z by blast
    show ?thesis using unf [OF b2(1)] settled_trans [OF s1 b2(2)] b2(3) False
      by (intro exI [of _ b2] exI [of _ R] exI [of _ fl]) (simp add: core1 fill_def r)
  qed
qed

section \<open>The loops\<close>

lemma match_order_step:
  assumes "s \<noteq> INVALID"
  shows "match_order s locate b ord out e =
    (if remaining_qty ord > 0 then do {
        best \<leftarrow> best_in (user_id ord) (ob_pool b) (levels_of (opp s) b);
        (case best of
           None \<Rightarrow> Some (b, ord, out, e)
         | Some x \<Rightarrow> do {
             r \<leftarrow> pool_at (ob_pool b) x;
             if \<not> acceptable s (price ord) (price r) then Some (b, ord, out, e)
             else do {
               res \<leftarrow> side_fill s locate x b ord out e;
               (case res of (b1, ord1, out1, e1) \<Rightarrow> match_order s locate b1 ord1 out1 e1)
             }
           })
      } else Some (b, ord, out, e))"
proof (cases s)
  case BUY
  have m: "match_order BUY = matchBuyOrder" "side_fill BUY = buy_fill" by (simp_all add: match_order_def side_fill_def)
  show ?thesis unfolding BUY m
    by (subst matchBuyOrder.simps) (simp add: getBestAsk_def acceptable_def levels_of_def not_le)
next
  case SELL
  have m: "match_order SELL = matchSellOrder" "side_fill SELL = sell_fill" by (simp_all add: match_order_def side_fill_def)
  show ?thesis unfolding SELL m
    by (subst matchSellOrder.simps) (simp add: getBestBid_def acceptable_def levels_of_def not_le)
qed (use assms in simp)

end
