(* ===== verification/Matching_Correct.thy ===== *)
theory Matching_Correct
  imports Matching_Spec
begin

text \<open>
  The matching loops compute \<open>match_queue\<close> on the book they are given, and what that means for
  quantities, prices and users.
\<close>

section \<open>Refinement\<close>

lemma opp_not_INVALID [simp]: "s \<noteq> INVALID \<Longrightarrow> opp s \<noteq> INVALID"
  by (cases s) auto

lemma opp_neq: "s \<noteq> INVALID \<Longrightarrow> opp s \<noteq> s"
  by (cases s) auto

lemma eligible_core [simp]: "eligible u (core r) = eligible u r"
  by (simp add: eligible_def)

lemma find_skip:
  assumes "\<forall>y\<in>set P. \<not> p y" shows "find p (P @ Q) = find p Q"
  using assms by (induction P) auto

lemma match_queue_trade:
  assumes "remaining_qty o' \<noteq> 0" "eligible (user_id o') r" "acceptable s (price o') (price r)"
    and "q = min (remaining_qty o') (remaining_qty r)"
  shows "match_queue s o' (r # rs) = (if remaining_qty r = q
      then (case match_queue s (fill q o') rs of (o1, rs1, ts) \<Rightarrow> (o1, rs1, (r, q) # ts))
      else (fill q o', fill q r # rs, [(r, q)]))"
  unfolding match_queue.simps Let_def assms(4) [symmetric] using assms(1,2,3) by simp

lemma match_order_refines:
  assumes "book_rep b R F fl" and s: "s \<noteq> INVALID" and "concat (R (opp s)) = P @ Q"
    and "\<forall>y\<in>set P. \<not> eligible (user_id ord) (ob_storage b ! unat y)"
    and "match_queue s ord (map (\<lambda>i. core (ob_storage b ! unat i)) Q) = (ord', q', ts)"
  shows "\<exists>b' R' fl'. match_order s locate b ord out e =
       Some (b', ord', out @ map (trade_rsp locate s) ts, fold (record_trade s ord) ts e) \<and>
     settled b b' (opp s) 0 F R R' fl' \<and>
     queue_of (opp s) b' = map (\<lambda>i. core (ob_storage b ! unat i)) P @ q' \<and> queue_of s b' = queue_of s b"
  using assms
proof (induction Q arbitrary: b R fl P ord out e ord' q' ts)
  case Nil
  note rep = Nil.prems(1)
  have q: "queue_of (opp s) b = map (\<lambda>i. core (ob_storage b ! unat i)) P"
    using queue_of_rep [OF rep opp_not_INVALID [OF s]] Nil.prems(3) by simp
  have "find (\<lambda>i. eligible (user_id ord) (ob_storage b ! unat i)) P = None"
    using Nil.prems(4) by (auto simp: find_None_iff)
  then have "match_order s locate b ord out e = Some (b, ord, out, e)"
    using Nil.prems(3) by (subst match_order_step [OF s]) (simp add: best_in_rep [OF rep opp_not_INVALID [OF s]])
  moreover have "settled b b (opp s) 0 F R R fl" using rep by (simp add: settled_def)
  ultimately show ?case using Nil.prems(5) q by auto
next
  case (Cons x Q)
  note rep = Cons.prems(1) and PQ = Cons.prems(3) and skip = Cons.prems(4) and mq = Cons.prems(5)
  let ?st = "ob_storage b" and ?t = "opp s"
  let ?f = "\<lambda>i. core (?st ! unat i)"
  have t: "?t \<noteq> INVALID" using s by simp
  have refl_settled: "settled b b ?t 0 F R R fl" using rep by (simp add: settled_def)
  have qt: "queue_of ?t b = map ?f P @ ?f x # map ?f Q" using queue_of_rep [OF rep t] PQ by simp
  have xt: "x \<in> set (concat (R ?t))" by (simp add: PQ)
  have xb: "unat x < length ?st" using side_rep_bound(1) [OF book_rep_side [OF rep t] xt] .
  have best: "best_in (user_id ord) (ob_pool b) (levels_of ?t b) =
      Some (if eligible (user_id ord) (?st ! unat x) then Some x else find (\<lambda>i. eligible (user_id ord) (?st ! unat i)) Q)"
    using skip by (simp add: best_in_rep [OF rep t] PQ find_skip)
  consider (used_up) "remaining_qty ord = 0"
    | (own) "remaining_qty ord \<noteq> 0" "\<not> eligible (user_id ord) (?st ! unat x)"
    | (stop) "remaining_qty ord \<noteq> 0" "eligible (user_id ord) (?st ! unat x)" "\<not> acceptable s (price ord) (price (?st ! unat x))"
    | (trade) "remaining_qty ord \<noteq> 0" "eligible (user_id ord) (?st ! unat x)" "acceptable s (price ord) (price (?st ! unat x))"
    by blast
  then show ?case
  proof cases
    case used_up
    then have "match_order s locate b ord out e = Some (b, ord, out, e)" by (subst match_order_step [OF s]) simp
    then show ?thesis using used_up mq qt refl_settled by auto
  next
    case own
    obtain o1 rs1 ts1 where m: "match_queue s ord (map ?f Q) = (o1, rs1, ts1)" by (cases "match_queue s ord (map ?f Q)")
    then have eq: "ord' = o1" "q' = ?f x # rs1" "ts = ts1" using mq own by auto
    have "\<forall>y\<in>set (P @ [x]). \<not> eligible (user_id ord) (?st ! unat y)" using skip own by auto
    from Cons.IH [OF rep s _ this m, of out e] PQ show ?thesis by (simp add: eq)
  next
    case stop
    then have "match_order s locate b ord out e = Some (b, ord, out, e)"
      using best xb by (subst match_order_step [OF s]) (simp add: pool_at_def arr_get_Some word_gt_0)
    then show ?thesis using stop mq qt refl_settled by auto
  next
    case trade
    define r where "r = ?f x"
    define q where "q = min (remaining_qty ord) (remaining_qty r)"
    have mt: "match_queue s ord (r # map ?f Q) = (if remaining_qty r = q
        then (case match_queue s (fill q ord) (map ?f Q) of (o1, rs1, ts) \<Rightarrow> (o1, rs1, (r, q) # ts))
        else (fill q ord, fill q r # map ?f Q, [(r, q)]))"
      using trade by (intro match_queue_trade) (simp_all add: r_def q_def)
    have mq': "match_queue s ord (r # map ?f Q) = (ord', q', ts)" using mq by (simp only: list.map r_def)
    obtain b1 R1 fl1 where
      fill: "side_fill s locate x b ord out e = Some (b1, fill q ord, out @ [trade_rsp locate s (r, q)], record_trade s ord (r, q) e)"
      and st1: "settled b b1 ?t x F R R1 fl1"
      and R1: "if remaining_qty r = q then concat (R1 ?t) = remove1 x (concat (R ?t)) else R1 = R"
      and co: "\<And>y. core (ob_storage b1 ! unat y) = (if y = x then fill q r else ?f y)"
      using side_fill_ok [OF rep s refl xt r_def q_def, of locate out e] by blast
    have rep1: "book_rep b1 R1 F fl1" and Rs: "R1 s = R s" using st1 opp_neq [OF s] by (auto simp: settled_def)
    have step: "match_order s locate b ord out e =
        match_order s locate b1 (fill q ord) (out @ [trade_rsp locate s (r, q)]) (record_trade s ord (r, q) e)"
      using trade best xb fill by (subst match_order_step [OF s]) (simp add: pool_at_def arr_get_Some word_gt_0)
    have d: "distinct (P @ x # Q)" using own_sub_distinct [OF t book_rep_distinct [OF rep]] PQ by simp
    have xs: "x \<notin> set (concat (R s))" using other_side_disjoint [OF s t opp_neq [OF s] book_rep_distinct [OF rep] xt] .
    have qs: "queue_of s b1 = queue_of s b"
      using queue_of_other [OF rep rep1 s Rs] co xs by (metis (no_types, lifting))
    have keep: "map (\<lambda>i. core (ob_storage b1 ! unat i)) P = map ?f P" "map (\<lambda>i. core (ob_storage b1 ! unat i)) Q = map ?f Q"
      using co d by (auto simp: map_eq_conv)
    show ?thesis
    proof (cases "remaining_qty r = q")
      case True
      obtain o1 rs1 ts1 where m: "match_queue s (fill q ord) (map ?f Q) = (o1, rs1, ts1)"
        by (cases "match_queue s (fill q ord) (map ?f Q)")
      then have eq: "ord' = o1" "q' = rs1" "ts = (r, q) # ts1"
        using mq' True unfolding mt by auto
      have c1: "concat (R1 ?t) = P @ Q" using R1 True d by (simp add: PQ remove1_mid)
      have sk: "\<forall>y\<in>set P. \<not> eligible (user_id (fill q ord)) (ob_storage b1 ! unat y)"
      proof
        fix y assume y: "y \<in> set P"
        have "eligible (user_id ord) (ob_storage b1 ! unat y) = eligible (user_id ord) (core (ob_storage b1 ! unat y))" by simp
        also have "\<dots> = eligible (user_id ord) (?st ! unat y)" using y d co [of y] by auto
        finally show "\<not> eligible (user_id (fill q ord)) (ob_storage b1 ! unat y)" using skip y by simp
      qed
      have rc: "record_trade s (fill q ord) = record_trade s ord"
        by (rule ext) (metis record_trade_cong fill_fields(1,2) surj_pair)
      from Cons.IH [OF rep1 s c1 sk, of o1 rs1 ts1 "out @ [trade_rsp locate s (r, q)]" "record_trade s ord (r, q) e"] m
      obtain b2 R2 fl2 where "match_order s locate b1 (fill q ord) (out @ [trade_rsp locate s (r, q)]) (record_trade s ord (r, q) e) =
          Some (b2, o1, out @ trade_rsp locate s (r, q) # map (trade_rsp locate s) ts1, fold (record_trade s ord) ts1 (record_trade s ord (r, q) e))"
        and st2: "settled b1 b2 ?t 0 F R1 R2 fl2" and "queue_of ?t b2 = map ?f P @ rs1" "queue_of s b2 = queue_of s b1"
        by (auto simp: keep rc)
      then show ?thesis using step qs settled_trans [OF st1 st2, of 0] by (auto simp: eq)
    next
      case False
      then have "remaining_qty ord = q" by (auto simp: q_def min_def split: if_splits)
      then have "match_order s locate b1 (fill q ord) out1 e1 = Some (b1, fill q ord, out1, e1)" for out1 e1
        by (subst match_order_step [OF s]) simp
      moreover have "ord' = fill q ord" "q' = fill q r # map ?f Q" "ts = [(r, q)]"
        using mq' False unfolding mt by auto
      moreover have "queue_of ?t b1 = map ?f P @ fill q r # map ?f Q"
        using queue_of_rep [OF rep1 t] R1 False PQ co [of x] keep by simp
      ultimately show ?thesis using step qs settled_trans [OF st1, of b1 x R1 fl1 0] rep1 by (auto simp: settled_def)
    qed
  qed
qed

end
