(* ===== verification/Engine_Rep.thy ===== *)
theory Engine_Rep
  imports Matching_Correct
begin

text \<open>
  The invariant of the engine: all books are well formed over the one shared pool and index, and
  no two of them own the same slot.  Rewriting rules for reading and replacing one book.
\<close>

section \<open>Reading and replacing a book\<close>

named_theorems engine_simps "reading books and counters after an engine update"

lemma book_at_cong:
  "books e' = books e \<Longrightarrow> shared_pool e' = shared_pool e \<Longrightarrow> shared_index e' = shared_index e \<Longrightarrow> book_at l e' = book_at l e"
  by (simp only: book_at_def)

lemma book_at_fields [engine_simps]:
  "book_at l (bump f e) = book_at l e" "book_at l (e\<lparr>next_sequence := n\<rparr>) = book_at l e"
  "book_at l (e\<lparr>next_order_id := n\<rparr>) = book_at l e" "book_at l (wal_log en e) = book_at l e"
  "book_at l (set_pool_used b e) = book_at l e"
  by (rule book_at_cong; simp add: bump_def wal_log_def set_pool_used_def)+

lemma shared_fields [engine_simps]:
  "shared_index (bump f e) = shared_index e" "shared_index (e\<lparr>next_sequence := n\<rparr>) = shared_index e"
  "shared_index (wal_log en e) = shared_index e" "shared_index (set_pool_used b e) = shared_index e"
  "shared_pool (bump f e) = shared_pool e" "shared_pool (e\<lparr>next_sequence := n\<rparr>) = shared_pool e"
  "shared_pool (wal_log en e) = shared_pool e" "shared_pool (set_pool_used b e) = shared_pool e"
  "next_sequence (bump f e) = next_sequence e" "next_sequence (wal_log en e) = next_sequence e"
  "next_sequence (set_pool_used b e) = next_sequence e"
  by (simp_all add: bump_def wal_log_def set_pool_used_def)

lemma book_at_put [engine_simps]: "book_at l (put_book l b e) = b"
  by (simp add: book_at_def put_book_def)

lemma book_at_put_other: "l' \<noteq> l \<Longrightarrow> book_at l' (put_book l b e) = (book_at l' e)\<lparr>ob_pool := ob_pool b, ob_index := ob_index b\<rparr>"
  by (cases "books e l'") (auto simp: book_at_def put_book_def new_OrderBook_shared_def)

lemma shared_put [engine_simps]:
  "shared_pool (put_book l b e) = ob_pool b" "shared_index (put_book l b e) = ob_index b"
  "next_sequence (put_book l b e) = next_sequence e"
  by (simp_all add: put_book_def)

lemma book_at_shared [simp]: "ob_pool (book_at l e) = shared_pool e" "ob_index (book_at l e) = shared_index e"
  by (simp_all add: book_at_def new_OrderBook_shared_def split: option.split)

lemma put_book_at: "book_at l' (put_book l (book_at l e) e) = book_at l' e"
  by (cases "l' = l") (simp_all add: book_at_put book_at_put_other)

text \<open>The engine after \<^verbatim>\<open>book_for\<close>: the book exists, and reads as before.\<close>

definition touch :: "u64 \<Rightarrow> engine \<Rightarrow> engine" where
  "touch l e = (if books e l = None then put_book l (book_at l e) e else e)"

lemma book_for_eq:
  "book_for l e = (if l \<ge> kMaxLocate then (None, e) else (Some (book_at l e), touch l e))"
  by (auto simp: book_for_def touch_def book_at_def Let_def split: option.split)

lemma touch_simps [engine_simps]:
  "book_at l' (touch l e) = book_at l' e" "shared_pool (touch l e) = shared_pool e"
  "shared_index (touch l e) = shared_index e" "next_sequence (touch l e) = next_sequence e"
  by (simp_all add: touch_def put_book_at shared_put)

lemma record_trades_books [engine_simps]:
  fixes e :: engine
  shows "books (fold (record_trade s ord) ts e) = books e"
    and "shared_pool (fold (record_trade s ord) ts e) = shared_pool e"
    and "shared_index (fold (record_trade s ord) ts e) = shared_index e"
    and "next_sequence (fold (record_trade s ord) ts e) = next_sequence e"
  by (induction ts arbitrary: e)
     (auto simp: record_trade_def record_buy_trade_def record_sell_trade_def bump_def Let_def split: prod.splits option.splits)

lemma book_at_record [engine_simps]: "book_at l (fold (record_trade s ord) ts e) = book_at l e"
  by (intro book_at_cong) (simp_all add: record_trades_books)

lemma put_put [engine_simps]: "put_book l b (put_book l b' e) = put_book l b e"
  by (simp add: put_book_def)

section \<open>The invariant\<close>

definition others :: "(u64 \<Rightarrow> side \<Rightarrow> u32 list list) \<Rightarrow> u64 \<Rightarrow> u32 set" where
  "others R l = (\<Union>l'\<in>-{l}. set (own (R l')))"

definition engine_rep :: "engine \<Rightarrow> (u64 \<Rightarrow> side \<Rightarrow> u32 list list) \<Rightarrow> u32 list \<Rightarrow> bool" where
  "engine_rep e R fl \<longleftrightarrow> (\<forall>l. book_rep (book_at l e) (R l) (others R l) fl)"

definition engine_inv :: "engine \<Rightarrow> bool" where
  "engine_inv e \<longleftrightarrow> (\<exists>R fl. engine_rep e R fl)"

lemma engine_repD: "engine_rep e R fl \<Longrightarrow> book_rep (book_at l e) (R l) (others R l) fl"
  by (simp add: engine_rep_def)

lemma engine_rep_cong: "(\<And>l. book_at l e' = book_at l e) \<Longrightarrow> engine_rep e' R fl = engine_rep e R fl"
  by (simp add: engine_rep_def)

lemma engine_rep_put:
  assumes rep: "engine_rep e R fl" and b': "book_rep b' R' (others R l) fl'"
    and len: "length (ob_storage b') = length (storage (shared_pool e))"
    and fr: "\<forall>y\<in>others R l. ob_storage b' ! unat y = storage (shared_pool e) ! unat y"
  shows "engine_rep (put_book l b' e) (R(l := R')) fl'"
  unfolding engine_rep_def
proof
  fix k
  show "book_rep (book_at k (put_book l b' e)) ((R(l := R')) k) (others (R(l := R')) k) fl'"
  proof (cases "k = l")
    case True
    then show ?thesis using b' by (simp add: book_at_put others_def)
  next
    case False
    let ?bk = "book_at k e"
    have rk: "book_rep ?bk (R k) (others R k) fl" using rep by (rule engine_repD)
    have sub: "set (own (R k)) \<subseteq> others R l" using False by (auto simp: others_def)
    have oth: "others (R(l := R')) k = set (own R') \<union> (others R l - set (own (R k)))"
    proof -
      have "set (own (R k)) \<inter> set (own (R j)) = {}" if "j \<noteq> k" for j
        using book_rep_disj [OF rk] that by (auto simp: others_def)
      then have "others R l - set (own (R k)) = (\<Union>j\<in>-{k, l}. set (own (R j)))"
        using False by (fastforce simp: others_def)
      moreover have "others (R(l := R')) k = set (own R') \<union> (\<Union>j\<in>-{k, l}. set (own (R j)))"
        using False by (auto simp: others_def split: if_splits)
      ultimately show ?thesis by simp
    qed
    have "side_rep (ob_storage b') s (levels_of s ?bk) (R k s)" if "s \<noteq> INVALID" for s
    proof (rule side_rep_cong [OF _ _ book_rep_side [OF rk that]])
      show "ob_storage b' ! unat x = ob_storage ?bk ! unat x" if "x \<in> set (concat (R k s))" for x
        using that fr sub own_side [OF \<open>s \<noteq> INVALID\<close>, of "R k"] by auto
    qed (simp add: len)
    moreover have "distinct (own (R k))" using rk by (rule book_rep_distinct)
    moreover have "set (own (R k)) \<inter> others (R(l := R')) k = {}"
      using sub book_rep_disj [OF b'] by (auto simp: oth)
    moreover have "set (own (R k)) \<union> others (R(l := R')) k = live_slots (ob_pool b') fl'"
      using sub book_rep_live [OF b'] by (auto simp: oth)
    ultimately show ?thesis using b' False unfolding book_rep_def by (simp add: book_at_put_other)
  qed
qed

section \<open>The abstract engine\<close>

definition book_view :: "order_book \<Rightarrow> side \<Rightarrow> order list" where
  "book_view b s = (if s = INVALID then [] else queue_of s b)"

definition engine_view :: "engine \<Rightarrow> u64 \<Rightarrow> side \<Rightarrow> order list" where
  "engine_view e l = book_view (book_at l e)"

lemma engine_view_cong: "(\<And>l. book_at l e' = book_at l e) \<Longrightarrow> engine_view e' = engine_view e"
  by (simp add: engine_view_def fun_eq_iff)

lemma engine_view_put:
  assumes rep: "engine_rep e R fl" and b': "book_rep b' R' (others R l) fl'"
    and len: "length (ob_storage b') = length (storage (shared_pool e))"
    and fr: "\<forall>y\<in>others R l. ob_storage b' ! unat y = storage (shared_pool e) ! unat y"
  shows "engine_view (put_book l b' e) = (engine_view e)(l := book_view b')"
proof (rule ext)
  fix k
  show "engine_view (put_book l b' e) k = ((engine_view e)(l := book_view b')) k"
  proof (cases "k = l")
    case True then show ?thesis by (simp add: engine_view_def book_at_put)
  next
    case False
    have rk: "book_rep (book_at k e) (R k) (others R k) fl" using rep by (rule engine_repD)
    have rk': "book_rep (book_at k (put_book l b' e)) (R k) (others (R(l := R')) k) fl'"
      using engine_repD [OF engine_rep_put [OF rep b' len fr], of k] False by simp
    have "queue_of s (book_at k (put_book l b' e)) = queue_of s (book_at k e)" if s: "s \<noteq> INVALID" for s
    proof (rule queue_of_other [OF rk rk' s refl])
      fix y assume y: "y \<in> set (concat (R k s))"
      then have "y \<in> others R l" using own_side [OF s, of "R k"] False by (auto simp: others_def)
      then show "core (ob_storage (book_at k (put_book l b' e)) ! unat y) = core (ob_storage (book_at k e) ! unat y)"
        using fr by (simp add: shared_put)
    qed
    then show ?thesis using False by (simp add: engine_view_def book_view_def fun_eq_iff)
  qed
qed

end
