(* ===== verification/Matching_Props.thy ===== *)
theory Matching_Props
  imports Matching_Spec
begin

text \<open>
  Consequences of the matching rule: who trades, at which price, how much, and what is left.  The rule
  is restated as an inductive relation, so that each consequence is one rule induction.
\<close>

section \<open>The rule as a relation\<close>

inductive matches :: "side \<Rightarrow> order \<Rightarrow> order list \<Rightarrow> order \<Rightarrow> order list \<Rightarrow> (order \<times> u32) list \<Rightarrow> bool" for s where
  m_empty: "matches s o' [] o' [] []"
| m_used_up: "remaining_qty o' = 0 \<Longrightarrow> matches s o' q o' q []"
| m_limit: "eligible (user_id o') r \<Longrightarrow> \<not> acceptable s (price o') (price r) \<Longrightarrow> matches s o' (r # rs) o' (r # rs) []"
| m_skip: "remaining_qty o' \<noteq> 0 \<Longrightarrow> \<not> eligible (user_id o') r \<Longrightarrow> matches s o' rs o1 rs1 ts \<Longrightarrow>
    matches s o' (r # rs) o1 (r # rs1) ts"
| m_take: "remaining_qty o' \<noteq> 0 \<Longrightarrow> eligible (user_id o') r \<Longrightarrow> acceptable s (price o') (price r) \<Longrightarrow>
    q = remaining_qty r \<Longrightarrow> q \<le> remaining_qty o' \<Longrightarrow> matches s (fill q o') rs o1 rs1 ts \<Longrightarrow>
    matches s o' (r # rs) o1 rs1 ((r, q) # ts)"
| m_part: "remaining_qty o' \<noteq> 0 \<Longrightarrow> eligible (user_id o') r \<Longrightarrow> acceptable s (price o') (price r) \<Longrightarrow>
    q = remaining_qty o' \<Longrightarrow> q < remaining_qty r \<Longrightarrow>
    matches s o' (r # rs) (fill q o') (fill q r # rs) [(r, q)]"

lemma match_queue_matches:
  "match_queue s o' q = (o1, q1, ts) \<Longrightarrow> matches s o' q o1 q1 ts"
proof (induction q arbitrary: o' o1 q1 ts)
  case Nil
  then show ?case by (auto intro: m_empty)
next
  case (Cons r rs)
  let ?q = "min (remaining_qty o') (remaining_qty r)"
  consider "remaining_qty o' = 0" | "remaining_qty o' \<noteq> 0" "\<not> eligible (user_id o') r"
    | "remaining_qty o' \<noteq> 0" "eligible (user_id o') r" "\<not> acceptable s (price o') (price r)"
    | (trade) "remaining_qty o' \<noteq> 0" "eligible (user_id o') r" "acceptable s (price o') (price r)"
    by blast
  then show ?case
  proof cases
    case 1 then show ?thesis using Cons.prems by (auto intro: m_used_up)
  next
    case 2 then show ?thesis using Cons by (auto intro: m_skip split: prod.splits)
  next
    case 3 then show ?thesis using Cons.prems by (auto intro: m_limit)
  next
    case trade
    show ?thesis
    proof (cases "remaining_qty r \<le> remaining_qty o'")
      case True
      then have q: "?q = remaining_qty r" by (rule min.absorb2)
      obtain o2 q2 ts2 where m: "match_queue s (fill (remaining_qty r) o') rs = (o2, q2, ts2)"
        by (cases "match_queue s (fill (remaining_qty r) o') rs")
      have "o1 = o2" "q1 = q2" "ts = (r, remaining_qty r) # ts2"
        using Cons.prems trade m unfolding match_queue.simps Let_def q by auto
      then show ?thesis using m_take [OF trade refl True Cons.IH [OF m]] by simp
    next
      case False
      then have q: "?q = remaining_qty o'" "remaining_qty o' < remaining_qty r" by (auto simp: min_def)
      then have "o1 = fill (remaining_qty o') o'" "q1 = fill (remaining_qty o') r # rs" "ts = [(r, remaining_qty o')]"
        using Cons.prems trade unfolding match_queue.simps Let_def q(1) by (auto split: if_splits)
      then show ?thesis using m_part [OF trade refl q(2)] by simp
    qed
  qed
qed

section \<open>Consequences\<close>

lemma matches_fields:
  assumes "matches s o' q o1 q1 ts"
  shows "order_id o1 = order_id o' \<and> user_id o1 = user_id o' \<and> price o1 = price o' \<and> side_of o1 = side_of o' \<and>
    original_qty o1 = original_qty o' \<and> sequence o1 = sequence o'"
  using assms by induction simp_all

lemma matches_status:
  assumes "matches s o' q o1 q1 ts"
  shows "status o1 = (if ts = [] then status o' else if remaining_qty o1 = 0 then FILLED else PARTIALLY_FILLED)"
    and "ts = [] \<Longrightarrow> o1 = o'"
proof -
  have "(ts = [] \<longrightarrow> o1 = o') \<and>
      status o1 = (if ts = [] then status o' else if remaining_qty o1 = 0 then FILLED else PARTIALLY_FILLED)"
    using assms by induction auto
  then show "status o1 = (if ts = [] then status o' else if remaining_qty o1 = 0 then FILLED else PARTIALLY_FILLED)"
    and "ts = [] \<Longrightarrow> o1 = o'" by simp_all
qed

text \<open>Quantities are conserved: what the incoming order fills is what the resting orders lose.\<close>

definition traded :: "(order \<times> u32) list \<Rightarrow> nat" where
  "traded ts = sum_list (map (unat \<circ> snd) ts)"

definition total_remaining :: "order list \<Rightarrow> nat" where
  "total_remaining q = sum_list (map (unat \<circ> remaining_qty) q)"

lemma unat_diff_le: "b \<le> a \<Longrightarrow> unat (a - b :: u32) = unat a - unat b \<and> unat b \<le> unat a"
  by (simp add: unat_sub word_le_nat_alt)

lemma matches_conserve:
  assumes "matches s o' q o1 q1 ts"
  shows "unat (remaining_qty o1) + traded ts = unat (remaining_qty o') \<and>
    total_remaining q1 + traded ts = total_remaining q \<and> filled_qty o1 + remaining_qty o1 = filled_qty o' + remaining_qty o'"
  using assms
proof induction
  case (m_take o' r q rs o1 rs1 ts)
  then show ?case using unat_diff_le [of q "remaining_qty o'"]
    by (auto simp: traded_def total_remaining_def)
next
  case (m_part o' r q rs)
  then show ?case using unat_diff_le [of q "remaining_qty r"] less_imp_le [OF m_part.hyps(5)]
    by (auto simp: traded_def total_remaining_def)
qed (auto simp: traded_def total_remaining_def)

text \<open>Every trade is with another user, at an accepted price, for no more than either side had.\<close>

lemma matches_trades:
  assumes "matches s o' q o1 q1 ts"
  shows "\<forall>(r, n)\<in>set ts. r \<in> set q \<and> eligible (user_id o') r \<and> acceptable s (price o') (price r) \<and> n \<le> remaining_qty r"
  using assms by induction auto

text \<open>Trades happen in queue order and skip nobody but the taker's own orders.\<close>

lemma matches_priority:
  assumes "matches s o' q o1 q1 ts"
  shows "map fst ts = take (length ts) (filter (eligible (user_id o')) q)"
  using assms by induction auto

lemma matches_own_orders:
  assumes "matches s o' q o1 q1 ts"
  shows "filter (\<lambda>r. \<not> eligible (user_id o') r) q1 = filter (\<lambda>r. \<not> eligible (user_id o') r) q"
  using assms by induction (auto simp: eligible_def)

text \<open>All but the last traded order are used up and leave the queue.\<close>

lemma matches_all_but_last:
  assumes "matches s o' q o1 q1 ts"
  shows "\<forall>(r, n)\<in>set (butlast ts). n = remaining_qty r"
  using assms by induction auto

text \<open>The queue of a side, best price first.\<close>

definition priority_sorted :: "side \<Rightarrow> order list \<Rightarrow> bool" where
  "priority_sorted s q \<longleftrightarrow> sorted_wrt (\<lambda>a b. \<not> level_lt s (price b) (price a)) q"

lemma acceptable_worse:
  "s \<noteq> INVALID \<Longrightarrow> \<not> acceptable s p a \<Longrightarrow> \<not> level_lt (opp s) b a \<Longrightarrow> \<not> acceptable s p b"
  by (cases s) (auto simp: acceptable_def level_lt_def)

text \<open>An order that is not used up leaves nobody behind it could still trade with.\<close>

lemma matches_no_cross:
  assumes "matches s o' q o1 q1 ts" and "s \<noteq> INVALID" and "priority_sorted (opp s) q" and "remaining_qty o1 \<noteq> 0"
  shows "\<forall>r\<in>set q1. eligible (user_id o') r \<longrightarrow> \<not> acceptable s (price o') (price r)"
  using assms
proof induction
  case (m_limit o' r rs)
  then show ?case using acceptable_worse [of s "price o'" "price r"] by (auto simp: priority_sorted_def)
qed (auto simp: priority_sorted_def)

lemma matches_sorted:
  assumes "matches s o' q o1 q1 ts" and "priority_sorted t q"
  shows "priority_sorted t q1 \<and> price ` set q1 \<subseteq> price ` set q"
  using assms by induction (auto simp: priority_sorted_def)

lemma matches_length:
  assumes "matches s o' q o1 q1 ts"
  shows "length q1 \<le> length q \<and> length q \<le> length q1 + length ts \<and> length ts \<le> length q"
  using assms by induction auto

end
