(* ===== verification/Engine_Spec.thy ===== *)
theory Engine_Spec
  imports Engine_Rep Matching_Props
begin

text \<open>
  What every handler of the engine does, as a function on the priority queues of the books, and the
  proofs that the handlers of \<^verbatim>\<open>src/matching_engine.cpp\<close> do it.
\<close>

section \<open>Free slots\<close>

lemma card_slots:
  assumes "n \<le> 2 ^ 32"
  shows "card {x :: u32. unat x < n} = n" and "finite {x :: u32. unat x < n}"
proof -
  have "unat ` {x :: u32. unat x < n} = {..<n}"
  proof (intro equalityI subsetI)
    fix i assume "i \<in> {..<n}"
    then have "unat (of_nat i :: u32) = i" using assms by (simp add: unat_of_nat)
    then show "i \<in> unat ` {x :: u32. unat x < n}" using \<open>i \<in> {..<n}\<close> by (metis (mono_tags) imageI lessThan_iff mem_Collect_eq)
  qed auto
  then show "card {x :: u32. unat x < n} = n" by (metis card_image card_lessThan inj_on_def word_unat_eq_iff)
  show "finite {x :: u32. unat x < n}" by simp
qed

lemma book_rep_count:
  assumes rep: "book_rep b R F fl"
  shows "length (own R) + card F + length fl = length (ob_storage b)"
proof -
  let ?n = "length (ob_storage b)"
  have cap: "?n \<le> 2 ^ 32" using book_rep_cap [OF rep] by simp
  have fl: "set fl \<subseteq> {x. unat x < ?n}" "distinct fl"
    using book_rep_pool [OF rep] pool_inv_distinct by (auto simp: pool_inv_def)
  have fin: "finite F" by simp
  have "card (live_slots (ob_pool b) fl) = ?n - length fl"
    using fl card_slots [OF cap] by (simp add: live_slots_def card_Diff_subset distinct_card)
  moreover have "card (set (own R) \<union> F) = length (own R) + card F"
    using book_rep_distinct [OF rep] book_rep_disj [OF rep] fin by (simp add: card_Un_disjoint distinct_card)
  moreover have "length fl \<le> ?n" using pool_inv_length [OF book_rep_pool [OF rep]] .
  ultimately show ?thesis using book_rep_live [OF rep] by simp
qed

definition free_slots :: "engine \<Rightarrow> nat" where
  "free_slots e = capacity (shared_pool e) - unat (pool_size (shared_pool e))"

lemma pool_free_slots:
  assumes "pool_inv p fl" shows "capacity p - unat (pool_size p) = length fl"
proof -
  have "capacity p - length fl \<le> capacity p" "capacity p \<le> 4294967295" using assms by (simp_all add: pool_inv_def)
  then have "capacity p - length fl < 2 ^ 64" by simp
  then have "unat (pool_size p) = capacity p - length fl" using assms by (simp add: pool_inv_def unat_of_nat)
  then show ?thesis using pool_inv_length [OF assms] by simp
qed

lemma engine_free_slots: "engine_rep e R fl \<Longrightarrow> free_slots e = length fl"
  using pool_free_slots [of "shared_pool e" fl] book_rep_pool [OF engine_repD, of e R fl 0] by (simp add: free_slots_def)

lemma length_own_views:
  assumes "book_rep b R F fl"
  shows "length (own R) = length (book_view b BUY) + length (book_view b SELL)"
  using queue_of_rep [OF assms] by (simp add: own_def book_view_def)

section \<open>Adding to a book\<close>

lemma addOrder_view:
  assumes rep: "book_rep b R F fl" and s: "side_of ord = s" "s \<noteq> INVALID"
    and fresh: "map_abs (ob_index b) (order_id ord) = None"
  shows "\<exists>b' R' fl'. addOrder ord b = Some (fl \<noteq> [], b') \<and> book_rep b' R' F fl' \<and>
      length (ob_storage b') = length (ob_storage b) \<and> (\<forall>y\<in>F. ob_storage b' ! unat y = ob_storage b ! unat y) \<and>
      book_view b' = (if fl = [] then book_view b else (book_view b)(s := enqueue s (core ord) (book_view b s))) \<and>
      (indexed b (set (own R) \<union> F) \<longrightarrow> map_room (ob_index b) (order_id ord) \<longrightarrow> indexed b' (set (own R') \<union> F))"
proof (cases fl)
  case Nil
  then show ?thesis using addOrder_full [of b R F ord] rep s by auto
next
  case (Cons x fl')
  note rep' = rep [unfolded Cons]
  obtain b' ss where b': "addOrder ord b = Some (True, b')" "book_rep b' (R(s := ss)) F fl'"
    and ins: "inserted s (\<lambda>y. price (ob_storage b ! unat y)) (price ord) x (concat (R s)) (concat ss)"
    and len: "length (ob_storage b') = length (ob_storage b)"
    and co: "\<And>y. core (ob_storage b' ! unat y) = (if y = x then core ord else core (ob_storage b ! unat y))"
    and F: "\<forall>y\<in>F. ob_storage b' ! unat y = ob_storage b ! unat y"
    and m: "map_abs (ob_index b') = (if map_room (ob_index b) (order_id ord)
        then (map_abs (ob_index b))(order_id ord \<mapsto> x) else map_abs (ob_index b))"
    using addOrder_ok [OF rep' s fresh] by blast
  have x: "x \<notin> set (own R) \<union> F" using own_bound(2) [OF rep'] by fastforce
  have xs: "y \<noteq> x" if "y \<in> set (concat (R s'))" "s' \<noteq> INVALID" for y s'
    using that x own_side [OF that(2), of R] by auto
  have qs: "queue_of s b' = enqueue s (core ord) (queue_of s b)"
  proof -
    have "queue_of s b' = map (\<lambda>i. core (ob_storage b' ! unat i)) (concat ss)"
      using queue_of_rep [OF b'(2) s(2)] by simp
    also have "\<dots> = enqueue s (core ord) (map (\<lambda>i. core (ob_storage b' ! unat i)) (concat (R s)))"
    proof (rule enqueue_inserted)
      show "inserted s (\<lambda>y. price (ob_storage b ! unat y)) (price (core ord)) x (concat (R s)) (concat ss)" using ins by simp
      show "price (ob_storage b ! unat y) = price (core (ob_storage b' ! unat y))" if "y \<in> set (concat (R s))" for y
        using xs [OF that s(2)] co [of y] by simp
    qed (simp add: co)
    also have "map (\<lambda>i. core (ob_storage b' ! unat i)) (concat (R s)) = queue_of s b"
      using co xs s(2) by (simp add: queue_of_rep [OF rep s(2)])
    finally show ?thesis .
  qed
  have qo: "queue_of s' b' = queue_of s' b" if "s' \<noteq> INVALID" "s' \<noteq> s" for s'
  proof (rule queue_of_other [OF rep b'(2) that(1)])
    show "core (ob_storage b' ! unat y) = core (ob_storage b ! unat y)" if y: "y \<in> set (concat (R s'))" for y
      using xs [OF y \<open>s' \<noteq> INVALID\<close>] co by simp
  qed (use that in simp)
  have own': "set (own (R(s := ss))) = insert x (set (own R))"
    using own_upd [OF book_rep_distinct [OF rep] s(2), of ss] inserted_set(1) [OF ins] own_side [OF s(2), of R] by auto
  have idx: "indexed b' (set (own (R(s := ss))) \<union> F)" if i: "indexed b (set (own R) \<union> F)" and r: "map_room (ob_index b) (order_id ord)"
    unfolding indexed_def
  proof
    fix i assume i': "i \<in> set (own (R(s := ss))) \<union> F"
    show "map_abs (ob_index b') (order_id (ob_storage b' ! unat i)) = Some i"
    proof (cases "i = x")
      case True
      then show ?thesis using r order_id_core [of "ob_storage b' ! unat x" ord] co [of x] by (simp add: m)
    next
      case False
      then have "map_abs (ob_index b) (order_id (ob_storage b ! unat i)) = Some i" using i i' own' by (auto simp: indexed_def)
      then show ?thesis using r fresh False order_id_core [of "ob_storage b' ! unat i" "ob_storage b ! unat i"] co [of i]
        by (auto simp: m)
    qed
  qed
  have "book_view b' = (book_view b)(s := enqueue s (core ord) (book_view b s))"
    using qs qo s(2) by (auto simp: book_view_def fun_eq_iff)
  then show ?thesis using b' len F idx Cons by (intro exI [of _ b'] exI [of _ "R(s := ss)"] exI [of _ fl']) simp
qed

section \<open>Matching in a book\<close>

lemma match_order_view:
  assumes rep: "book_rep b R F fl" and s: "s \<noteq> INVALID"
    and mq: "match_queue s ord (book_view b (opp s)) = (ord', q', ts)"
  shows "\<exists>b' R' fl'. match_order s locate b ord out e =
       Some (b', ord', out @ map (trade_rsp locate s) ts, fold (record_trade s ord) ts e) \<and>
     book_rep b' R' F fl' \<and> book_frame F b b' \<and> book_view b' = (book_view b)(opp s := q') \<and>
     length fl' + length q' = length fl + length (book_view b (opp s)) \<and>
     (indexed b (set (own R) \<union> F) \<longrightarrow> indexed b' (set (own R') \<union> F))"
proof -
  have t: "opp s \<noteq> INVALID" using s by simp
  have v: "book_view b (opp s) = map (\<lambda>i. core (ob_storage b ! unat i)) (concat (R (opp s)))"
    using queue_of_rep [OF rep t] t by (simp add: book_view_def)
  obtain b' R' fl' where m: "match_order s locate b ord out e =
       Some (b', ord', out @ map (trade_rsp locate s) ts, fold (record_trade s ord) ts e)"
    and st: "settled b b' (opp s) 0 F R R' fl'" and q: "queue_of (opp s) b' = q'" "queue_of s b' = queue_of s b"
    using match_order_refines [OF rep s, of "[]" "concat (R (opp s))" ord ord' q' ts locate out e] mq v by auto
  have rep': "book_rep b' R' F fl'" and fr: "book_frame F b b'"
    and idx: "indexed b (set (own R) \<union> F) \<longrightarrow> indexed b' (set (own R') \<union> F)" using st by (simp_all add: settled_def)
  have view: "book_view b' = (book_view b)(opp s := q')"
  proof (rule ext)
    fix k show "book_view b' k = ((book_view b)(opp s := q')) k"
      using q s by (cases k; cases s) (auto simp: book_view_def)
  qed
  have "length fl' + length (own R') = length fl + length (own R)"
    using book_rep_count [OF rep] book_rep_count [OF rep'] fr by (simp add: book_frame_def)
  moreover have "length (own R') + length (book_view b (opp s)) = length (own R) + length q'"
    unfolding length_own_views [OF rep] length_own_views [OF rep'] view using s by (cases s) simp_all
  ultimately have "length fl' + length q' = length fl + length (book_view b (opp s))" by simp
  then show ?thesis using m rep' fr view idx by blast
qed

section \<open>The specification of processAdd\<close>

definition incoming :: "u64 \<Rightarrow> u64 \<Rightarrow> side \<Rightarrow> u32 \<Rightarrow> u32 \<Rightarrow> u64 \<Rightarrow> order" where
  "incoming uid ref s pr quantity seq =
     new_Order\<lparr>user_id := uid, order_id := ref, side_of := s, price := pr, original_qty := quantity,
       remaining_qty := quantity, filled_qty := 0, sequence := seq, status := OPEN\<rparr>"

definition add_limit :: "side \<Rightarrow> u32 \<Rightarrow> order_tif \<Rightarrow> u32" where
  "add_limit s pr tif = (if tif \<noteq> DAY \<and> pr = 0 then market_price s else pr)"

text \<open>The quantity a limit order of side \<open>s\<close> could take from the other side's queue, as the code adds it up.\<close>

definition fillable_qty :: "side \<Rightarrow> u32 \<Rightarrow> order list \<Rightarrow> u32" where
  "fillable_qty s limit q = sum_list (map remaining_qty (takeWhile (\<lambda>r. acceptable s limit (price r)) q))"

text \<open>
  The responses to an order that passed the checks and the two queues after it; \<open>free\<close> is the number
  of free pool slots before.
\<close>

definition spec_accept :: "nat \<Rightarrow> u64 \<Rightarrow> order_tif \<Rightarrow> order \<Rightarrow> (side \<Rightarrow> order list) \<Rightarrow> response list \<times> (side \<Rightarrow> order list)" where
  "spec_accept free locate tif o' Q =
     (let s = side_of o'; ref = order_id o' in
      case match_queue s o' (Q (opp s)) of (ord, q, ts) \<Rightarrow>
        let rs = map (trade_rsp locate s) ts; Q1 = Q(opp s := q) in
        if status ord = FILLED then (rs @ [RSP_FILLED ref], Q1)
        else if tif = IOC then (rs @ (if filled_qty ord = 0 then [RSP_ERROR MKT_NO_LIQUIDITY] else []), Q1)
        else if tif = FOK then (rs @ (if filled_qty ord < original_qty o' then [RSP_ERROR FOK_NO_FULL_FILL] else []), Q1)
        else if free + length (Q (opp s)) = length q then (rs @ [RSP_ERROR POOL_FULL], Q1)
        else (rs @ [RSP_OK ref], Q1(s := enqueue s (core ord) (Q s))))"

definition spec_add :: "nat \<Rightarrow> u64 \<Rightarrow> u64 \<Rightarrow> side \<Rightarrow> u32 \<Rightarrow> u32 \<Rightarrow> u64 \<Rightarrow> order_tif \<Rightarrow> u64 \<Rightarrow> (side \<Rightarrow> order list) \<Rightarrow>
    response list \<times> (side \<Rightarrow> order list)" where
  "spec_add free locate ref s pr quantity uid tif seq Q =
     (if locate \<ge> kMaxLocate then ([RSP_ERROR INVALID_COMMAND_TYPE], Q)
      else if s = INVALID then ([RSP_ERROR INVALID_SIDE], Q)
      else if (tif = DAY \<and> pr = 0) \<or> quantity = 0 \<or> uid = 0 \<or> ref = 0 then ([RSP_ERROR INVALID_PRICE_QTY_USER], Q)
      else if tif = FOK \<and> fillable_qty s (add_limit s pr tif) (Q (opp s)) < quantity then ([RSP_ERROR FOK_NO_FULL_FILL], Q)
      else spec_accept free locate tif (incoming uid ref s (add_limit s pr tif) quantity seq) Q)"

section \<open>Engine steps\<close>

text \<open>Every resting order of every book can be found through the index.\<close>

definition all_indexed :: "engine \<Rightarrow> u32 list \<Rightarrow> bool" where
  "all_indexed e fl \<longleftrightarrow> indexed (book_at 0 e) (live_slots (shared_pool e) fl)"

lemma all_indexed_book:
  assumes "engine_rep e R fl"
  shows "all_indexed e fl = indexed (book_at l e) (set (own (R l)) \<union> others R l)"
  using book_rep_live [OF engine_repD [OF assms, of l]] by (simp add: all_indexed_def indexed_def)

text \<open>
  From \<open>e\<close> to \<open>e'\<close> the queues of book \<open>l\<close> became \<open>Q\<close> and all other books kept theirs; the pool has the
  same capacity, the invariant holds after, and an index that was complete still is, as long as \<open>room\<close>.
\<close>

definition evolves :: "engine \<Rightarrow> u32 list \<Rightarrow> u64 \<Rightarrow> (side \<Rightarrow> order list) \<Rightarrow> bool \<Rightarrow> engine \<Rightarrow> bool" where
  "evolves e fl l Q room e' \<longleftrightarrow> (\<exists>R' fl'. engine_rep e' R' fl' \<and> engine_view e' = (engine_view e)(l := Q) \<and>
     capacity (shared_pool e') = capacity (shared_pool e) \<and> (all_indexed e fl \<longrightarrow> room \<longrightarrow> all_indexed e' fl'))"

lemma all_indexed_cong: "(\<And>k. book_at k e' = book_at k e) \<Longrightarrow> all_indexed e' fl = all_indexed e fl"
  unfolding all_indexed_def by (metis book_at_shared(1))

lemma evolves_cong:
  assumes "\<And>k. book_at k e2 = book_at k e1" and "evolves e fl l Q room e1"
  shows "evolves e fl l Q room e2"
  using assms engine_rep_cong [of e2 e1] engine_view_cong [of e2 e1] all_indexed_cong [of e2 e1] unfolding evolves_def
  by (metis book_at_shared(1))

lemma evolves_same:
  assumes "engine_rep e R fl" and "\<And>k. book_at k e' = book_at k e" and "Q = engine_view e l"
  shows "evolves e fl l Q room e'"
  unfolding evolves_def
  using assms engine_rep_cong [of e' e] engine_view_cong [of e' e] all_indexed_cong [of e' e]
    book_at_shared(1) [of l e'] book_at_shared(1) [of l e] by auto

text \<open>Two engines that differ at most in book \<open>l\<close>, in the shared parts and in the counters.\<close>

definition same_others :: "u64 \<Rightarrow> engine \<Rightarrow> engine \<Rightarrow> bool" where
  "same_others l e3 e \<longleftrightarrow> (\<forall>b k. book_at k (put_book l b e3) = book_at k (put_book l b e))"

lemma book_at_put_if: "book_at k (put_book l b e) = (if k = l then b else (book_at k e)\<lparr>ob_pool := ob_pool b, ob_index := ob_index b\<rparr>)"
  by (simp add: book_at_put book_at_put_other)

lemma same_others_refl: "(\<And>k. book_at k e3 = book_at k e) \<Longrightarrow> same_others l e3 e"
  by (simp add: same_others_def book_at_put_if)

lemma same_others_put: "same_others l e3 e \<Longrightarrow> same_others l e3 (put_book l b e)"
  by (simp add: same_others_def put_put)

lemma same_others_record: "same_others l e3 e \<Longrightarrow> same_others l (fold (record_trade s o') ts e3) e"
proof -
  have "book_at k (put_book l b (fold (record_trade s o') ts e3)) = book_at k (put_book l b e3)" for b k
    by (simp add: book_at_put_if book_at_record)
  then show "same_others l e3 e \<Longrightarrow> same_others l (fold (record_trade s o') ts e3) e" by (simp add: same_others_def)
qed

lemma evolves_put:
  assumes rep: "engine_rep e R fl" and e3: "same_others l e3 e"
    and b': "book_rep b' R' (others R l) fl'"
    and len: "length (ob_storage b') = length (ob_storage (book_at l e))"
    and fr: "\<forall>y\<in>others R l. ob_storage b' ! unat y = ob_storage (book_at l e) ! unat y"
    and idx: "indexed (book_at l e) (set (own (R l)) \<union> others R l) \<longrightarrow> room \<longrightarrow> indexed b' (set (own R') \<union> others R l)"
  shows "evolves e fl l (book_view b') room (put_book l b' e3)"
proof -
  have eq: "book_at k (put_book l b' e3) = book_at k (put_book l b' e)" for k using e3 by (simp add: same_others_def)
  have rep': "engine_rep (put_book l b' e) (R(l := R')) fl'"
    using engine_rep_put [OF rep b'] len fr by simp
  moreover have "engine_view (put_book l b' e) = (engine_view e)(l := book_view b')"
    using engine_view_put [OF rep b'] len fr by simp
  moreover have "all_indexed (put_book l b' e) fl'" if "all_indexed e fl" room
    unfolding all_indexed_book [OF rep', of l] using that idx all_indexed_book [OF rep, of l]
    by (simp add: book_at_put others_def)
  moreover have "capacity (shared_pool (put_book l b' e)) = capacity (shared_pool e)" using len by (simp add: shared_put)
  ultimately have "evolves e fl l (book_view b') room (put_book l b' e)" unfolding evolves_def by blast
  then show ?thesis by (rule evolves_cong [OF eq])
qed

lemma rest_order_refines:
  assumes rep: "engine_rep e R fl" and e3: "same_others l e3 e"
    and b': "book_rep b' R' (others R l) fl'" and fr: "book_frame (others R l) (book_at l e) b'"
    and idx: "indexed (book_at l e) (set (own (R l)) \<union> others R l) \<longrightarrow> indexed b' (set (own R') \<union> others R l)"
    and fresh: "map_abs (shared_index e) (order_id ord) = None" and s: "side_of ord = s" "s \<noteq> INVALID"
  shows "\<exists>e'. rest_order l ref ord b' out e3 = Some (out @ [if fl' = [] then RSP_ERROR POOL_FULL else RSP_OK ref], e') \<and>
    evolves e fl l (if fl' = [] then book_view b' else (book_view b')(s := enqueue s (core ord) (book_view b' s)))
      (map_room (shared_index e) (order_id ord)) e'"
proof -
  have fresh': "map_abs (ob_index b') (order_id ord) = None" using book_frame_none [OF fr] fresh by simp
  obtain b2 R2 fl2 where add: "addOrder ord b' = Some (fl' \<noteq> [], b2)" and b2: "book_rep b2 R2 (others R l) fl2"
    and len: "length (ob_storage b2) = length (ob_storage b')"
    and F: "\<forall>y\<in>others R l. ob_storage b2 ! unat y = ob_storage b' ! unat y"
    and view: "book_view b2 = (if fl' = [] then book_view b' else (book_view b')(s := enqueue s (core ord) (book_view b' s)))"
    and idx2: "indexed b' (set (own R') \<union> others R l) \<longrightarrow> map_room (ob_index b') (order_id ord) \<longrightarrow> indexed b2 (set (own R2) \<union> others R l)"
    using addOrder_view [OF b' s fresh'] by blast
  have ev: "evolves e fl l (book_view b2) (map_room (shared_index e) (order_id ord)) (put_book l b2 e3)"
    using evolves_put [OF rep e3 b2] len F fr idx idx2 by (simp add: book_frame_def)
  let ?e' = "set_pool_used b2 (if fl' = [] then bump (\<lambda>m. m\<lparr>errors := errors m + 1\<rparr>) (put_book l b2 e3) else put_book l b2 e3)"
  have "evolves e fl l (book_view b2) (map_room (shared_index e) (order_id ord)) ?e'"
    by (rule evolves_cong [OF _ ev]) (simp add: engine_simps)
  then show ?thesis using add by (cases "fl' = []") (simp_all add: rest_order_def fail_with_def view)
qed

section \<open>processAdd\<close>

lemma fail_with_refines:
  assumes "engine_rep e R fl" and "\<And>k. book_at k e' = book_at k e"
  shows "\<exists>e2. Some (fail_with code out e') = Some (out @ [RSP_ERROR code], e2) \<and>
    evolves e fl l (engine_view e l) room e2"
  using evolves_same [OF assms(1), of "bump (\<lambda>m. m\<lparr>errors := errors m + 1\<rparr>) e'"] assms(2)
  by (simp add: fail_with_def engine_simps)

text \<open>The part of \<^verbatim>\<open>processAdd\<close> after its checks, and what it does to the queues.\<close>

definition accept_order :: "u64 \<Rightarrow> order_tif \<Rightarrow> order \<Rightarrow> order_book \<Rightarrow> response list \<Rightarrow> engine \<Rightarrow> (response list \<times> engine) option" where
  "accept_order locate tif ord book out e2 = do {
     (book1, ord1, out1, e3) \<leftarrow> match_order (side_of ord) locate book ord out e2;
     let e4 = put_book locate book1 e3;
     if status ord1 = FILLED then Some (out1 @ [RSP_FILLED (order_id ord)], set_pool_used book1 e4)
     else if tif = IOC then
       (if filled_qty ord1 = 0 then Some (fail_with MKT_NO_LIQUIDITY out1 e4) else Some (out1, e4))
     else if tif = FOK then
       (if filled_qty ord1 < original_qty ord then Some (fail_with FOK_NO_FULL_FILL out1 e4) else Some (out1, e4))
     else if status ord1 = OPEN \<or> status ord1 = PARTIALLY_FILLED then rest_order locate (order_id ord) ord1 book1 out1 e4
     else Some (out1, e4)
   }"

lemma rest_order_put: "rest_order l ref ord b out (put_book l b' e) = rest_order l ref ord b out e"
  by (simp add: rest_order_def put_put)

lemma accept_order_refines:
  assumes rep: "engine_rep e R fl" and e2: "same_others l e2 e"
    and o': "side_of o' \<noteq> INVALID" "status o' = OPEN" and fresh: "map_abs (shared_index e) (order_id o') = None"
    and spec: "spec_accept (length fl) l tif o' (engine_view e l) = (rs, Q)"
  shows "\<exists>e'. accept_order l tif o' (book_at l e) out e2 = Some (out @ rs, e') \<and>
    evolves e fl l Q (map_room (shared_index e) (order_id o')) e'"
proof -
  let ?s = "side_of o'" and ?V = "engine_view e l"
  have V: "?V = book_view (book_at l e)" by (simp add: engine_view_def)
  obtain ord q ts where mq: "match_queue ?s o' (?V (opp ?s)) = (ord, q, ts)" by (cases "match_queue ?s o' (?V (opp ?s))")
  note mt = match_queue_matches [OF mq]
  obtain b1 R1 fl1 where m: "match_order ?s l (book_at l e) o' out e2 =
       Some (b1, ord, out @ map (trade_rsp l ?s) ts, fold (record_trade ?s o') ts e2)"
    and b1: "book_rep b1 R1 (others R l) fl1" and fr: "book_frame (others R l) (book_at l e) b1"
    and v: "book_view b1 = ?V(opp ?s := q)" and fl1: "length fl1 + length q = length fl + length (?V (opp ?s))"
    and idx: "indexed (book_at l e) (set (own (R l)) \<union> others R l) \<longrightarrow> indexed b1 (set (own R1) \<union> others R l)"
    using match_order_view [OF engine_repD [OF rep] o'(1) mq [unfolded V], of l out e2] V by auto
  let ?e3 = "fold (record_trade ?s o') ts e2"
  have e3: "same_others l ?e3 e" using e2 by (rule same_others_record)
  have ev: "evolves e fl l (?V(opp ?s := q)) room (put_book l b1 ?e3)" for room
    using evolves_put [OF rep e3 b1, of room] fr idx v by (auto simp: book_frame_def)
  have ev': "evolves e fl l (?V(opp ?s := q)) room e4" if "\<And>k. book_at k e4 = book_at k (put_book l b1 ?e3)" for room e4
    using evolves_cong [OF that ev] .
  have st: "status ord = OPEN \<or> status ord = PARTIALLY_FILLED" if "status ord \<noteq> FILLED"
    using that matches_status(1) [OF mt] o'(2) by (simp split: if_splits)
  note f = matches_fields [OF mt]
  have rest: "\<exists>e'. rest_order l (order_id o') ord b1 (out @ map (trade_rsp l ?s) ts) ?e3 =
      Some ((out @ map (trade_rsp l ?s) ts) @ [if fl1 = [] then RSP_ERROR POOL_FULL else RSP_OK (order_id o')], e') \<and>
      evolves e fl l (if fl1 = [] then book_view b1 else (book_view b1)(?s := enqueue ?s (core ord) (book_view b1 ?s)))
        (map_room (shared_index e) (order_id o')) e'"
    using rest_order_refines [OF rep e3 b1 fr idx, of ord ?s "order_id o'" "out @ map (trade_rsp l ?s) ts"] fresh o'(1) f by simp
  have full: "fl1 = [] \<longleftrightarrow> length fl + length (?V (opp ?s)) = length q" using fl1 by auto
  have vs: "book_view b1 ?s = ?V ?s" using opp_neq [OF o'(1)] v by (auto simp: fun_upd_def)
  show ?thesis
  proof (cases "status ord = FILLED \<or> tif = IOC \<or> tif = FOK")
    case True
    then show ?thesis using spec m ev'
      by (auto simp: accept_order_def spec_accept_def mq fail_with_def engine_simps Let_def split: if_splits)
  next
    case False
    have acc: "accept_order l tif o' (book_at l e) out e2 =
        rest_order l (order_id o') ord b1 (out @ map (trade_rsp l ?s) ts) ?e3"
      using False st m by (auto simp: accept_order_def rest_order_put Let_def)
    show ?thesis unfolding acc using rest spec False full vs v
      by (cases "fl1 = []") (auto simp: spec_accept_def mq Let_def)
  qed
qed

lemma processAdd_unfold:
  "processAdd l ref s pr quantity uid tif out e =
     (case book_for l (bump (\<lambda>m. m\<lparr>new_orders := new_orders m + 1\<rparr>) e) of
        (None, e1) \<Rightarrow> Some (fail_with INVALID_COMMAND_TYPE out e1)
      | (Some book, e1) \<Rightarrow>
          if s = INVALID then Some (fail_with INVALID_SIDE out e1)
          else if (tif = DAY \<and> pr = 0) \<or> quantity = 0 \<or> uid = 0 \<or> ref = 0 then Some (fail_with INVALID_PRICE_QTY_USER out e1)
          else do {
            ok \<leftarrow> (if tif = FOK then canFullFill book s (add_limit s pr tif) quantity else Some True);
            if \<not> ok then Some (fail_with FOK_NO_FULL_FILL out e1)
            else accept_order l tif (incoming uid ref s (add_limit s pr tif) quantity (next_sequence e1)) book out
              (wal_log \<lparr>we_type = 0x01, we_side = (if s = BUY then 0x01 else 0x02), we_locate = ucast l,
                 we_price = add_limit s pr tif, we_quantity = quantity, we_user_id = uid, we_order_id = ref,
                 we_wal_seq = next_sequence e1 + 1\<rparr> (e1\<lparr>next_sequence := next_sequence e1 + 1\<rparr>))
          })"
proof -
  have mk: "((tif = IOC \<or> tif = FOK) \<and> pr = 0) = (tif \<noteq> DAY \<and> pr = 0)"
    "(\<not> (tif \<noteq> DAY \<and> pr = 0) \<and> pr = 0) = (tif = DAY \<and> pr = 0)" by (cases tif; simp)+
  have sel: "side_of (incoming u r s p q n) = s" "order_id (incoming u r s p q n) = r"
    "original_qty (incoming u r s p q n) = q" "price (incoming u r s p q n) = p"
    "next_sequence (e1\<lparr>next_sequence := n\<rparr>) = n" for u r s p q n and e1 :: engine
    by (simp_all add: incoming_def)
  show ?thesis
    unfolding processAdd_def Let_def mk accept_order_def incoming_def [symmetric] add_limit_def [symmetric] sel
    by (rule refl)
qed

lemma processAdd_refines:
  assumes rep: "engine_rep e R fl" and fresh: "map_abs (shared_index e) ref = None"
    and spec: "spec_add (length fl) l ref s pr quantity uid tif (next_sequence e) (engine_view e l) = (rs, Q)"
  shows "\<exists>e'. processAdd l ref s pr quantity uid tif out e = Some (out @ rs, e') \<and>
    evolves e fl l Q (map_room (shared_index e) ref) e'"
proof -
  let ?e1 = "bump (\<lambda>m. m\<lparr>new_orders := new_orders m + 1\<rparr>) e" and ?room = "map_room (shared_index e) ref"
  have b1: "book_at k ?e1 = book_at k e" "book_at k (touch l ?e1) = book_at k e" for k by (simp_all add: engine_simps)
  note fails = fail_with_refines [OF rep b1(1), of _ out l ?room] fail_with_refines [OF rep b1(2), of _ out l ?room]
  have avail: "canFullFill (book_at l e) s lim quantity = Some (fillable_qty s lim (engine_view e l (opp s)) \<ge> quantity)"
    if "s \<noteq> INVALID" for lim
    using that availableQty_rep [OF engine_repD [OF rep, of l] that, of lim]
    by (simp add: canFullFill_def fillable_qty_def engine_view_def book_view_def)
  let ?bad = "(tif = DAY \<and> pr = 0) \<or> quantity = 0 \<or> uid = 0 \<or> ref = 0"
  let ?short = "tif = FOK \<and> fillable_qty s (add_limit s pr tif) (engine_view e l (opp s)) < quantity"
  have bk: "book_for l ?e1 = (Some (book_at l e), touch l ?e1)" if "\<not> kMaxLocate \<le> l"
    using that by (simp add: book_for_eq engine_simps)
  have fk: "(if tif = FOK then canFullFill (book_at l e) s (add_limit s pr tif) quantity else Some True) = Some (\<not> ?short)"
    if "s \<noteq> INVALID" using avail [OF that] by (simp add: not_less)
  have fkF: "(if tif = FOK then canFullFill (book_at l e) s (add_limit s pr tif) quantity else Some True) = Some False"
    if "s \<noteq> INVALID" ?short
  proof -
    have "(\<not> ?short) = False" using that(2) by blast
    from fk [OF that(1)] arg_cong [OF this, of Some] show ?thesis by (rule trans)
  qed
  have fkT: "(if tif = FOK then canFullFill (book_at l e) s (add_limit s pr tif) quantity else Some True) = Some True"
    if "s \<noteq> INVALID" "\<not> ?short"
  proof -
    have "(\<not> ?short) = True" using that(2) by blast
    from fk [OF that(1)] arg_cong [OF this, of Some] show ?thesis by (rule trans)
  qed
  have ns: "next_sequence (touch l ?e1) = next_sequence e" by (simp add: engine_simps)
  consider (locate) "kMaxLocate \<le> l" | (side) "\<not> kMaxLocate \<le> l" "s = INVALID"
    | (bad) "\<not> kMaxLocate \<le> l" "s \<noteq> INVALID" ?bad
    | (short) "\<not> kMaxLocate \<le> l" "s \<noteq> INVALID" "\<not> ?bad" ?short
    | (ok) "\<not> kMaxLocate \<le> l" "s \<noteq> INVALID" "\<not> ?bad" "\<not> ?short" by blast
  then show ?thesis
  proof cases
    case locate
    then have "rs = [RSP_ERROR INVALID_COMMAND_TYPE]" "Q = engine_view e l" using spec by (simp_all add: spec_add_def)
    then show ?thesis using locate fails(1) by (simp add: processAdd_unfold book_for_eq)
  next
    case side
    then have "rs = [RSP_ERROR INVALID_SIDE]" "Q = engine_view e l" using spec by (simp_all add: spec_add_def)
    then show ?thesis using side fails(2) by (simp add: processAdd_unfold book_for_eq)
  next
    case bad
    then have "rs = [RSP_ERROR INVALID_PRICE_QTY_USER]" "Q = engine_view e l" using spec by (simp_all only: spec_add_def if_True if_False prod.inject)
    then show ?thesis using fails(2)
      unfolding processAdd_unfold bk [OF bad(1)] prod.case option.case if_not_P [OF bad(2)] if_P [OF bad(3)] by simp
  next
    case short
    have "rs = [RSP_ERROR FOK_NO_FULL_FILL]" "Q = engine_view e l"
      using spec unfolding spec_add_def if_not_P [OF short(1)] if_not_P [OF short(2)] if_not_P [OF short(3)] if_P [OF short(4)]
      by simp_all
    then show ?thesis using fails(2)
      unfolding processAdd_unfold bk [OF short(1)] prod.case option.case if_not_P [OF short(2)] if_not_P [OF short(3)]
        fkF [OF short(2,4)] by simp
  next
    case ok
    let ?o = "incoming uid ref s (add_limit s pr tif) quantity (next_sequence e)"
    let ?en = "\<lparr>we_type = 0x01, we_side = (if s = BUY then 0x01 else 0x02), we_locate = ucast l,
                 we_price = add_limit s pr tif, we_quantity = quantity, we_user_id = uid, we_order_id = ref,
                 we_wal_seq = next_sequence e + 1\<rparr>"
    let ?e2 = "wal_log ?en ((touch l ?e1)\<lparr>next_sequence := next_sequence e + 1\<rparr>)"
    have p: "processAdd l ref s pr quantity uid tif out e = accept_order l tif ?o (book_at l e) out ?e2"
      unfolding processAdd_unfold bk [OF ok(1)] prod.case option.case if_not_P [OF ok(2)] if_not_P [OF ok(3)]
        fkT [OF ok(2,4)] ns by simp
    have o': "side_of ?o = s" "order_id ?o = ref" "status ?o = OPEN" by (simp_all add: incoming_def)
    have "spec_accept (length fl) l tif ?o (engine_view e l) = (rs, Q)"
      using ok spec by (simp only: spec_add_def if_False)
    then show ?thesis using accept_order_refines [OF rep same_others_refl, of ?e2 ?o l tif rs Q out] ok(2) fresh o'
      by (simp add: p engine_simps)
  qed
qed

end
