(* ===== verification/Engine_Cancel.thy ===== *)
theory Engine_Cancel
  imports Engine_Spec
begin

text \<open>
  Cancelling and replacing: the specifications of \<^verbatim>\<open>processCancel\<close>, \<^verbatim>\<open>processCancelShares\<close> and
  \<^verbatim>\<open>processReplace\<close> on the queues, and their refinement proofs.  They rely on a complete index and
  on requests that name the book their order rests in.
\<close>

section \<open>Finding an order by its reference\<close>

definition find_ref :: "u64 \<Rightarrow> (side \<Rightarrow> order list) \<Rightarrow> order option" where
  "find_ref ref Q = find (\<lambda>r. order_id r = ref) (Q BUY @ Q SELL)"

definition drop_ref :: "u64 \<Rightarrow> (side \<Rightarrow> order list) \<Rightarrow> side \<Rightarrow> order list" where
  "drop_ref ref Q s = filter (\<lambda>r. order_id r \<noteq> ref) (Q s)"

definition change_ref :: "u64 \<Rightarrow> (order \<Rightarrow> order) \<Rightarrow> (side \<Rightarrow> order list) \<Rightarrow> side \<Rightarrow> order list" where
  "change_ref ref f Q s = map (\<lambda>r. if order_id r = ref then f r else r) (Q s)"

text \<open>No other book holds an order of that reference.\<close>

definition routed :: "engine \<Rightarrow> u64 \<Rightarrow> u64 \<Rightarrow> bool" where
  "routed e l ref \<longleftrightarrow> (\<forall>k. k \<noteq> l \<longrightarrow> find_ref ref (engine_view e k) = None)"

lemma view_own:
  assumes "book_rep b R F fl"
  shows "book_view b BUY @ book_view b SELL = map (\<lambda>i. core (ob_storage b ! unat i)) (own R)"
  using queue_of_rep [OF assms] by (simp add: book_view_def own_def)

lemma find_map: "find P (map f xs) = map_option f (find (P \<circ> f) xs)"
  by (induction xs) auto

lemma find_ref_rep:
  assumes "book_rep b R F fl"
  shows "find_ref ref (book_view b) = map_option (\<lambda>i. core (ob_storage b ! unat i)) (find (\<lambda>i. order_id (ob_storage b ! unat i) = ref) (own R))"
  by (simp add: find_ref_def view_own [OF assms] find_map comp_def)

lemma find_unique: "x \<in> set xs \<Longrightarrow> P x \<Longrightarrow> \<forall>y\<in>set xs. P y \<longrightarrow> y = x \<Longrightarrow> find P xs = Some x"
proof (induction xs)
  case (Cons a xs)
  show ?case
  proof (cases "P a")
    case True
    then have "a = x" using Cons.prems(3) by simp
    then show ?thesis using True by simp
  next
    case False
    then have "x \<in> set xs" using Cons.prems(1,2) by auto
    moreover have "\<forall>y\<in>set xs. P y \<longrightarrow> y = x" using Cons.prems(3) by (meson list.set_intros(2))
    ultimately have "find P xs = Some x" using Cons.IH Cons.prems(2) by blast
    then show ?thesis using False by simp
  qed
qed simp

lemma indexed_unique:
  "indexed b S \<Longrightarrow> i \<in> S \<Longrightarrow> j \<in> S \<Longrightarrow> order_id (ob_storage b ! unat i) = order_id (ob_storage b ! unat j) \<Longrightarrow> i = j"
  unfolding indexed_def by (metis option.inject)

lemma lookup_found:
  assumes rep: "engine_rep e R fl" and idx: "all_indexed e fl" and rt: "routed e l ref"
    and m: "map_abs (shared_index e) ref = Some x"
  shows "x \<in> set (own (R l))" and "order_id (ob_storage (book_at l e) ! unat x) = ref"
    and "find_ref ref (engine_view e l) = Some (core (ob_storage (book_at l e) ! unat x))"
proof -
  have ix: "indexed (book_at l e) (set (own (R l)) \<union> others R l)" using idx all_indexed_book [OF rep, of l] by simp
  have bl: "book_rep (book_at k e) (R k) (others R k) fl" for k using rep by (rule engine_repD)
  show id: "order_id (ob_storage (book_at l e) ! unat x) = ref" using book_rep_index_id [OF bl [of l]] m by simp
  show x: "x \<in> set (own (R l))"
  proof (rule ccontr)
    assume "x \<notin> set (own (R l))"
    then have "x \<in> others R l" using book_rep_index [OF bl [of l]] m by auto
    then obtain k where k: "k \<noteq> l" "x \<in> set (own (R k))" by (auto simp: others_def)
    have "find_ref ref (engine_view e k) \<noteq> None"
      using k id by (auto simp: engine_view_def find_ref_rep [OF bl [of k]] find_None_iff)
    then show False using rt k by (simp add: routed_def)
  qed
  have "find (\<lambda>i. order_id (ob_storage (book_at l e) ! unat i) = ref) (own (R l)) = Some x"
    using x id indexed_unique [OF ix] by (intro find_unique) auto
  then show "find_ref ref (engine_view e l) = Some (core (ob_storage (book_at l e) ! unat x))"
    by (simp add: engine_view_def find_ref_rep [OF bl [of l]])
qed

lemma lookup_missing:
  assumes rep: "engine_rep e R fl" and idx: "all_indexed e fl" and m: "map_abs (shared_index e) ref = None"
  shows "find_ref ref (engine_view e l) = None"
proof -
  have ix: "indexed (book_at l e) (set (own (R l)) \<union> others R l)" using idx all_indexed_book [OF rep, of l] by simp
  then have "order_id (ob_storage (book_at l e) ! unat i) \<noteq> ref" if "i \<in> set (own (R l))" for i
    using m that by (auto simp: indexed_def)
  then show ?thesis by (simp add: engine_view_def find_ref_rep [OF engine_repD [OF rep, of l]] find_None_iff)
qed

section \<open>Removing and changing an order\<close>

lemma own_cases:
  assumes "x \<in> set (own R)" obtains s where "s \<noteq> INVALID" "x \<in> set (concat (R s))"
  using assms by (auto simp: own_def)

lemma remove1_filter: "distinct xs \<Longrightarrow> remove1 x xs = filter (\<lambda>y. y \<noteq> x) xs"
  by (simp add: distinct_remove1_removeAll removeAll_filter_not_eq) (metis (mono_tags))

lemma removeOrder_view:
  assumes rep: "book_rep b R F fl" and ix: "indexed b (set (own R) \<union> F)" and x: "x \<in> set (own R)"
    and ref: "order_id (ob_storage b ! unat x) = ref"
  shows "\<exists>b' R'. removeOrder_ptr x b = Some b' \<and> book_rep b' R' F (x # fl) \<and> book_frame F b b' \<and>
    book_view b' = drop_ref ref (book_view b) \<and> indexed b' (set (own R') \<union> F) \<and>
    map_abs (ob_index b') = (map_abs (ob_index b))(ref := None)"
proof -
  obtain s where s: "s \<noteq> INVALID" "x \<in> set (concat (R s))" using x by (rule own_cases)
  obtain b' ss where rm: "removeOrder_ptr x b = Some b'" "book_rep b' (R(s := ss)) F (x # fl)"
    "concat ss = remove1 x (concat (R s))" "length (ob_storage b') = length (ob_storage b)"
    and co: "\<And>y :: u32. core (ob_storage b' ! unat y) = core (ob_storage b ! unat y)"
    and F: "\<forall>y\<in>F. ob_storage b' ! unat y = ob_storage b ! unat y"
    and m: "map_abs (ob_index b') = (map_abs (ob_index b))(order_id (ob_storage b ! unat x) := None)"
      "map_erase (order_id (ob_storage b ! unat x)) (ob_index b) = Some (ob_index b')"
    using removeOrder_ptr_ok [OF rep s] by blast
  have own': "set (own (R(s := ss))) = set (own R) - {x}"
    using own_upd [OF book_rep_distinct [OF rep] s(1), of ss] own_sub_distinct [OF s(1) book_rep_distinct [OF rep]]
      own_side [OF s(1), of R] s(2) by (auto simp: rm(3))
  have "indexed b' (set (own R) \<union> F - {x})" using indexed_remove [OF rep ix _ co m(1)] x by simp
  moreover have "F - {x} = F" using x book_rep_disj [OF rep] by auto
  ultimately have ix': "indexed b' (set (own (R(s := ss))) \<union> F)" by (simp add: own' Un_Diff)
  let ?f = "\<lambda>i. core (ob_storage b ! unat i)"
  have key: "(order_id (?f y) \<noteq> ref) = (y \<noteq> x)" if "y \<in> set (own R)" for y
    using indexed_unique [OF ix, of y x] that x ref by auto
  have q: "queue_of t b' = filter (\<lambda>r. order_id r \<noteq> ref) (queue_of t b)" if t: "t \<noteq> INVALID" for t
  proof -
    have sub: "set (concat (R t)) \<subseteq> set (own R)" using t by (rule own_side)
    have "concat ((R(s := ss)) t) = filter (\<lambda>y. y \<noteq> x) (concat (R t))"
    proof (cases "t = s")
      case True
      then show ?thesis using rm(3) remove1_filter [OF own_sub_distinct [OF s(1) book_rep_distinct [OF rep]]] by simp
    next
      case False
      then have "x \<notin> set (concat (R t))" using other_side_disjoint [OF t s(1) _ book_rep_distinct [OF rep] s(2)] by auto
      then have "filter (\<lambda>y. y \<noteq> x) (concat (R t)) = concat (R t)" by (intro filter_True) auto
      then show ?thesis using False by simp
    qed
    then have "queue_of t b' = map ?f (filter (\<lambda>y. y \<noteq> x) (concat (R t)))"
      using queue_of_rep [OF rm(2) t] co by simp
    also have "\<dots> = map ?f (filter (\<lambda>y. order_id (?f y) \<noteq> ref) (concat (R t)))"
      using key sub by (intro arg_cong [where f = "map ?f"] filter_cong) auto
    finally show ?thesis using queue_of_rep [OF rep t] by (simp add: filter_map comp_def)
  qed
  have "book_view b' = drop_ref ref (book_view b)" using q by (auto simp: book_view_def drop_ref_def fun_eq_iff)
  then show ?thesis
    using rm ix' removeOrder_ptr_frame [OF rep m(2) rm(4) F m(1)] m(1) ref by blast
qed

lemma reduceQtyCancel_view:
  assumes rep: "book_rep b R F fl" and ix: "indexed b (set (own R) \<union> F)" and x: "x \<in> set (own R)"
    and ref: "order_id (ob_storage b ! unat x) = ref"
  shows "\<exists>b'. reduceQtyCancel x n b = Some b' \<and> book_rep b' R F fl \<and> book_frame F b b' \<and>
    book_view b' = change_ref ref (\<lambda>r. r\<lparr>remaining_qty := remaining_qty r - n\<rparr>) (book_view b) \<and> indexed b' (set (own R) \<union> F)"
proof -
  obtain s where s: "s \<noteq> INVALID" "x \<in> set (concat (R s))" using x by (rule own_cases)
  have xb: "unat x < length (ob_storage b)" "x \<notin> F" using own_bound [OF rep, of x] x book_rep_disj [OF rep] by auto
  obtain b' where b': "reduceQtyCancel x n b = Some b'" "book_rep b' R F fl" "ob_index b' = ob_index b"
    and st: "ob_storage b' = (ob_storage b)[unat x := (ob_storage b ! unat x)\<lparr>remaining_qty := remaining_qty (ob_storage b ! unat x) - n\<rparr>]"
    using reduceQtyCancel_ok [OF rep s, of n] by blast
  let ?f = "\<lambda>i. core (ob_storage b ! unat i)" and ?g = "\<lambda>r. if order_id r = ref then r\<lparr>remaining_qty := remaining_qty r - n\<rparr> else r"
  have key: "core (ob_storage b' ! unat y) = ?g (?f y)" if "y \<in> set (own R)" for y
  proof (cases "y = x")
    case True
    then show ?thesis using xb ref by (simp add: st)
  next
    case False
    then have "order_id (ob_storage b ! unat y) \<noteq> ref" using indexed_unique [OF ix, of y x] that x ref by auto
    then show ?thesis using False xb by (simp add: st)
  qed
  have q: "queue_of t b' = map ?g (queue_of t b)" if t: "t \<noteq> INVALID" for t
    using key own_side [OF t, of R] by (auto simp: queue_of_rep [OF b'(2) t] queue_of_rep [OF rep t])
  have "book_view b' = change_ref ref (\<lambda>r. r\<lparr>remaining_qty := remaining_qty r - n\<rparr>) (book_view b)"
    using q by (auto simp: book_view_def change_ref_def fun_eq_iff)
  moreover have "book_frame F b b'" using xb b'(3) by (auto simp: book_frame_def st)
  moreover have "indexed b' (set (own R) \<union> F)" using ix xb b'(3) by (simp add: indexed_def st)
  ultimately show ?thesis using b' by blast
qed

section \<open>Specifications of the handlers\<close>

definition spec_cancel :: "u64 \<Rightarrow> u64 \<Rightarrow> u64 \<Rightarrow> (side \<Rightarrow> order list) \<Rightarrow> response list \<times> (side \<Rightarrow> order list)" where
  "spec_cancel locate ref uid Q =
     (case (if locate \<ge> kMaxLocate then None else find_ref ref Q) of
        None \<Rightarrow> ([RSP_ERROR ORDER_NOT_FOUND], Q)
      | Some r \<Rightarrow> if user_id r \<noteq> uid then ([RSP_ERROR ORDER_NOT_FOUND], Q)
                  else ([RSP_CANCELLED ref], drop_ref ref Q))"

definition spec_cancel_shares :: "u64 \<Rightarrow> u64 \<Rightarrow> u32 \<Rightarrow> u64 \<Rightarrow> (side \<Rightarrow> order list) \<Rightarrow> response list \<times> (side \<Rightarrow> order list)" where
  "spec_cancel_shares locate ref shares uid Q =
     (case (if locate \<ge> kMaxLocate then None else find_ref ref Q) of
        None \<Rightarrow> ([RSP_ERROR ORDER_NOT_FOUND], Q)
      | Some r \<Rightarrow> if user_id r \<noteq> uid then ([RSP_ERROR ORDER_NOT_FOUND], Q)
                  else if shares \<ge> remaining_qty r then ([RSP_CANCELLED ref], drop_ref ref Q)
                  else ([RSP_OK ref], change_ref ref (\<lambda>r. r\<lparr>remaining_qty := remaining_qty r - shares\<rparr>) Q))"

text \<open>A replacement gives the new order the reference \<open>new_ref\<close> as its user, too.\<close>

definition spec_replace :: "nat \<Rightarrow> u64 \<Rightarrow> u64 \<Rightarrow> u64 \<Rightarrow> side \<Rightarrow> u32 \<Rightarrow> u32 \<Rightarrow> u64 \<Rightarrow> u64 \<Rightarrow> (side \<Rightarrow> order list) \<Rightarrow>
    response list \<times> (side \<Rightarrow> order list)" where
  "spec_replace free locate old_ref new_ref s pr quantity uid seq Q =
     (case (if locate \<ge> kMaxLocate then None else find_ref old_ref Q) of
        None \<Rightarrow> ([RSP_ERROR ORDER_NOT_FOUND], Q)
      | Some r \<Rightarrow> if user_id r \<noteq> uid then ([RSP_ERROR ORDER_NOT_FOUND], Q)
                  else spec_accept (Suc free) locate DAY (incoming new_ref new_ref s pr quantity seq) (drop_ref old_ref Q))"

section \<open>Refinement\<close>

lemma book_at_wal_touch:
  "book_at k (wal_log en (touch l (bump f e))) = book_at k e"
  by (simp add: engine_simps)

lemma book_for_bump: "\<not> kMaxLocate \<le> l \<Longrightarrow> book_for l (bump f e) = (Some (book_at l e), touch l (bump f e))"
  by (simp add: book_for_eq engine_simps)

lemma touch_bump_seq: "next_sequence (touch l (bump f e)) = next_sequence e"
  by (simp add: engine_simps)

lemma find_index:
  assumes "engine_rep e R fl"
  shows "map_find (ob_index (book_at l e)) ref = Some (map_abs (shared_index e) ref)"
  using map_find_abs [OF book_rep_map [OF engine_repD [OF assms, of l]]] by simp

lemma pool_at_own:
  assumes "engine_rep e R fl" and "x \<in> set (own (R l))"
  shows "pool_at (ob_pool (book_at l e)) x = Some (ob_storage (book_at l e) ! unat x)"
  using own_bound(1) [OF engine_repD [OF assms(1), of l], of x] assms(2) by (simp add: pool_at_def arr_get_Some)

lemma evolves_remove:
  assumes rep: "engine_rep e R fl" and idx: "all_indexed e fl" and e3: "same_others l e3 e"
    and x: "x \<in> set (own (R l))" and ref: "order_id (ob_storage (book_at l e) ! unat x) = ref"
  shows "\<exists>b'. removeOrder_ptr x (book_at l e) = Some b' \<and>
    evolves e fl l (drop_ref ref (engine_view e l)) room (put_book l b' e3)"
proof -
  have ix: "indexed (book_at l e) (set (own (R l)) \<union> others R l)" using idx all_indexed_book [OF rep, of l] by simp
  obtain b' R' where rm: "removeOrder_ptr x (book_at l e) = Some b'" "book_rep b' R' (others R l) (x # fl)"
    "book_frame (others R l) (book_at l e) b'" "book_view b' = drop_ref ref (engine_view e l)" "indexed b' (set (own R') \<union> others R l)"
    using removeOrder_view [OF engine_repD [OF rep] ix x ref] by (auto simp: engine_view_def)
  show ?thesis using evolves_put [OF rep e3 rm(2)] rm by (auto simp: book_frame_def)
qed

lemma evolves_reduce:
  assumes rep: "engine_rep e R fl" and idx: "all_indexed e fl" and e3: "same_others l e3 e"
    and x: "x \<in> set (own (R l))" and ref: "order_id (ob_storage (book_at l e) ! unat x) = ref"
  shows "\<exists>b'. reduceQtyCancel x n (book_at l e) = Some b' \<and>
    evolves e fl l (change_ref ref (\<lambda>r. r\<lparr>remaining_qty := remaining_qty r - n\<rparr>) (engine_view e l)) room (put_book l b' e3)"
proof -
  have ix: "indexed (book_at l e) (set (own (R l)) \<union> others R l)" using idx all_indexed_book [OF rep, of l] by simp
  obtain b' where rm: "reduceQtyCancel x n (book_at l e) = Some b'" "book_rep b' (R l) (others R l) fl"
    "book_frame (others R l) (book_at l e) b'" "indexed b' (set (own (R l)) \<union> others R l)"
    "book_view b' = change_ref ref (\<lambda>r. r\<lparr>remaining_qty := remaining_qty r - n\<rparr>) (engine_view e l)"
    using reduceQtyCancel_view [OF engine_repD [OF rep] ix x ref] by (auto simp: engine_view_def)
  show ?thesis using evolves_put [OF rep e3 rm(2)] rm by (auto simp: book_frame_def)
qed

lemma processCancel_refines:
  assumes rep: "engine_rep e R fl" and idx: "all_indexed e fl" and rt: "routed e l ref"
    and spec: "spec_cancel l ref uid (engine_view e l) = (rs, Q)"
  shows "\<exists>e'. processCancel l ref uid out e = Some (out @ rs, e') \<and> evolves e fl l Q True e'"
proof -
  let ?e1 = "bump (\<lambda>m. m\<lparr>cancels := cancels m + 1\<rparr>) e" and ?b = "book_at l e"
  define e2 where "e2 = wal_log \<lparr>we_type = 0x02, we_side = 0, we_locate = ucast l, we_price = 0, we_quantity = 0,
                      we_user_id = uid, we_order_id = ref, we_wal_seq = next_sequence e\<rparr> (touch l ?e1)"
  have e2: "book_at k e2 = book_at k e" for k by (simp add: e2_def book_at_wal_touch)
  have keep: "book_at k (put_book l ?b e2) = book_at k e" for k using put_book_at [of k l e2] e2 by simp
  note fails = fail_with_refines [OF rep keep, of ORDER_NOT_FOUND out l True]
  show ?thesis
  proof (cases "kMaxLocate \<le> l")
    case True
    then show ?thesis using spec fail_with_refines [OF rep, of ?e1 ORDER_NOT_FOUND out l True]
      by (simp add: processCancel_def book_for_eq spec_cancel_def engine_simps)
  next
    case l: False
    have p: "processCancel l ref uid out e = do {
        (removed, book1) \<leftarrow> removeOrder ref uid ?b;
        if removed then Some (out @ [RSP_CANCELLED ref], put_book l book1 e2)
        else Some (fail_with ORDER_NOT_FOUND out (put_book l book1 e2)) }"
      unfolding processCancel_def book_for_bump [OF l] prod.case option.case Let_def touch_bump_seq e2_def by (rule refl)
    show ?thesis
    proof (cases "map_abs (shared_index e) ref")
      case None
      have "rs = [RSP_ERROR ORDER_NOT_FOUND]" "Q = engine_view e l"
        using spec l lookup_missing [OF rep idx None, of l] by (simp_all add: spec_cancel_def)
      then show ?thesis using fails find_index [OF rep] by (simp add: p removeOrder_def None)
    next
      case (Some x)
      note lk = lookup_found [OF rep idx rt Some]
      have rm: "removeOrder ref uid ?b = (if user_id (ob_storage ?b ! unat x) \<noteq> uid then Some (False, ?b)
          else do { b' \<leftarrow> removeOrder_ptr x ?b; Some (True, b') })"
        using find_index [OF rep] pool_at_own [OF rep lk(1)] by (simp add: removeOrder_def Some)
      obtain b' where b': "removeOrder_ptr x ?b = Some b'" "evolves e fl l (drop_ref ref (engine_view e l)) True (put_book l b' e2)"
        using evolves_remove [OF rep idx same_others_refl lk(1,2), of e2 True] e2 by blast
      show ?thesis
        using spec lk(3) l fails b' by (auto simp: p rm spec_cancel_def split: if_splits)
    qed
  qed
qed

lemma processCancelShares_refines:
  assumes rep: "engine_rep e R fl" and idx: "all_indexed e fl" and rt: "routed e l ref"
    and spec: "spec_cancel_shares l ref shares uid (engine_view e l) = (rs, Q)"
  shows "\<exists>e'. processCancelShares l ref shares uid out e = Some (out @ rs, e') \<and> evolves e fl l Q True e'"
proof -
  let ?e1 = "bump (\<lambda>m. m\<lparr>cancels := cancels m + 1\<rparr>) e" and ?b = "book_at l e"
  define e2 where "e2 = wal_log \<lparr>we_type = 0x03, we_side = 0, we_locate = ucast l, we_price = 0, we_quantity = shares,
                      we_user_id = uid, we_order_id = ref, we_wal_seq = next_sequence e\<rparr> (touch l ?e1)"
  have e2: "book_at k e2 = book_at k e" for k by (simp add: e2_def book_at_wal_touch)
  note fails = fail_with_refines [OF rep e2, of ORDER_NOT_FOUND out l True]
  show ?thesis
  proof (cases "kMaxLocate \<le> l")
    case True
    then show ?thesis using spec fail_with_refines [OF rep, of ?e1 ORDER_NOT_FOUND out l True]
      by (simp add: processCancelShares_def book_for_eq spec_cancel_shares_def engine_simps)
  next
    case l: False
    have p: "processCancelShares l ref shares uid out e =
        (case map_abs (shared_index e) ref of
           None \<Rightarrow> Some (fail_with ORDER_NOT_FOUND out e2)
         | Some idx \<Rightarrow> do {
             r \<leftarrow> pool_at (ob_pool ?b) idx;
             if user_id r \<noteq> uid then Some (fail_with ORDER_NOT_FOUND out e2)
             else if shares \<ge> remaining_qty r then do {
               book1 \<leftarrow> removeOrder_ptr idx ?b;
               Some (out @ [RSP_CANCELLED ref], put_book l book1 e2)
             } else do {
               book1 \<leftarrow> reduceQtyCancel idx shares ?b;
               Some (out @ [RSP_OK ref], put_book l book1 e2)
             } })"
      unfolding processCancelShares_def book_for_bump [OF l] prod.case option.case Let_def touch_bump_seq e2_def
        findOrder_def find_index [OF rep] bind.bind_lunit by (rule refl)
    show ?thesis
    proof (cases "map_abs (shared_index e) ref")
      case None
      have "rs = [RSP_ERROR ORDER_NOT_FOUND]" "Q = engine_view e l"
        using spec l lookup_missing [OF rep idx None, of l] by (simp_all add: spec_cancel_shares_def)
      then show ?thesis using fails by (simp add: p None)
    next
      case (Some x)
      note lk = lookup_found [OF rep idx rt Some]
      obtain b1 b2 where "removeOrder_ptr x ?b = Some b1" "evolves e fl l (drop_ref ref (engine_view e l)) True (put_book l b1 e2)"
        "reduceQtyCancel x shares ?b = Some b2" "evolves e fl l
           (change_ref ref (\<lambda>r. r\<lparr>remaining_qty := remaining_qty r - shares\<rparr>) (engine_view e l)) True (put_book l b2 e2)"
        using evolves_remove [OF rep idx same_others_refl lk(1,2), of e2 True]
          evolves_reduce [OF rep idx same_others_refl lk(1,2), of e2 shares True] e2 by blast
      then show ?thesis
        using spec lk(3) l fails pool_at_own [OF rep lk(1)] by (auto simp: p Some spec_cancel_shares_def split: if_splits)
    qed
  qed
qed

lemma accept_replace:
  assumes "accept_order l DAY ord b out e2 = Some (out', e')"
  shows "\<exists>e''. (do {
      (book2, ord1, out1, e3) \<leftarrow> match_order (side_of ord) l b ord out e2;
      if status ord1 = OPEN \<or> status ord1 = PARTIALLY_FILLED then rest_order l (order_id ord) ord1 book2 out1 (put_book l book2 e3)
      else if status ord1 = FILLED then Some (out1 @ [RSP_FILLED (order_id ord)], put_book l book2 e3)
      else Some (out1, put_book l book2 e3) }) = Some (out', e'') \<and> (\<forall>k. book_at k e'' = book_at k e')"
proof -
  obtain b2 o1 out1 e3 where m: "match_order (side_of ord) l b ord out e2 = Some (b2, o1, out1, e3)"
    using assms by (cases "match_order (side_of ord) l b ord out e2") (auto simp: accept_order_def)
  show ?thesis using assms unfolding accept_order_def m by (cases "status o1") (auto simp: engine_simps)
qed

lemma processReplace_refines:
  assumes rep: "engine_rep e R fl" and idx: "all_indexed e fl" and rt: "routed e l old_ref" and s: "s \<noteq> INVALID"
    and fresh: "new_ref = old_ref \<or> map_abs (shared_index e) new_ref = None"
    and spec: "spec_replace (length fl) l old_ref new_ref s pr quantity uid (next_sequence e) (engine_view e l) = (rs, Q)"
  shows "\<exists>e'. processReplace l old_ref new_ref s pr quantity uid out e = Some (out @ rs, e') \<and>
    evolves e fl l Q (map_room (shared_index e) new_ref) e'"
proof -
  let ?e1 = "bump (\<lambda>m. m\<lparr>cancels := cancels m + 1\<rparr>) e" and ?b = "book_at l e" and ?room = "map_room (shared_index e) new_ref"
  define e2 where "e2 = wal_log \<lparr>we_type = 0x04, we_side = 0, we_locate = ucast l, we_price = pr, we_quantity = quantity,
                      we_user_id = uid, we_order_id = new_ref, we_wal_seq = next_sequence e\<rparr> (touch l ?e1)"
  have e2: "book_at k e2 = book_at k e" for k by (simp add: e2_def book_at_wal_touch)
  have seq: "next_sequence e2 = next_sequence e" by (simp add: e2_def engine_simps)
  note fails = fail_with_refines [OF rep e2, of ORDER_NOT_FOUND out l ?room]
  let ?o = "incoming new_ref new_ref s pr quantity (next_sequence e)"
  define e3 where "e3 = e2\<lparr>next_sequence := next_sequence e + 1\<rparr>"
  have e3: "book_at k e3 = book_at k e" for k by (simp add: e3_def e2 engine_simps)
  show ?thesis
  proof (cases "kMaxLocate \<le> l")
    case True
    then show ?thesis using spec fail_with_refines [OF rep, of ?e1 ORDER_NOT_FOUND out l ?room]
      by (simp add: processReplace_def book_for_eq spec_replace_def engine_simps)
  next
    case l: False
    have sel: "side_of ?o = s" "order_id ?o = new_ref" by (simp_all add: incoming_def)
    have p: "processReplace l old_ref new_ref s pr quantity uid out e =
        (case map_abs (shared_index e) old_ref of
           None \<Rightarrow> Some (fail_with ORDER_NOT_FOUND out e2)
         | Some idx \<Rightarrow> do {
             r \<leftarrow> pool_at (ob_pool ?b) idx;
             if user_id r \<noteq> uid then Some (fail_with ORDER_NOT_FOUND out e2)
             else do {
               book1 \<leftarrow> removeOrder_ptr idx ?b;
               (book2, ord1, out1, e4) \<leftarrow> match_order (side_of ?o) l book1 ?o out e3;
               if status ord1 = OPEN \<or> status ord1 = PARTIALLY_FILLED then rest_order l (order_id ?o) ord1 book2 out1 (put_book l book2 e4)
               else if status ord1 = FILLED then Some (out1 @ [RSP_FILLED (order_id ?o)], put_book l book2 e4)
               else Some (out1, put_book l book2 e4) } })"
      unfolding processReplace_def book_for_bump [OF l] prod.case option.case Let_def touch_bump_seq e2_def [symmetric]
        findOrder_def find_index [OF rep] bind.bind_lunit seq e3_def [symmetric] sel incoming_def [symmetric] by (rule refl)
    show ?thesis
    proof (cases "map_abs (shared_index e) old_ref")
      case None
      have "rs = [RSP_ERROR ORDER_NOT_FOUND]" "Q = engine_view e l"
        using spec l lookup_missing [OF rep idx None, of l] by (simp_all add: spec_replace_def)
      then show ?thesis using fails by (simp add: p None)
    next
      case (Some x)
      note lk = lookup_found [OF rep idx rt Some]
      have ix: "indexed ?b (set (own (R l)) \<union> others R l)" using idx all_indexed_book [OF rep, of l] by simp
      obtain b1 R1 where rm: "removeOrder_ptr x ?b = Some b1" "book_rep b1 R1 (others R l) (x # fl)"
        "book_frame (others R l) ?b b1" "book_view b1 = drop_ref old_ref (engine_view e l)" "indexed b1 (set (own R1) \<union> others R l)"
        "map_abs (ob_index b1) = (map_abs (shared_index e))(old_ref := None)"
        using removeOrder_view [OF engine_repD [OF rep] ix lk(1,2)] by (auto simp: engine_view_def)
      let ?h = "put_book l b1 e"
      have fr: "length (ob_storage b1) = length (storage (shared_pool e))"
        "\<forall>y\<in>others R l. ob_storage b1 ! unat y = storage (shared_pool e) ! unat y" using rm(3) by (simp_all add: book_frame_def)
      have reph: "engine_rep ?h (R(l := R1)) (x # fl)" using engine_rep_put [OF rep rm(2) fr] .
      have viewh: "engine_view ?h = (engine_view e)(l := drop_ref old_ref (engine_view e l))"
        using engine_view_put [OF rep rm(2) fr] rm(4) by simp
      have idxh: "all_indexed ?h (x # fl)" unfolding all_indexed_book [OF reph, of l] using rm(5) by (simp add: book_at_put others_def)
      have room: "map_room (shared_index ?h) new_ref" if ?room using that rm(3) by (simp add: book_frame_def shared_put)
      show ?thesis
      proof (cases "user_id (ob_storage ?b ! unat x) = uid")
        case False
        then show ?thesis using spec lk(3) l fails pool_at_own [OF rep lk(1)] by (simp add: p Some spec_replace_def)
      next
        case True
        have "spec_accept (length (x # fl)) l DAY ?o (engine_view ?h l) = (rs, Q)"
          using spec lk(3) l True by (simp add: spec_replace_def viewh)
        moreover have "map_abs (shared_index ?h) (order_id ?o) = None" using fresh rm(6) by (auto simp: shared_put sel)
        moreover have "side_of ?o \<noteq> INVALID" "status ?o = OPEN" using s by (simp_all add: incoming_def)
        ultimately obtain e' where acc: "accept_order l DAY ?o b1 out e3 = Some (out @ rs, e')"
          and ev: "evolves ?h (x # fl) l Q (map_room (shared_index ?h) new_ref) e'"
          using accept_order_refines [OF reph same_others_put [OF same_others_refl [OF e3]], of ?o DAY rs Q out]
          by (auto simp: sel book_at_put)
        from accept_replace [OF acc] obtain e'' where tl: "processReplace l old_ref new_ref s pr quantity uid out e = Some (out @ rs, e'')"
          and eq: "\<And>k. book_at k e'' = book_at k e'"
          using True pool_at_own [OF rep lk(1)] rm(1) by (auto simp: p Some)
        have "evolves e fl l Q ?room e'"
          using ev idxh room fr(1) unfolding evolves_def viewh by (auto simp: fun_upd_upd shared_put)
        then show ?thesis using tl evolves_cong [OF eq] by blast
      qed
    qed
  qed
qed

end
