(* ===== verification/Engine_Run.thy ===== *)
theory Engine_Run
  imports Engine_Cancel
begin

text \<open>
  Sequences of requests: a fresh engine satisfies the invariant, every admissible request is served
  without fault and keeps it, and so do all runs.
\<close>

section \<open>A fresh engine\<close>

lemma new_book_at: "book_at l (new_engine p x m) = new_OrderBook_shared p x"
  by (simp add: book_at_def new_engine_def bump_def)

lemma fresh_live_slots:
  assumes "capacity p = n"
  shows "live_slots p (map of_nat [0..<n]) = {}"
proof -
  have "x \<in> of_nat ` {0..<n}" if "unat x < n" for x :: u32 using that by (auto simp: image_iff intro!: bexI [of _ "unat x"])
  then show ?thesis using assms by (auto simp: live_slots_def)
qed

text \<open>An engine whose pool has only free slots.\<close>

lemma fresh_engine_rep:
  assumes p: "pool_inv p (map of_nat [0..<n])" "capacity p = n" and n: "2 \<le> n" "n \<le> 2 ^ 31"
  shows "engine_rep (new_engine p (new_OrderMap n) m) (\<lambda>_ _. []) (map of_nat [0..<n])"
    and "all_indexed (new_engine p (new_OrderMap n) m) (map of_nat [0..<n])"
    and "engine_view (new_engine p (new_OrderMap n) m) = (\<lambda>_ _. [])"
proof -
  let ?b = "new_OrderBook_shared p (new_OrderMap n)"
  have o: "own (\<lambda>_. [] :: u32 list list) = []" by (simp add: own_def)
  have l: "levels_of s ?b = []" for s by (simp add: levels_of_def new_OrderBook_shared_def)
  have i: "map_inv (ob_index ?b)" "map_abs (ob_index ?b) = Map.empty" "ob_pool ?b = p"
    using new_OrderMap_inv [OF n] new_OrderMap_rep(2) [OF n] by (simp_all add: new_OrderBook_shared_def)
  have rep: "book_rep ?b (\<lambda>_. []) {} (map of_nat [0..<n])"
    unfolding book_rep_def using p i l fresh_live_slots [OF p(2)] by (simp add: o side_rep_def)
  then show "engine_rep (new_engine p (new_OrderMap n) m) (\<lambda>_ _. []) (map of_nat [0..<n])"
    by (simp add: engine_rep_def new_book_at others_def o)
  show "engine_view (new_engine p (new_OrderMap n) m) = (\<lambda>_ _. [])"
    by (simp add: engine_view_def new_book_at book_view_def queue_of_def l fun_eq_iff)
  show "all_indexed (new_engine p (new_OrderMap n) m) (map of_nat [0..<n])"
    using fresh_live_slots [OF p(2)] by (simp add: all_indexed_def indexed_def new_engine_def bump_def)
qed

lemma capacity_new [simp]: "capacity (new_OrderPool n) = n"
  by (simp add: new_OrderPool_def initFreeList_def)

lemma new_engine_rep:
  assumes "2 \<le> n" and "n \<le> 2 ^ 31"
  shows "engine_rep (new_engine_owned n m) (\<lambda>_ _. []) (map of_nat [0..<n])"
    and "all_indexed (new_engine_owned n m) (map of_nat [0..<n])"
    and "engine_view (new_engine_owned n m) = (\<lambda>_ _. [])"
proof -
  have p: "pool_inv (new_OrderPool n) (map of_nat [0..<n])" using assms by (intro new_OrderPool_inv) auto
  note f = fresh_engine_rep [OF p capacity_new assms, of m]
  show "engine_rep (new_engine_owned n m) (\<lambda>_ _. []) (map of_nat [0..<n])"
    "all_indexed (new_engine_owned n m) (map of_nat [0..<n])" "engine_view (new_engine_owned n m) = (\<lambda>_ _. [])"
    unfolding new_engine_owned_def by (rule f(1), rule f(2), rule f(3))
qed

section \<open>Requests\<close>

datatype command =
    Add u64 u64 side u32 u32 u64 order_tif
  | Cancel u64 u64 u64
  | CancelShares u64 u64 u32 u64
  | Replace u64 u64 u64 side u32 u32 u64

fun exec :: "command \<Rightarrow> engine \<Rightarrow> (response list \<times> engine) option" where
  "exec (Add l ref s pr q uid tif) e = processAdd l ref s pr q uid tif [] e"
| "exec (Cancel l ref uid) e = processCancel l ref uid [] e"
| "exec (CancelShares l ref n uid) e = processCancelShares l ref n uid [] e"
| "exec (Replace l old new s pr q uid) e = processReplace l old new s pr q uid [] e"

fun locate_of :: "command \<Rightarrow> u64" where
  "locate_of (Add l _ _ _ _ _ _) = l"
| "locate_of (Cancel l _ _) = l"
| "locate_of (CancelShares l _ _ _) = l"
| "locate_of (Replace l _ _ _ _ _ _) = l"

fun spec_exec :: "nat \<Rightarrow> u64 \<Rightarrow> command \<Rightarrow> (side \<Rightarrow> order list) \<Rightarrow> response list \<times> (side \<Rightarrow> order list)" where
  "spec_exec free seq (Add l ref s pr q uid tif) Q = spec_add free l ref s pr q uid tif seq Q"
| "spec_exec free seq (Cancel l ref uid) Q = spec_cancel l ref uid Q"
| "spec_exec free seq (CancelShares l ref n uid) Q = spec_cancel_shares l ref n uid Q"
| "spec_exec free seq (Replace l old new s pr q uid) Q = spec_replace free l old new s pr q uid seq Q"

text \<open>
  A request the feed may send: a new reference is new and finds a place in the index, a request about
  an existing order names its book, a replacement has a side.
\<close>

fun admissible :: "engine \<Rightarrow> command \<Rightarrow> bool" where
  "admissible e (Add l ref s pr q uid tif) \<longleftrightarrow> map_abs (shared_index e) ref = None \<and> map_room (shared_index e) ref"
| "admissible e (Cancel l ref uid) \<longleftrightarrow> routed e l ref"
| "admissible e (CancelShares l ref n uid) \<longleftrightarrow> routed e l ref"
| "admissible e (Replace l old new s pr q uid) \<longleftrightarrow> routed e l old \<and> s \<noteq> INVALID \<and>
     (new = old \<or> map_abs (shared_index e) new = None) \<and> map_room (shared_index e) new"

text \<open>The invariant of a running engine: well-formed books and a complete index.\<close>

definition engine_ok :: "engine \<Rightarrow> bool" where
  "engine_ok e \<longleftrightarrow> (\<exists>R fl. engine_rep e R fl \<and> all_indexed e fl)"

lemma new_engine_ok: "2 \<le> n \<Longrightarrow> n \<le> 2 ^ 31 \<Longrightarrow> engine_ok (new_engine_owned n m)"
  using new_engine_rep(1,2) unfolding engine_ok_def by blast

lemma exec_evolves:
  assumes rep: "engine_rep e R fl" and idx: "all_indexed e fl" and adm: "admissible e c"
    and spec: "spec_exec (free_slots e) (next_sequence e) c (engine_view e (locate_of c)) = (rs, Q)"
  shows "\<exists>e'. exec c e = Some (rs, e') \<and> evolves e fl (locate_of c) Q True e'"
proof (cases c)
  case (Add l ref s pr q uid tif)
  then show ?thesis using processAdd_refines [OF rep, of ref l s pr q uid tif rs Q "[]"] adm spec engine_free_slots [OF rep] by simp
next
  case (Cancel l ref uid)
  then show ?thesis using processCancel_refines [OF rep idx, of l ref uid rs Q "[]"] adm spec by simp
next
  case (CancelShares l ref n uid)
  then show ?thesis using processCancelShares_refines [OF rep idx, of l ref n uid rs Q "[]"] adm spec by simp
next
  case (Replace l old new s pr q uid)
  then show ?thesis using processReplace_refines [OF rep idx, of l old s new pr q uid rs Q "[]"] adm spec engine_free_slots [OF rep] by simp
qed

lemma exec_refines:
  assumes ok: "engine_ok e" and adm: "admissible e c"
    and spec: "spec_exec (free_slots e) (next_sequence e) c (engine_view e (locate_of c)) = (rs, Q)"
  shows "\<exists>e'. exec c e = Some (rs, e') \<and> engine_ok e' \<and> engine_view e' = (engine_view e)(locate_of c := Q)"
proof -
  obtain R fl where rep: "engine_rep e R fl" and idx: "all_indexed e fl" using ok by (auto simp: engine_ok_def)
  then show ?thesis using exec_evolves [OF rep idx adm spec] unfolding evolves_def engine_ok_def by auto
qed

section \<open>Runs\<close>

inductive reaches :: "engine \<Rightarrow> command list \<Rightarrow> response list \<Rightarrow> engine \<Rightarrow> bool" for e0 where
  start: "reaches e0 [] [] e0"
| step: "reaches e0 cs rs e \<Longrightarrow> admissible e c \<Longrightarrow> exec c e = Some (rs', e') \<Longrightarrow> reaches e0 (cs @ [c]) (rs @ rs') e'"

lemma reaches_ok: "reaches e0 cs rs e \<Longrightarrow> engine_ok e0 \<Longrightarrow> engine_ok e"
proof (induction rule: reaches.induct)
  case (step cs rs e c rs' e')
  obtain rs1 Q where "spec_exec (free_slots e) (next_sequence e) c (engine_view e (locate_of c)) = (rs1, Q)" by fastforce
  from exec_refines [OF step.IH [OF step.prems] step.hyps(2) this] step.hyps(3) show ?case by auto
qed

end
