(* ===== verification/Examples.thy ===== *)
theory Examples
  imports Engine_Run
begin

text \<open>
  Concrete engine states, reached by executing requests from a fresh engine of four slots.  They
  instantiate the hypotheses of the theorems about running engines.
\<close>

definition demo0 :: engine where
  "demo0 = new_engine_owned 4 (Some new_IOCounters)"

text \<open>Two bids of users 41 and 42, and one ask of user 43 above them, in book 1.\<close>

definition demo1 :: engine where
  "demo1 = snd (the (exec (Add 1 11 BUY 100 5 41 DAY) demo0))"

definition demo2 :: engine where
  "demo2 = snd (the (exec (Add 1 12 BUY 100 4 42 DAY) demo1))"

definition demo3 :: engine where
  "demo3 = snd (the (exec (Add 1 13 SELL 120 7 43 DAY) demo2))"

lemma demo0_ok: "engine_ok demo0"
  unfolding demo0_def by (intro new_engine_ok) simp_all

lemma exec_ok:
  assumes "engine_ok e" and "admissible e c"
  shows "engine_ok (snd (the (exec c e)))"
proof -
  obtain rs Q where "spec_exec (free_slots e) (next_sequence e) c (engine_view e (locate_of c)) = (rs, Q)" by fastforce
  from exec_refines [OF assms this] show ?thesis by auto
qed

lemma demo_ok: "engine_ok demo1" "engine_ok demo2" "engine_ok demo3"
proof -
  have "admissible demo0 (Add 1 11 BUY 100 5 41 DAY)" by code_simp
  from exec_ok [OF demo0_ok this] show 1: "engine_ok demo1" by (simp only: demo1_def)
  have "admissible demo1 (Add 1 12 BUY 100 4 42 DAY)" by code_simp
  from exec_ok [OF 1 this] show 2: "engine_ok demo2" by (simp only: demo2_def)
  have "admissible demo2 (Add 1 13 SELL 120 7 43 DAY)" by code_simp
  from exec_ok [OF 2 this] show "engine_ok demo3" by (simp only: demo3_def)
qed

text \<open>What \<open>demo3\<close> holds, evaluated once.\<close>

definition resting :: "u64 \<Rightarrow> u64 \<Rightarrow> side \<Rightarrow> u32 \<Rightarrow> u32 \<Rightarrow> u64 \<Rightarrow> order" where
  "resting uid ref s pr q seq = core (incoming uid ref s pr q seq)"

definition demo3_facts :: "engine \<Rightarrow> bool" where
  "demo3_facts e \<longleftrightarrow> queue_of BUY (book_at 1 e) = [resting 41 11 BUY 100 5 1, resting 42 12 BUY 100 4 2] \<and>
     queue_of SELL (book_at 1 e) = [resting 43 13 SELL 120 7 3] \<and> free_slots e = 1 \<and> next_sequence e = 4 \<and>
     admissible e (Add 1 14 SELL 90 6 44 DAY)"

lemma demo3_facts: "demo3_facts demo3"
  by code_simp

lemmas demo3 = demo3_facts [unfolded demo3_facts_def]

lemma resting_fields [simp]:
  "user_id (resting u r s p q n) = u" "order_id (resting u r s p q n) = r" "side_of (resting u r s p q n) = s"
  "price (resting u r s p q n) = p" "remaining_qty (resting u r s p q n) = q" "filled_qty (resting u r s p q n) = 0"
  "original_qty (resting u r s p q n) = q" "status (resting u r s p q n) = OPEN" "sequence (resting u r s p q n) = n"
  by (simp_all add: resting_def incoming_def)

lemma incoming_fields [simp]:
  "user_id (incoming u r s p q n) = u" "order_id (incoming u r s p q n) = r" "side_of (incoming u r s p q n) = s"
  "price (incoming u r s p q n) = p" "remaining_qty (incoming u r s p q n) = q" "filled_qty (incoming u r s p q n) = 0"
  "original_qty (incoming u r s p q n) = q" "status (incoming u r s p q n) = OPEN" "sequence (incoming u r s p q n) = n"
  by (simp_all add: incoming_def)

lemma locate_1 [simp]: "\<not> kMaxLocate \<le> 1"
  by (simp add: kMaxLocate_def word_le_nat_alt)

end
