(* ===== verification/Matching_Theorems.thy ===== *)
theory Matching_Theorems
  imports Examples
begin

text \<open>
  The theorems about matching: what one incoming order does to the book it meets.  \<open>book_inv\<close> is the
  invariant of a book, whatever the other books of its pool hold.
\<close>

definition book_inv :: "order_book \<Rightarrow> bool" where
  "book_inv b \<longleftrightarrow> (\<exists>R F fl. book_rep b R F fl)"

lemma engine_book_inv: "engine_ok e \<Longrightarrow> book_inv (book_at l e)"
  unfolding engine_ok_def book_inv_def by (blast dest: engine_repD)

lemma match_order_computes:
  assumes "book_inv b" and s: "s \<noteq> INVALID" and mq: "match_queue s ord (queue_of (opp s) b) = (ord', q', ts)"
  shows "\<exists>b'. match_order s locate b ord out e =
       Some (b', ord', out @ map (trade_rsp locate s) ts, fold (record_trade s ord) ts e) \<and>
     book_inv b' \<and> queue_of (opp s) b' = q' \<and> queue_of s b' = queue_of s b"
proof -
  obtain R F fl where rep: "book_rep b R F fl" using assms(1) by (auto simp: book_inv_def)
  have v: "book_view b (opp s) = queue_of (opp s) b" "\<And>b'. book_view b' s = queue_of s b'" "\<And>b'. book_view b' (opp s) = queue_of (opp s) b'"
    using s by (simp_all add: book_view_def)
  obtain b' R' fl' where m: "match_order s locate b ord out e =
       Some (b', ord', out @ map (trade_rsp locate s) ts, fold (record_trade s ord) ts e)"
    and r: "book_rep b' R' F fl'" and w: "book_view b' = (book_view b)(opp s := q')"
    using match_order_view [OF rep s, of ord ord' q' ts locate out e] mq v(1) by auto
  have "queue_of (opp s) b' = q'" "queue_of s b' = queue_of s b"
    using fun_cong [OF w, of "opp s"] fun_cong [OF w, of s] opp_neq [OF s] v by auto
  then show ?thesis using m r by (auto simp: book_inv_def)
qed

lemma match_order_matches:
  assumes "book_inv b" and s: "s \<noteq> INVALID" and m: "match_order s locate b ord out e = Some (b', ord', out', e')"
  shows "\<exists>ts. matches s ord (queue_of (opp s) b) ord' (queue_of (opp s) b') ts \<and> out' = out @ map (trade_rsp locate s) ts \<and>
     e' = fold (record_trade s ord) ts e \<and> book_inv b' \<and> queue_of s b' = queue_of s b"
proof -
  obtain o1 q1 ts where mq: "match_queue s ord (queue_of (opp s) b) = (o1, q1, ts)"
    by (cases "match_queue s ord (queue_of (opp s) b)")
  then show ?thesis
    using match_order_computes [OF assms(1) s mq, of locate out e] m match_queue_matches [OF mq] by auto
qed

lemma queue_of_sorted:
  assumes rep: "book_rep b R F fl" and s: "s \<noteq> INVALID"
  shows "priority_sorted s (queue_of s b)"
proof -
  have sr: "side_rep (ob_storage b) s (levels_of s b) (R s)" using rep s by (rule book_rep_side)
  then have "om_sorted (level_lt s) (levels_of s b)" and la: "list_all2 (level_rep (ob_storage b) s) (levels_of s b) (R s)"
    by (simp_all add: side_rep_def)
  from la this(1) show ?thesis unfolding queue_of_def priority_sorted_def
  proof (induction rule: list_all2_induct)
    case (Cons e ls ss sss)
    obtain p l where e: "e = (p, l)" by (cases e)
    note lv = Cons.hyps(1) [unfolded e]
    have p1: "price r = p" if "r \<in> set (level_orders (ob_storage b) e)" for r
      using level_orders_price [OF lv] that by (simp add: e)
    have p2: "level_lt s p (price r)" if r: "r \<in> set (concat (map (level_orders (ob_storage b)) ls))" for r
    proof -
      obtain x where x: "x \<in> set (concat sss)" "r = core (ob_storage b ! unat x)"
        using r unfolding levels_orders_rep [OF Cons.hyps(2)] set_map by blast
      have "price r \<in> fst ` set ls" using side_rep_prices [OF Cons.hyps(2) x(1)] x(2) by simp
      then show ?thesis using Cons.prems by (auto simp: e)
    qed
    have "sorted_wrt (\<lambda>a b. \<not> level_lt s (price b) (price a)) (level_orders (ob_storage b) e)"
      using p1 level_order.irrefl by (simp add: sorted_wrt_iff_nth_less)
    then show ?case using Cons.IH Cons.prems p1 p2 level_order.asym by (auto simp: sorted_wrt_append)
  qed simp
qed

lemma book_inv_sorted: "book_inv b \<Longrightarrow> s \<noteq> INVALID \<Longrightarrow> priority_sorted s (queue_of s b)"
  unfolding book_inv_def using queue_of_sorted by blast

section \<open>Theorems\<close>

text \<open>
  C3: the loops \<open>matchBuyOrder\<close> and \<open>matchSellOrder\<close> terminate without a memory fault on every
  well-formed book, and compute exactly the price-time priority rule \<open>match_queue\<close>: the same trades are
  reported in the same order, the incoming order ends with the same quantities and status, the queue of
  the other side is what the rule leaves, and the own side is untouched.
\<close>

theorem matching_refines_priority_rule:
  assumes "book_inv b" and "s \<noteq> INVALID" and "match_queue s ord (queue_of (opp s) b) = (ord', q', ts)"
  shows "\<exists>b'. match_order s locate b ord out e =
       Some (b', ord', out @ map (trade_rsp locate s) ts, fold (record_trade s ord) ts e) \<and>
     book_inv b' \<and> queue_of (opp s) b' = q' \<and> queue_of s b' = queue_of s b"
  using assms by (rule match_order_computes)

text \<open>The incoming order of the examples below: a sale of six at 90 by user 44, against \<open>demo3\<close>.\<close>

definition demo_sale :: order where
  "demo_sale = incoming 44 14 SELL 90 6 9"

lemmas demo_simps = eligible_def acceptable_def trade_rsp_def side_byte_def Let_def

lemmas demo_inv = engine_book_inv [OF demo_ok(3), of 1]

lemma match_triple: "match_queue s ord q = (fst (match_queue s ord q), fst (snd (match_queue s ord q)), snd (snd (match_queue s ord q)))"
  by simp

theorem matching_refines_priority_rule_witness:
  "\<exists>b' ord' e'. match_order SELL 1 (book_at 1 demo3) demo_sale [] demo3 =
      Some (b', ord', [RSP_TRADE 1 11 SIDE_BUY 100 5, RSP_TRADE 1 12 SIDE_BUY 100 1], e') \<and>
    status ord' = FILLED \<and> map remaining_qty (queue_of BUY b') = [3]"
proof -
  let ?M = "match_queue SELL demo_sale (queue_of (opp SELL) (book_at 1 demo3))"
  have ts: "map (trade_rsp 1 SELL) (snd (snd ?M)) = [RSP_TRADE 1 11 SIDE_BUY 100 5, RSP_TRADE 1 12 SIDE_BUY 100 1]"
    and q: "map remaining_qty (fst (snd ?M)) = [3]" and st: "status (fst ?M) = FILLED"
    by (simp_all add: demo3 demo_sale_def demo_simps)
  show ?thesis
    using matching_refines_priority_rule [OF demo_inv _ match_triple, where s = SELL and ord = demo_sale and locate = 1 and out = "[]" and e = demo3] ts q st by auto
qed

text \<open>
  C4: quantities are conserved.  Whatever the book, the quantity the incoming order loses is the sum of the
  reported trades, the other side's resting quantity shrinks by the same sum, and filled plus remaining
  of the incoming order stays constant.
\<close>

theorem matching_conserves_quantity:
  assumes "book_inv b" and "s \<noteq> INVALID" and "match_order s locate b ord out e = Some (b', ord', out', e')"
  shows "\<exists>ts. out' = out @ map (trade_rsp locate s) ts \<and>
    unat (remaining_qty ord') + traded ts = unat (remaining_qty ord) \<and>
    total_remaining (queue_of (opp s) b') + traded ts = total_remaining (queue_of (opp s) b) \<and>
    filled_qty ord' + remaining_qty ord' = filled_qty ord + remaining_qty ord"
  using match_order_matches [OF assms] matches_conserve by blast

theorem matching_conserves_quantity_witness:
  "\<exists>b' ord' out' e' ts. match_order SELL 1 (book_at 1 demo3) demo_sale [] demo3 = Some (b', ord', out', e') \<and>
    out' = map (trade_rsp 1 SELL) ts \<and> unat (remaining_qty ord') + traded ts = 6 \<and>
    total_remaining (queue_of BUY b') + traded ts = 9"
proof -
  obtain b' ord' out' e' where m: "match_order SELL 1 (book_at 1 demo3) demo_sale [] demo3 = Some (b', ord', out', e')"
    using match_order_computes [OF demo_inv _ match_triple, where s = SELL and ord = demo_sale and locate = 1 and out = "[]" and e = demo3] by auto
  have q: "unat (remaining_qty demo_sale) = 6" "total_remaining (queue_of (opp SELL) (book_at 1 demo3)) = 9"
    by (simp_all add: demo3 demo_sale_def total_remaining_def)
  show ?thesis using matching_conserves_quantity [OF demo_inv _ m] m q by auto
qed

text \<open>
  C5: trades follow price-time priority and never match a user with themselves.  The resting orders that
  trade are a prefix of the queue with the taker's own orders left out, every one of them but the last is
  used up, every trade is at the resting order's price, within the taker's limit, and with another user.
\<close>

theorem matching_follows_priority:
  assumes "book_inv b" and "s \<noteq> INVALID" and "match_order s locate b ord out e = Some (b', ord', out', e')"
    and "user_id ord \<noteq> 0"
  shows "\<exists>ts. out' = out @ map (trade_rsp locate s) ts \<and>
    map fst ts = take (length ts) (filter (\<lambda>r. user_id r \<noteq> user_id ord) (queue_of (opp s) b)) \<and>
    (\<forall>(r, n)\<in>set (butlast ts). n = remaining_qty r) \<and>
    (\<forall>(r, n)\<in>set ts. user_id r \<noteq> user_id ord \<and> acceptable s (price ord) (price r) \<and> n \<le> remaining_qty r)"
proof -
  obtain ts where m: "matches s ord (queue_of (opp s) b) ord' (queue_of (opp s) b') ts" "out' = out @ map (trade_rsp locate s) ts"
    using match_order_matches [OF assms(1,2,3)] by blast
  have el: "eligible (user_id ord) = (\<lambda>r. user_id r \<noteq> user_id ord)" using assms(4) by (simp add: eligible_def fun_eq_iff)
  show ?thesis using m matches_priority [OF m(1)] matches_all_but_last [OF m(1)] matches_trades [OF m(1)]
    unfolding el by blast
qed

theorem matching_follows_priority_witness:
  "\<exists>b' ord' out' e' ts. match_order SELL 1 (book_at 1 demo3) demo_sale [] demo3 = Some (b', ord', out', e') \<and>
    out' = map (trade_rsp 1 SELL) ts \<and>
    map fst ts = take (length ts) (filter (\<lambda>r. user_id r \<noteq> 44) (queue_of BUY (book_at 1 demo3)))"
proof -
  obtain b' ord' out' e' where m: "match_order SELL 1 (book_at 1 demo3) demo_sale [] demo3 = Some (b', ord', out', e')"
    using match_order_computes [OF demo_inv _ match_triple, where s = SELL and ord = demo_sale and locate = 1 and out = "[]" and e = demo3] by auto
  have u: "user_id demo_sale = 44" by (simp add: demo_sale_def)
  show ?thesis using matching_follows_priority [OF demo_inv _ m] m u by auto
qed

text \<open>
  C6: matching leaves nothing to match.  If the incoming order is not used up, no order is left on the other
  side that belongs to another user and that the incoming order's limit accepts, so resting it does not
  cross the book.
\<close>

theorem matching_is_exhaustive:
  assumes "book_inv b" and "s \<noteq> INVALID" and "match_order s locate b ord out e = Some (b', ord', out', e')"
    and "remaining_qty ord' \<noteq> 0" and "r \<in> set (queue_of (opp s) b')" and "user_id r \<noteq> user_id ord"
  shows "\<not> acceptable s (price ord) (price r)"
proof -
  obtain ts where m: "matches s ord (queue_of (opp s) b) ord' (queue_of (opp s) b') ts"
    using match_order_matches [OF assms(1,2,3)] by blast
  have "priority_sorted (opp s) (queue_of (opp s) b)" using assms(1,2) by (intro book_inv_sorted) simp_all
  from matches_no_cross [OF m assms(2) this assms(4)] show ?thesis using assms(5,6) by (simp add: eligible_def)
qed

theorem matching_is_exhaustive_witness:
  "\<exists>b' ord' out' e' r. match_order BUY 1 (book_at 1 demo3) (incoming 44 14 BUY 110 6 9) [] demo3 = Some (b', ord', out', e') \<and>
    r \<in> set (queue_of SELL b') \<and> \<not> acceptable BUY 110 (price r)"
proof -
  let ?o = "incoming 44 14 BUY 110 6 9" and ?M = "match_queue BUY (incoming 44 14 BUY 110 6 9) (queue_of (opp BUY) (book_at 1 demo3))"
  have r: "remaining_qty (fst ?M) \<noteq> 0" "price ?o = 110" "user_id ?o = 44" "map user_id (fst (snd ?M)) = [43]"
    by (simp_all add: demo3 demo_simps)
  obtain b' e' where m: "match_order BUY 1 (book_at 1 demo3) ?o [] demo3 = Some (b', fst ?M, map (trade_rsp 1 BUY) (snd (snd ?M)), e')"
    and q: "queue_of (opp BUY) b' = fst (snd ?M)"
    using match_order_computes [OF demo_inv _ match_triple, where s = BUY and ord = ?o and locate = 1 and out = "[]" and e = demo3] by auto
  obtain x where x: "x \<in> set (queue_of (opp BUY) b')" "user_id x = 43" using r(4) q by (cases "fst (snd ?M)") auto
  have "\<not> acceptable BUY (price ?o) (price x)"
    using x(2) r by (intro matching_is_exhaustive [OF demo_inv _ m _ x(1)]) simp_all
  then show ?thesis using m x(1) r(2) by auto
qed

end
