(* ===== verification/Recovery.thy ===== *)
theory Recovery
  imports Matching_Engine
begin

text \<open>
  The snapshot, log replay, shared-memory recovery and checkpoint functions of
  \<^verbatim>\<open>src/matching_engine.cpp\<close>.  What \<^verbatim>\<open>open\<close> and \<^verbatim>\<open>mmap\<close> return is an argument; the loops go over the entries of
  the log and the slots of the storage.
\<close>

section \<open>Snapshots of the engine\<close>

definition engine_saveSnapshot :: "bool \<Rightarrow> engine \<Rightarrow> snapshot option option" where
  "engine_saveSnapshot opened e =
     (case books e 0 of
        None \<Rightarrow> Some None
      | Some _ \<Rightarrow> map_option snd (saveSnapshot opened (book_at 0 e)))"

definition engine_loadSnapshot :: "snapshot option \<Rightarrow> engine \<Rightarrow> engine option" where
  "engine_loadSnapshot file e0 =
     (case book_for 0 e0 of
        (None, e) \<Rightarrow> None
      | (Some book, e) \<Rightarrow> do {
          ((max_seq, max_id), book1) \<leftarrow> loadSnapshot file (0, 0) book;
          let e1 = put_book 0 book1 e;
          let e2 = (if max_seq > 0 then e1\<lparr>next_sequence := max_seq + 1\<rparr> else e1);
          let e3 = (if max_id > 0 then e2\<lparr>next_order_id := max_id + 1\<rparr> else e2);
          Some (set_pool_used book1 e3)
        })"

section \<open>Log replay\<close>

definition bump_ids :: "u64 \<Rightarrow> u64 \<Rightarrow> engine \<Rightarrow> engine" where
  "bump_ids seq oid e =
     (let e1 = (if seq \<ge> next_sequence e then e\<lparr>next_sequence := seq + 1\<rparr> else e)
      in if oid \<ge> next_order_id e1 then e1\<lparr>next_order_id := oid + 1\<rparr> else e1)"

text \<open>The order an entry of type \<^verbatim>\<open>NEW\<close> describes.\<close>

definition replay_order :: "wal_entry \<Rightarrow> order" where
  "replay_order en = new_Order\<lparr>user_id := we_user_id en, order_id := we_order_id en,
     side_of := (if we_side en = 0x01 then BUY else SELL), price := we_price en,
     original_qty := we_quantity en, remaining_qty := we_quantity en, sequence := we_wal_seq en, status := OPEN\<rparr>"

definition replay_new :: "wal_entry \<Rightarrow> u64 \<Rightarrow> order_book \<Rightarrow> engine \<Rightarrow> engine option" where
  "replay_new en locate book e = do {
     let ord = replay_order en;
     (book1, ord1, tmp, e1) \<leftarrow> match_order (side_of ord) locate book ord [] e;
     book2 \<leftarrow> (if status ord1 = OPEN \<or> status ord1 = PARTIALLY_FILLED
              then map_option snd (addOrder ord1 book1) else Some book1);
     Some (put_book locate book2 e1)
   }"

definition replay_entry :: "wal_entry \<Rightarrow> engine \<Rightarrow> engine option" where
  "replay_entry en e0 =
     (let locate = ucast (we_locate en) in
      case book_for locate e0 of
        (None, e) \<Rightarrow> Some e
      | (Some book, e) \<Rightarrow>
          if we_type en = 0x01 then do {
            found \<leftarrow> findOrder (we_order_id en) book;
            case found of
              Some _ \<Rightarrow> Some e
            | None \<Rightarrow> map_option (bump_ids (we_wal_seq en) (we_order_id en)) (replay_new en locate book e)
          }
          else do {
            e1 \<leftarrow> (if we_type en = 0x02 then do {
                    (removed, book1) \<leftarrow> removeOrder (we_order_id en) (we_user_id en) book;
                    Some (put_book locate book1 e)
                  }
                  else if we_type en = 0x03 then do {
                    found \<leftarrow> findOrder (we_order_id en) book;
                    case found of
                      None \<Rightarrow> Some e
                    | Some idx \<Rightarrow> do {
                        r \<leftarrow> pool_at (ob_pool book) idx;
                        if we_quantity en > 0 then do {
                          book1 \<leftarrow> (if we_quantity en \<ge> remaining_qty r then removeOrder_ptr idx book
                                   else reduceQtyCancel idx (we_quantity en) book);
                          Some (put_book locate book1 e)
                        } else Some e
                      }
                  }
                  else if we_type en = 0x04 then do {
                    found \<leftarrow> findOrder (we_order_id en) book;
                    case found of
                      None \<Rightarrow> Some e
                    | Some idx \<Rightarrow> do {
                        r \<leftarrow> pool_at (ob_pool book) idx;
                        if user_id r = we_user_id en then do {
                          book1 \<leftarrow> removeOrder_ptr idx book;
                          Some (put_book locate book1 e)
                        } else Some e
                      }
                  }
                  else Some e);
            Some (bump_ids (we_wal_seq en) (we_order_id en) e1)
          })"

text \<open>The loop \<^verbatim>\<open>for (i = 0; i < n; i++)\<close> with the entries still to come counted down.\<close>

fun replay_loop :: "wal_reader \<Rightarrow> u64 \<Rightarrow> nat \<Rightarrow> engine \<Rightarrow> engine option" where
  "replay_loop r i 0 e = Some e"
| "replay_loop r i (Suc k) e =
     (case entryAt r i of
        None \<Rightarrow> Some e
      | Some en \<Rightarrow> do { e1 \<leftarrow> replay_entry en e; replay_loop r (i + 1) k e1 })"

definition recoverFromWal :: "wal_reader option \<Rightarrow> engine \<Rightarrow> engine option" where
  "recoverFromWal reader e =
     (case reader of
        None \<Rightarrow> Some e
      | Some r \<Rightarrow> do {
          let n = (if entryCount r > WAL_ENTRIES then WAL_ENTRIES else entryCount r);
          e1 \<leftarrow> replay_loop r 0 (unat n) e;
          Some (bump (\<lambda>m. m\<lparr>order_pool_used := pool_size (shared_pool e1)\<rparr>) e1)
        })"

section \<open>Recovery from shared memory\<close>

text \<open>
  One slot.  The storage scanned is the storage the pool allocates from, so the scan reads what the
  additions before it have written.
\<close>

definition recover_slot :: "nat \<Rightarrow> engine \<Rightarrow> engine option" where
  "recover_slot i e = do {
     ord \<leftarrow> (if i < capacity (shared_pool e) then Some (storage (shared_pool e) ! i) else None);
     if order_id ord = 0 \<or> status ord = FILLED \<or> status ord = CANCELLED then Some e
     else do {
       (added, book1) \<leftarrow> addOrder (ord\<lparr>prev_idx := UINT32_MAX, next_idx := UINT32_MAX\<rparr>) (book_at 0 e);
       let e1 = put_book 0 book1 e;
       let o1 = storage (shared_pool e1) ! i;
       let e2 = (if order_id o1 \<ge> next_order_id e1 then e1\<lparr>next_order_id := order_id o1 + 1\<rparr> else e1);
       Some (if sequence o1 \<ge> next_sequence e2 then e2\<lparr>next_sequence := sequence o1 + 1\<rparr> else e2)
     }
   }"

fun recover_slots :: "nat \<Rightarrow> nat \<Rightarrow> engine \<Rightarrow> engine option" where
  "recover_slots i 0 e = Some e"
| "recover_slots i (Suc k) e = do { e1 \<leftarrow> recover_slot i e; recover_slots (Suc i) k e1 }"

definition recoverFromShared :: "nat \<Rightarrow> engine \<Rightarrow> engine option" where
  "recoverFromShared n e0 =
     (case book_for 0 (e0\<lparr>shared_pool := rebuildFreelist (shared_pool e0)\<rparr>) of
        (None, e) \<Rightarrow> None
      | (Some book, e) \<Rightarrow> do {
          e1 \<leftarrow> recover_slots 0 n e;
          Some (set_pool_used (book_at 0 e1) e1)
        })"

section \<open>Checkpoint\<close>

text \<open>
  The image of the shared memory the forked child writes, with the log position behind it.  The parent
  goes on unchanged.  \<open>mapped\<close> tells whether the base address and size are set.
\<close>

record checkpoint =
  cp_orders :: "order list"
  cp_trades :: "trade_pool option"
  cp_pos :: u64

definition checkpointIfNeeded :: "bool \<Rightarrow> engine \<Rightarrow> checkpoint option" where
  "checkpointIfNeeded mapped e =
     (case wal e of
        None \<Rightarrow> None
      | Some w \<Rightarrow>
          if \<not> mapped \<or> \<not> needCheckpoint w then None
          else Some \<lparr>cp_orders = storage (shared_pool e), cp_trades = eng_trade_pool e, cp_pos = curPosition w\<rparr>)"

end
