(* ===== verification/Bytes.thy ===== *)
theory Bytes
  imports Prelude
begin

text \<open>
  Byte buffers as the codecs see them: checked reads and writes at an offset (\<^verbatim>\<open>p[i]\<close>, \<^verbatim>\<open>memcpy\<close>,
  \<^verbatim>\<open>memset\<close>), the big-endian integers, and the C library's decimal conversions \<^verbatim>\<open>snprintf\<close> with
  \<^verbatim>\<open>%llu\<close> and \<^verbatim>\<open>strtoull\<close>.  The laws of the buffer operations are collected in \<open>buf_simps\<close>.
\<close>

named_theorems buf_simps "reads and writes of byte buffers"

section \<open>Buffers\<close>

definition bytes_at :: "nat \<Rightarrow> nat \<Rightarrow> u8 list \<Rightarrow> u8 list option" where
  "bytes_at i n m = (if i + n \<le> length m then Some (take n (drop i m)) else None)"

definition byte_at :: "nat \<Rightarrow> u8 list \<Rightarrow> u8 option" where
  "byte_at i m = (if i < length m then Some (m ! i) else None)"

definition put_bytes :: "nat \<Rightarrow> u8 list \<Rightarrow> u8 list \<Rightarrow> u8 list option" where
  "put_bytes i bs m = (if i + length bs \<le> length m then Some (take i m @ bs @ drop (i + length bs) m) else None)"

section \<open>Big-endian integers\<close>

definition join_be :: "u8 list \<Rightarrow> 'a::len word" where
  "join_be bs = foldl (\<lambda>v b. push_bit 8 v OR ucast b) 0 bs"

definition be16 :: "u16 \<Rightarrow> u8 list" where
  "be16 v = map (\<lambda>k. ucast (drop_bit k v)) [8, 0]"

definition be32 :: "u32 \<Rightarrow> u8 list" where
  "be32 v = map (\<lambda>k. ucast (drop_bit k v)) [24, 16, 8, 0]"

definition be64 :: "u64 \<Rightarrow> u8 list" where
  "be64 v = map (\<lambda>k. ucast (drop_bit k v)) [56, 48, 40, 32, 24, 16, 8, 0]"

section \<open>Decimal conversions of the C library\<close>

fun decimal :: "nat \<Rightarrow> u8 list" where
  "decimal n = (if n < 10 then [48 + of_nat n] else decimal (n div 10) @ [48 + of_nat (n mod 10)])"

declare decimal.simps [simp del]

text \<open>\<^verbatim>\<open>%0<w>llu\<close>\<close>

definition decimal_padded :: "nat \<Rightarrow> nat \<Rightarrow> u8 list" where
  "decimal_padded w n = replicate (w - length (decimal n)) 48 @ decimal n"

text \<open>What \<^verbatim>\<open>snprintf(dst, size, ...)\<close> writes for the formatted text: at most \<^verbatim>\<open>size - 1\<close> characters and a NUL.\<close>

definition snprintf_bytes :: "nat \<Rightarrow> u8 list \<Rightarrow> u8 list" where
  "snprintf_bytes n txt = take (n - 1) txt @ [0]"

text \<open>The characters of a C string.\<close>

definition c_string :: "u8 list \<Rightarrow> u8 list" where
  "c_string bs = takeWhile (\<lambda>b. b \<noteq> 0) bs"

definition is_digit :: "u8 \<Rightarrow> bool" where
  "is_digit b \<longleftrightarrow> 48 \<le> b \<and> b \<le> 57"

definition is_space :: "u8 \<Rightarrow> bool" where
  "is_space b \<longleftrightarrow> b = 32 \<or> 9 \<le> b \<and> b \<le> 13"

definition digits_value :: "u8 list \<Rightarrow> nat" where
  "digits_value ds = foldl (\<lambda>v d. 10 * v + (unat d - 48)) 0 ds"

text \<open>
  \<^verbatim>\<open>strtoull(s, nullptr, 10)\<close>: leading white space, an optional sign, the longest run of digits; 0 when
  there is none, \<^verbatim>\<open>ULLONG_MAX\<close> when the value does not fit, negated modulo \<^verbatim>\<open>2^64\<close> after a minus sign.
\<close>

definition strtoull :: "u8 list \<Rightarrow> u64" where
  "strtoull s =
     (let t = dropWhile is_space (c_string s);
          neg = (t \<noteq> [] \<and> hd t = 45);
          ds = takeWhile is_digit (if t \<noteq> [] \<and> (hd t = 43 \<or> hd t = 45) then tl t else t);
          v = digits_value ds
      in if v \<ge> 2 ^ 64 then UINT64_MAX else if neg then - of_nat v else of_nat v)"

section \<open>Laws of buffers\<close>

lemma bytes_at_here [buf_simps]: "length xs = n \<Longrightarrow> bytes_at 0 n (xs @ ys) = Some xs"
  by (simp add: bytes_at_def)

lemma bytes_at_all [buf_simps]: "length xs = n \<Longrightarrow> bytes_at 0 n xs = Some xs"
  by (simp add: bytes_at_def)

lemma bytes_at_skip [buf_simps]: "length xs \<le> i \<Longrightarrow> bytes_at i n (xs @ ys) = bytes_at (i - length xs) n ys"
  by (auto simp: bytes_at_def)

lemma bytes_at_inside: "i + n \<le> length xs \<Longrightarrow> bytes_at i n (xs @ ys) = bytes_at i n xs"
  by (simp add: bytes_at_def)

lemma bytes_at_Cons [buf_simps]: "0 < i \<Longrightarrow> bytes_at i n (x # xs) = bytes_at (i - 1) n xs"
  by (cases i) (simp_all add: bytes_at_def)

lemma bytes_at_Some: "i + n \<le> length m \<Longrightarrow> \<exists>bs. bytes_at i n m = Some bs \<and> length bs = n"
  by (simp add: bytes_at_def)

lemma byte_at_Some: "i < length m \<Longrightarrow> byte_at i m = Some (m ! i)"
  by (simp add: byte_at_def)

lemma byte_at_skip [buf_simps]: "length xs \<le> i \<Longrightarrow> byte_at i (xs @ ys) = byte_at (i - length xs) ys"
  by (auto simp: byte_at_def nth_append)

lemma byte_at_Cons [buf_simps]:
  "byte_at 0 (x # xs) = Some x" "0 < i \<Longrightarrow> byte_at i (x # xs) = byte_at (i - 1) xs"
  by (cases i; simp add: byte_at_def)+

lemma length_put_bytes: "put_bytes i bs m = Some m' \<Longrightarrow> length m' = length m"
  by (auto simp: put_bytes_def split: if_splits)

lemma put_bytes_append:
  "length xs = i \<Longrightarrow> length old = length bs \<Longrightarrow> put_bytes i bs (xs @ old @ ys) = Some (xs @ bs @ ys)"
  by (simp add: put_bytes_def)

text \<open>Four and eight bytes read one by one are the slice read at once.\<close>

lemma bytes_at_unfold:
  "bytes_at i 0 m = (if i \<le> length m then Some [] else None)"
  "bytes_at i (Suc n) m = do { b \<leftarrow> byte_at i m; bs \<leftarrow> bytes_at (Suc i) n m; Some (b # bs) }"
  by (auto simp: bytes_at_def byte_at_def Cons_nth_drop_Suc [symmetric] take_Suc_Cons bind_eq_Some_conv)

section \<open>Laws of integers\<close>

lemma length_be [simp]: "length (be16 v) = 2" "length (be32 w) = 4" "length (be64 x) = 8"
  by (simp_all add: be16_def be32_def be64_def)

lemma join_step:
  fixes v :: "'a::len word"
  shows "push_bit 8 (drop_bit (8 + k) v) OR ucast (ucast (drop_bit k v) :: u8) = drop_bit k v"
proof (rule bit_word_eqI)
  fix n assume "n < LENGTH('a)"
  moreover have "\<not> n < 8 \<Longrightarrow> 8 + k + (n - 8) = k + n" by simp
  ultimately show "bit (push_bit 8 (drop_bit (8 + k) v) OR ucast (ucast (drop_bit k v) :: u8)) n = bit (drop_bit k v) n"
    by (cases "n < 8") (simp_all add: bit_simps)
qed

lemma join_first:
  "ucast (ucast (drop_bit 8 v) :: u8) = drop_bit 8 (v :: u16)"
  "ucast (ucast (drop_bit 24 w) :: u8) = drop_bit 24 (w :: u32)"
  "ucast (ucast (drop_bit 56 x) :: u8) = drop_bit 56 (x :: u64)"
  by (rule bit_word_eqI, auto simp: bit_simps dest: bit_imp_le_length)+

lemmas join_steps = join_step [of 0, simplified] join_step [of 8, simplified] join_step [of 16, simplified]
  join_step [of 24, simplified] join_step [of 32, simplified] join_step [of 40, simplified] join_step [of 48, simplified]

lemma join_be16 [simp]: "join_be (be16 v) = v"
  by (simp add: join_be_def be16_def join_first join_steps)

lemma join_be32 [simp]: "join_be (be32 v) = v"
  by (simp add: join_be_def be32_def join_first join_steps)

lemma join_be64 [simp]: "join_be (be64 v) = v"
  by (simp add: join_be_def be64_def join_first join_steps)

section \<open>Laws of decimals\<close>

lemma is_digit_48: "d < 10 \<Longrightarrow> is_digit (48 + of_nat d)" "d < 10 \<Longrightarrow> unat (48 + of_nat d :: u8) = 48 + d"
proof -
  assume d: "d < 10"
  then show u: "unat (48 + of_nat d :: u8) = 48 + d" by (simp add: unat_word_ariths unat_of_nat)
  show "is_digit (48 + of_nat d)" using d u by (simp add: is_digit_def word_le_nat_alt)
qed

lemma decimal_digits: "\<forall>d \<in> set (decimal n). is_digit d"
proof (induction n rule: decimal.induct)
  case (1 n)
  then show ?case by (subst decimal.simps) (auto intro: is_digit_48)
qed

lemma decimal_ne [simp]: "decimal n \<noteq> []"
  by (subst decimal.simps) simp

lemma digits_value_snoc: "digits_value (ds @ [d]) = 10 * digits_value ds + (unat d - 48)"
  by (simp add: digits_value_def)

lemma digits_value_decimal: "digits_value (decimal n) = n"
proof (induction n rule: decimal.induct)
  case (1 n)
  then show ?case by (subst decimal.simps) (auto simp: digits_value_snoc is_digit_48 digits_value_def)
qed

lemma digits_value_pad: "digits_value (replicate k 48 @ ds) = digits_value ds"
  by (induction k) (simp_all add: digits_value_def)

lemma length_decimal: "n < 10 ^ k \<Longrightarrow> 0 < k \<Longrightarrow> length (decimal n) \<le> k"
proof (induction n arbitrary: k rule: decimal.induct)
  case (1 n)
  show ?case
  proof (cases "n < 10")
    case True
    then show ?thesis using 1 by (subst decimal.simps) simp
  next
    case False
    then obtain k' where k: "k = Suc k'" "0 < k'" using 1(2,3) by (cases k; cases "k - 1") auto
    have "length (decimal (n div 10)) \<le> k'" using 1(2) k False by (intro 1(1)) auto
    then show ?thesis using k False by (subst decimal.simps) simp
  qed
qed

lemma length_decimal_padded: "n < 10 ^ w \<Longrightarrow> 0 < w \<Longrightarrow> length (decimal_padded w n) = w"
  using length_decimal [of n w] by (simp add: decimal_padded_def)

lemma decimal_padded_digits: "\<forall>d \<in> set (decimal_padded w n). is_digit d"
  using decimal_digits [of n] by (auto simp: decimal_padded_def is_digit_def word_le_nat_alt)

lemma digit_not: "is_digit d \<Longrightarrow> d \<noteq> 0 \<and> d \<noteq> 43 \<and> d \<noteq> 45 \<and> \<not> is_space d"
  by (auto simp: is_digit_def is_space_def word_le_nat_alt)

text \<open>Digits followed by anything that is not a digit convert to their value.\<close>

lemma strtoull_digits:
  assumes ds: "\<forall>d \<in> set ds. is_digit d" "ds \<noteq> []" and v: "digits_value ds < 2 ^ 64"
    and rest: "rest = [] \<or> \<not> is_digit (hd rest)"
  shows "strtoull (ds @ rest) = of_nat (digits_value ds)"
proof -
  have nz: "takeWhile (\<lambda>b. b \<noteq> 0) (ds @ rest) = ds @ c_string rest"
    using ds(1) digit_not by (auto simp: c_string_def takeWhile_append2)
  obtain d ds' where d: "ds = d # ds'" using ds(2) by (cases ds) auto
  have nd: "\<not> is_space d" "d \<noteq> 43" "d \<noteq> 45" using ds(1) d digit_not by auto
  have dw: "dropWhile is_space (c_string (ds @ rest)) = ds @ c_string rest"
    using nz d nd(1) by (simp add: c_string_def)
  have "c_string rest = [] \<or> \<not> is_digit (hd (c_string rest))"
    using rest by (cases rest) (auto simp: c_string_def)
  then have "takeWhile is_digit (c_string rest) = []" by (cases "c_string rest") auto
  then have "takeWhile is_digit (ds @ c_string rest) = ds" using ds(1) by (simp add: takeWhile_append2)
  then show ?thesis using dw d nd v by (simp add: strtoull_def Let_def)
qed

lemma strtoull_decimal:
  assumes "n < 2 ^ 64" and "rest = [] \<or> \<not> is_digit (hd rest)"
  shows "strtoull (decimal n @ rest) = of_nat n"
  using strtoull_digits [OF decimal_digits decimal_ne, of n rest] assms by (simp add: digits_value_decimal)

lemma strtoull_padded:
  assumes "n < 2 ^ 64" and "rest = [] \<or> \<not> is_digit (hd rest)"
  shows "strtoull (decimal_padded w n @ rest) = of_nat n"
  using strtoull_digits [OF decimal_padded_digits, of w n rest] assms
  by (simp add: digits_value_decimal digits_value_pad decimal_padded_def)

end
