(* ===== verification/Itch_Parser.thy ===== *)
theory Itch_Parser
  imports Bytes Order_Types
begin

text \<open>
  \<^verbatim>\<open>include/itch_parser.h\<close> and \<^verbatim>\<open>src/itch_parser.cpp\<close>: the conversion of one ITCH message body into an
  order event.  The message is a byte list, \<^verbatim>\<open>len\<close> its length; a read past it would give \<open>None\<close>.  The
  output parameter is passed in and returned, so that a field the code does not assign keeps the
  caller's value.  The symbol table is a map from symbols to locate codes.
\<close>

datatype itch_type = ADD | DELETE | CANCEL | REPLACE | BOOK

record itch_event =
  ev_type :: itch_type
  ev_locate :: u16
  ev_order_ref :: u64
  ev_new_order_ref :: u64
  ev_side :: side
  ev_price :: u32
  ev_shares :: u32
  ev_user_id :: u64

type_synonym itch_parser = "u8 list \<rightharpoonup> u16"

definition rd_u16 :: "nat \<Rightarrow> u8 list \<Rightarrow> u16 option" where
  "rd_u16 p m = do {
     a \<leftarrow> byte_at p m;
     b \<leftarrow> byte_at (p + 1) m;
     Some (push_bit 8 (ucast a) OR ucast b)
   }"

definition rd_u32 :: "nat \<Rightarrow> u8 list \<Rightarrow> u32 option" where
  "rd_u32 p m = do {
     a \<leftarrow> byte_at p m;
     b \<leftarrow> byte_at (p + 1) m;
     c \<leftarrow> byte_at (p + 2) m;
     d \<leftarrow> byte_at (p + 3) m;
     Some (push_bit 24 (ucast a) OR push_bit 16 (ucast b) OR push_bit 8 (ucast c) OR ucast d)
   }"

definition rd_u64 :: "nat \<Rightarrow> u8 list \<Rightarrow> u64 option" where
  "rd_u64 p m = do {
     bs \<leftarrow> bytes_at p 8 m;
     Some (foldl (\<lambda>v b. push_bit 8 v OR ucast b) 0 bs)
   }"

definition itch_to_cents :: "u32 \<Rightarrow> u32" where
  "itch_to_cents itch_price = itch_price div 100"

definition locate_for_symbol :: "itch_parser \<Rightarrow> u8 list \<Rightarrow> u16" where
  "locate_for_symbol st stock = (case st stock of Some l \<Rightarrow> l | None \<Rightarrow> UINT16_MAX)"

text \<open>\<^verbatim>\<open>while (!s.empty() && (s.back() == ' ' || s.back() == 0)) s.pop_back();\<close>\<close>

function strip_back :: "u8 list \<Rightarrow> u8 list" where
  "strip_back s = (if s \<noteq> [] \<and> (last s = 32 \<or> last s = 0) then strip_back (butlast s) else s)"
  by pat_completeness auto
termination by (relation "measure length") auto

declare strip_back.simps [simp del]

text \<open>The stock directory message.\<close>

definition feed_directory :: "u8 list \<Rightarrow> itch_parser \<Rightarrow> itch_parser option" where
  "feed_directory m st =
     (if length m < 19 then Some st
      else do {
        loc \<leftarrow> rd_u16 1 m;
        stock \<leftarrow> bytes_at 11 8 m;
        let s = strip_back (c_string stock);
        Some (if s \<noteq> [] then st(s \<mapsto> loc) else st)
      })"

definition feed_add :: "u8 list \<Rightarrow> itch_event \<Rightarrow> (bool \<times> itch_event) option" where
  "feed_add m ev =
     (if length m < 36 then Some (False, ev)
      else do {
        l \<leftarrow> rd_u16 1 m;
        ref \<leftarrow> rd_u64 11 m;
        s \<leftarrow> byte_at 19 m;
        sh \<leftarrow> rd_u32 20 m;
        pr \<leftarrow> rd_u32 32 m;
        Some (True, ev\<lparr>ev_type := ADD, ev_locate := l, ev_order_ref := ref, ev_side := (if s = 83 then SELL else BUY),
                ev_shares := sh, ev_price := itch_to_cents pr\<rparr>)
      })"

definition feed_delete :: "u8 list \<Rightarrow> itch_event \<Rightarrow> (bool \<times> itch_event) option" where
  "feed_delete m ev =
     (if length m < 19 then Some (False, ev)
      else do {
        l \<leftarrow> rd_u16 1 m;
        ref \<leftarrow> rd_u64 11 m;
        Some (True, ev\<lparr>ev_type := DELETE, ev_locate := l, ev_order_ref := ref, ev_side := INVALID\<rparr>)
      })"

definition feed_cancel :: "u8 list \<Rightarrow> itch_event \<Rightarrow> (bool \<times> itch_event) option" where
  "feed_cancel m ev =
     (if length m < 23 then Some (False, ev)
      else do {
        l \<leftarrow> rd_u16 1 m;
        ref \<leftarrow> rd_u64 11 m;
        sh \<leftarrow> rd_u32 19 m;
        Some (True, ev\<lparr>ev_type := CANCEL, ev_locate := l, ev_order_ref := ref, ev_shares := sh, ev_side := INVALID\<rparr>)
      })"

definition feed_replace :: "u8 list \<Rightarrow> itch_event \<Rightarrow> (bool \<times> itch_event) option" where
  "feed_replace m ev =
     (if length m < 35 then Some (False, ev)
      else do {
        l \<leftarrow> rd_u16 1 m;
        ref \<leftarrow> rd_u64 11 m;
        new_ref \<leftarrow> rd_u64 19 m;
        sh \<leftarrow> rd_u32 27 m;
        pr \<leftarrow> rd_u32 31 m;
        Some (True, ev\<lparr>ev_type := REPLACE, ev_locate := l, ev_order_ref := ref, ev_new_order_ref := new_ref,
                ev_shares := sh, ev_price := itch_to_cents pr, ev_side := INVALID\<rparr>)
      })"

definition feed_book :: "u8 list \<Rightarrow> itch_event \<Rightarrow> (bool \<times> itch_event) option" where
  "feed_book m ev =
     (if length m < 3 then Some (False, ev)
      else do {
        l \<leftarrow> rd_u16 1 m;
        Some (True, ev\<lparr>ev_type := BOOK, ev_locate := l\<rparr>)
      })"

text \<open>\<^verbatim>\<open>ItchParser::feed\<close>; the branches of the \<^verbatim>\<open>switch\<close> are the definitions above.\<close>

definition feed :: "u8 list \<Rightarrow> itch_event \<Rightarrow> itch_parser \<Rightarrow> (bool \<times> itch_event \<times> itch_parser) option" where
  "feed m ev st =
     (if length m < 3 then Some (False, ev, st)
      else do {
        mt \<leftarrow> byte_at 0 m;
        if mt = 82 then do { st' \<leftarrow> feed_directory m st; Some (False, ev, st') }
        else do {
          (ok, ev') \<leftarrow> (if mt = 65 \<or> mt = 70 then feed_add m ev
                       else if mt = 68 then feed_delete m ev
                       else if mt = 88 then feed_cancel m ev
                       else if mt = 85 then feed_replace m ev
                       else if mt = 81 then feed_book m ev
                       else Some (False, ev));
          Some (ok, ev', st)
        }
      })"

section \<open>Wire format\<close>

text \<open>
  The message bodies the feed sends, as \<^verbatim>\<open>include/itch_parser.h\<close> describes them: \<open>hdr\<close> stands for the
  tracking number and time stamp, \<open>stock\<close> for the symbol, \<open>rest\<close> for what follows the fields read.  Prices
  go out in ten-thousandths of a dollar.
\<close>

fun wire :: "u8 list \<Rightarrow> u8 list \<Rightarrow> u8 list \<Rightarrow> itch_event \<Rightarrow> u8 list" where
  "wire hdr stock rest ev =
     (case ev_type ev of
        ADD \<Rightarrow> 65 # be16 (ev_locate ev) @ hdr @ be64 (ev_order_ref ev) @ (if ev_side ev = SELL then 83 else 66) #
                 be32 (ev_shares ev) @ stock @ be32 (ev_price ev * 100) @ rest
      | DELETE \<Rightarrow> 68 # be16 (ev_locate ev) @ hdr @ be64 (ev_order_ref ev) @ rest
      | CANCEL \<Rightarrow> 88 # be16 (ev_locate ev) @ hdr @ be64 (ev_order_ref ev) @ be32 (ev_shares ev) @ rest
      | REPLACE \<Rightarrow> 85 # be16 (ev_locate ev) @ hdr @ be64 (ev_order_ref ev) @ be64 (ev_new_order_ref ev) @
                 be32 (ev_shares ev) @ be32 (ev_price ev * 100) @ rest
      | BOOK \<Rightarrow> 81 # be16 (ev_locate ev) @ rest)"

text \<open>What the parser must deliver for the event \<open>ev\<close> into \<open>old\<close>.\<close>

fun delivered :: "itch_event \<Rightarrow> itch_event \<Rightarrow> itch_event" where
  "delivered old ev =
     (case ev_type ev of
        ADD \<Rightarrow> ev\<lparr>ev_new_order_ref := ev_new_order_ref old, ev_user_id := ev_user_id old\<rparr>
      | DELETE \<Rightarrow> old\<lparr>ev_type := DELETE, ev_locate := ev_locate ev, ev_order_ref := ev_order_ref ev, ev_side := INVALID\<rparr>
      | CANCEL \<Rightarrow> old\<lparr>ev_type := CANCEL, ev_locate := ev_locate ev, ev_order_ref := ev_order_ref ev, ev_side := INVALID,
                   ev_shares := ev_shares ev\<rparr>
      | REPLACE \<Rightarrow> ev\<lparr>ev_side := INVALID, ev_user_id := ev_user_id old\<rparr>
      | BOOK \<Rightarrow> old\<lparr>ev_type := BOOK, ev_locate := ev_locate ev\<rparr>)"

text \<open>The messages that carry an order event: the type byte and the bytes its fields need.\<close>

definition order_message :: "u8 list \<Rightarrow> bool" where
  "order_message m \<longleftrightarrow> 3 \<le> length m \<and>
     (if hd m = 65 \<or> hd m = 70 then 36 \<le> length m else if hd m = 68 then 19 \<le> length m
      else if hd m = 88 then 23 \<le> length m else if hd m = 85 then 35 \<le> length m else hd m = 81)"

definition wire_directory :: "u16 \<Rightarrow> u8 list \<Rightarrow> u8 list \<Rightarrow> u8 list \<Rightarrow> u8 list" where
  "wire_directory l hdr stock rest = 82 # be16 l @ hdr @ stock @ replicate (8 - length stock) 32 @ rest"

section \<open>Lemmas\<close>

lemma rd_u16_bytes: "rd_u16 p m = map_option join_be (bytes_at p 2 m)"
  by (auto simp: rd_u16_def numeral_2_eq_2 bytes_at_unfold join_be_def byte_at_def)

lemma rd_u32_bytes: "rd_u32 p m = map_option join_be (bytes_at p 4 m)"
proof -
  have "push_bit 24 (ucast a) OR push_bit 16 (ucast b) OR push_bit 8 (ucast c) OR ucast d = (join_be [a, b, c, d] :: u32)"
    for a b c d :: u8 by (simp add: join_be_def push_bit_or or.assoc)
  then show ?thesis
    by (auto simp: rd_u32_def eval_nat_numeral bytes_at_unfold byte_at_def)
qed

lemma rd_u64_bytes: "rd_u64 p m = map_option join_be (bytes_at p 8 m)"
  by (cases "bytes_at p 8 m") (simp_all add: rd_u64_def join_be_def)

lemmas rd_bytes [buf_simps] = rd_u16_bytes rd_u32_bytes rd_u64_bytes

lemma rd_total:
  "p + 2 \<le> length m \<Longrightarrow> \<exists>v. rd_u16 p m = Some v" "p + 4 \<le> length m \<Longrightarrow> \<exists>v. rd_u32 p m = Some v"
  "p + 8 \<le> length m \<Longrightarrow> \<exists>v. rd_u64 p m = Some v"
  by (simp_all add: rd_bytes bytes_at_def)

lemma cents_round_trip: "unat c < 42949673 \<Longrightarrow> itch_to_cents (c * 100) = c"
  by (simp add: itch_to_cents_def word_unat_eq_iff unat_div unat_word_ariths)

lemma strip_back_last: "last s \<noteq> 32 \<Longrightarrow> last s \<noteq> 0 \<Longrightarrow> strip_back s = s"
  by (subst strip_back.simps) simp

lemma strip_back_spaces: "last s \<noteq> 32 \<Longrightarrow> last s \<noteq> 0 \<Longrightarrow> s \<noteq> [] \<Longrightarrow> strip_back (s @ replicate k 32) = s"
proof (induction k)
  case (Suc k)
  have "s @ replicate (Suc k) 32 = (s @ replicate k 32) @ [32]" by (simp add: replicate_append_same)
  then show ?case using Suc by (simp add: strip_back.simps [of "(s @ replicate k 32) @ [32]"] butlast_snoc del: append_assoc)
qed (simp add: strip_back_last)

lemma feed_branches:
  "36 \<le> length m \<Longrightarrow> \<exists>ev'. feed_add m ev = Some (True, ev')" "length m < 36 \<Longrightarrow> feed_add m ev = Some (False, ev)"
  "19 \<le> length m \<Longrightarrow> \<exists>ev'. feed_delete m ev = Some (True, ev')" "length m < 19 \<Longrightarrow> feed_delete m ev = Some (False, ev)"
  "23 \<le> length m \<Longrightarrow> \<exists>ev'. feed_cancel m ev = Some (True, ev')" "length m < 23 \<Longrightarrow> feed_cancel m ev = Some (False, ev)"
  "35 \<le> length m \<Longrightarrow> \<exists>ev'. feed_replace m ev = Some (True, ev')" "length m < 35 \<Longrightarrow> feed_replace m ev = Some (False, ev)"
  "3 \<le> length m \<Longrightarrow> \<exists>ev'. feed_book m ev = Some (True, ev')"
  by (simp_all add: feed_add_def feed_delete_def feed_cancel_def feed_replace_def feed_book_def
        rd_bytes bytes_at_def byte_at_def)

lemma feed_directory_total: "\<exists>st'. feed_directory m st = Some st'"
  by (simp add: feed_directory_def rd_bytes bytes_at_def Let_def)

lemma feed_order:
  assumes "3 \<le> length m" and "hd m \<noteq> 82"
  shows "\<exists>ev'. feed m ev st = Some (order_message m, ev', st) \<and> (order_message m \<or> ev' = ev)"
proof -
  have hd: "byte_at 0 m = Some (hd m)" using assms(1) by (cases m) (auto simp: byte_at_def)
  have ne: "m \<noteq> []" using assms(1) by auto
  show ?thesis
    using feed_branches [of m ev] assms hd
    by (cases "36 \<le> length m"; cases "35 \<le> length m"; cases "23 \<le> length m"; cases "19 \<le> length m")
       (auto simp: feed_def order_message_def not_le)
qed

section \<open>Properties\<close>

text \<open>
  C18: the ITCH parser is total and reads only inside the message.  Whatever bytes arrive, \<^verbatim>\<open>feed\<close> returns;
  it reports an event exactly for the order messages that are long enough, the symbol table is then
  unchanged, and when it reports none the caller's event is left as it was.
\<close>

theorem feed_total:
  "case feed m ev st of None \<Rightarrow> False
   | Some (ok, ev', st') \<Rightarrow> ok = order_message m \<and> (if ok then st' = st else ev' = ev)"
proof (cases "3 \<le> length m")
  case long: True
  show ?thesis
  proof (cases "hd m = 82")
    case True
    have hd: "byte_at 0 m = Some (hd m)" using long by (cases m) (auto simp: byte_at_def)
    show ?thesis using True long hd feed_directory_total [of m st] by (auto simp: feed_def order_message_def)
  next
    case False
    then show ?thesis using feed_order [OF long False, of ev st] by auto
  qed
qed (simp add: feed_def order_message_def)

text \<open>
  C19: parsing inverts the wire format.  An event laid out as the message format prescribes, with any
  header, symbol and trailing bytes, is delivered with exactly its fields: locate code, references,
  side, quantity and the price in cents, as long as the price in ten-thousandths fits 32 bits.
\<close>

theorem feed_wire:
  assumes "length hdr = 8" and "length stock = 8" and "unat (ev_price ev) < 42949673"
    and "ev_type ev = ADD \<Longrightarrow> ev_side ev \<noteq> INVALID"
  shows "feed (wire hdr stock rest ev) old st = Some (True, delivered old ev, st)"
  using assms
  by (cases "ev_type ev"; cases "ev_side ev")
     (simp_all add: feed_def buf_simps feed_add_def feed_delete_def feed_cancel_def feed_replace_def feed_book_def
        cents_round_trip)

definition sample_event :: itch_event where
  "sample_event = \<lparr>ev_type = REPLACE, ev_locate = 7, ev_order_ref = 11, ev_new_order_ref = 12, ev_side = SELL,
     ev_price = 12345, ev_shares = 300, ev_user_id = 0\<rparr>"

theorem feed_wire_witness:
  "feed (wire (replicate 8 0) (replicate 8 32) [] sample_event) (sample_event\<lparr>ev_user_id := 9\<rparr>) Map.empty =
     Some (True, sample_event\<lparr>ev_side := INVALID, ev_user_id := 9\<rparr>, Map.empty)"
  using feed_wire [of "replicate 8 0" "replicate 8 32" sample_event "[]" "sample_event\<lparr>ev_user_id := 9\<rparr>" Map.empty]
  by (simp add: sample_event_def)

text \<open>
  C20: the stock directory.  A directory message makes \<^verbatim>\<open>locate_for_symbol\<close> return its locate code for its
  symbol, the padding blanks stripped, changes the answer for no other symbol and reports no event.
\<close>

theorem feed_wire_directory:
  assumes "length hdr = 8" and "stock \<noteq> []" "length stock \<le> 8" "0 \<notin> set stock" "last stock \<noteq> 32"
  shows "\<exists>st'. feed (wire_directory l hdr stock rest) ev st = Some (False, ev, st') \<and>
    locate_for_symbol st' s = (if s = stock then l else locate_for_symbol st s)"
proof -
  let ?pad = "replicate (8 - length stock) (32 :: u8)"
  have last0: "last stock \<noteq> 0" using assms(2,4) last_in_set by metis
  have "c_string (stock @ ?pad) = stock @ ?pad"
    using assms(4) by (auto simp: c_string_def takeWhile_eq_all_conv)
  then have strip: "strip_back (c_string (stock @ ?pad)) = stock" using assms last0 by (simp add: strip_back_spaces)
  have "bytes_at 11 8 (wire_directory l hdr stock rest) = Some (stock @ ?pad)"
    using assms bytes_at_here [of "stock @ ?pad" 8 rest] by (simp add: wire_directory_def buf_simps)
  moreover have "rd_u16 1 (wire_directory l hdr stock rest) = Some l" "length (wire_directory l hdr stock rest) \<ge> 19"
    "byte_at 0 (wire_directory l hdr stock rest) = Some 82"
    using assms by (simp_all add: wire_directory_def buf_simps)
  ultimately show ?thesis
    using strip assms(2) by (simp add: feed_def feed_directory_def locate_for_symbol_def Let_def)
qed

theorem feed_wire_directory_witness:
  "\<exists>st'. feed (wire_directory 7 (replicate 8 0) [65, 65, 80, 76] [1]) sample_event Map.empty = Some (False, sample_event, st') \<and>
    locate_for_symbol st' [65, 65, 80, 76] = 7"
  using feed_wire_directory [of "replicate 8 0" "[65, 65, 80, 76]" 7 "[1]" sample_event Map.empty "[65, 65, 80, 76]"] by simp

end
