(* ===== verification/Itch_Framing.thy ===== *)
theory Itch_Framing
  imports Bytes
begin

text \<open>
  The connection buffer of \<^verbatim>\<open>include/tcp_server.h\<close> and the frame loop of \<^verbatim>\<open>TcpServer::drainBuffered\<close>: a
  2-byte big-endian length followed by the message body.  The handler of a message is a parameter of the
  loop; the server instantiates it.
\<close>

record conn_context =
  cc_fd :: int
  cc_buf_idx :: u32
  cc_pending :: nat
  cc_consumed :: nat
  cc_accum :: "u8 list"
  cc_closing :: bool
  cc_close_acked :: bool

definition append_read :: "u8 list \<Rightarrow> conn_context \<Rightarrow> conn_context" where
  "append_read bytes c = (let a = cc_accum c @ bytes in c\<lparr>cc_accum := a, cc_pending := length a\<rparr>)"

definition compact :: "conn_context \<Rightarrow> conn_context" where
  "compact c =
     (if cc_consumed c = 0 then c
      else let remaining = cc_pending c - cc_consumed c
           in c\<lparr>cc_accum := take remaining (drop (cc_consumed c) (cc_accum c)), cc_pending := remaining, cc_consumed := 0\<rparr>)"

definition MAX_BODY :: nat where "MAX_BODY = 4096"

text \<open>The loop; a read outside the buffer would give \<open>None\<close>.\<close>

function drain_loop :: "(u8 list \<Rightarrow> 's \<Rightarrow> 's option) \<Rightarrow> conn_context \<Rightarrow> 's \<Rightarrow> (conn_context \<times> 's) option" where
  "drain_loop handle c s =
     (let avail = cc_pending c - cc_consumed c in
      if avail < 2 then Some (c, s)
      else do {
        p0 \<leftarrow> byte_at (cc_consumed c) (cc_accum c);
        p1 \<leftarrow> byte_at (cc_consumed c + 1) (cc_accum c);
        let body_len = unat p0 * 256 + unat p1;
        if body_len < 1 \<or> body_len > MAX_BODY
        then drain_loop handle (c\<lparr>cc_consumed := cc_consumed c + 1\<rparr>) s
        else if avail < 2 + body_len then Some (c, s)
        else do {
          msg \<leftarrow> bytes_at (cc_consumed c + 2) body_len (cc_accum c);
          s' \<leftarrow> handle msg s;
          drain_loop handle (c\<lparr>cc_consumed := cc_consumed c + (2 + body_len)\<rparr>) s'
        }
      })"
  by pat_completeness auto
termination by (relation "measure (\<lambda>(_, c, _). cc_pending c - cc_consumed c)") auto

declare drain_loop.simps [simp del]

definition drainBuffered :: "(u8 list \<Rightarrow> 's \<Rightarrow> 's option) \<Rightarrow> conn_context \<Rightarrow> 's \<Rightarrow> (conn_context \<times> 's) option" where
  "drainBuffered handle c s = do {
     (c1, s1) \<leftarrow> drain_loop handle c s;
     Some (compact c1, s1)
   }"

text \<open>The data path of \<^verbatim>\<open>onRecv\<close> for the chunks that arrive one after another.\<close>

fun recv_chunks :: "(u8 list \<Rightarrow> 's \<Rightarrow> 's option) \<Rightarrow> u8 list list \<Rightarrow> conn_context \<Rightarrow> 's \<Rightarrow> (conn_context \<times> 's) option" where
  "recv_chunks handle [] c s = Some (c, s)"
| "recv_chunks handle (b # bs) c s = do {
     (c1, s1) \<leftarrow> drainBuffered handle (append_read b c) s;
     recv_chunks handle bs c1 s1
   }"

section \<open>Reference decoder\<close>

text \<open>The message bodies of a byte stream and the bytes of an unfinished frame.\<close>

function frames :: "u8 list \<Rightarrow> u8 list list \<times> u8 list" where
  "frames bs =
     (if length bs < 2 then ([], bs)
      else let n = unat (bs ! 0) * 256 + unat (bs ! 1) in
        if n < 1 \<or> n > MAX_BODY then frames (drop 1 bs)
        else if length bs < 2 + n then ([], bs)
        else let (ms, rest) = frames (drop (2 + n) bs) in (take n (drop 2 bs) # ms, rest))"
  by pat_completeness auto
termination by (relation "measure length") auto

declare frames.simps [simp del]

text \<open>Handling messages one after another.\<close>

fun handle_all :: "(u8 list \<Rightarrow> 's \<Rightarrow> 's option) \<Rightarrow> u8 list list \<Rightarrow> 's \<Rightarrow> 's option" where
  "handle_all handle [] s = Some s"
| "handle_all handle (m # ms) s = do { s' \<leftarrow> handle m s; handle_all handle ms s' }"

text \<open>A message as it is framed on the wire.\<close>

definition framed :: "u8 list \<Rightarrow> u8 list" where
  "framed m = be16 (of_nat (length m)) @ m"

lemma handle_all_append: "handle_all h (ms @ ns) s = do { s' \<leftarrow> handle_all h ms s; handle_all h ns s' }"
proof (induction ms arbitrary: s)
  case (Cons m ms)
  then show ?case by (cases "h m s") simp_all
qed simp

section \<open>The loop computes the reference decoder\<close>

definition conn_ok :: "conn_context \<Rightarrow> bool" where
  "conn_ok c \<longleftrightarrow> cc_pending c = length (cc_accum c) \<and> cc_consumed c \<le> cc_pending c"

definition unread :: "conn_context \<Rightarrow> u8 list" where
  "unread c = drop (cc_consumed c) (cc_accum c)"

lemma length_unread: "conn_ok c \<Longrightarrow> length (unread c) = cc_pending c - cc_consumed c"
  by (simp add: unread_def conn_ok_def)

lemma frames_short: "length bs < 2 \<Longrightarrow> frames bs = ([], bs)"
  by (subst frames.simps) simp

lemma frames_cases:
  assumes "2 \<le> length bs"
  defines "n \<equiv> unat (bs ! 0) * 256 + unat (bs ! 1)"
  shows "n < 1 \<or> n > MAX_BODY \<Longrightarrow> frames bs = frames (drop 1 bs)"
    and "\<not> (n < 1 \<or> n > MAX_BODY) \<Longrightarrow> length bs < 2 + n \<Longrightarrow> frames bs = ([], bs)"
    and "\<not> (n < 1 \<or> n > MAX_BODY) \<Longrightarrow> \<not> length bs < 2 + n \<Longrightarrow>
      frames bs = (take n (drop 2 bs) # fst (frames (drop (2 + n) bs)), snd (frames (drop (2 + n) bs)))"
  using assms(1) unfolding frames.simps [of bs] Let_def n_def [symmetric] by (simp_all add: case_prod_beta)

lemma frames_suffix: "\<exists>pre. bs = pre @ snd (frames bs)"
proof (induction bs rule: frames.induct)
  case (1 bs)
  define n where "n = unat (bs ! 0) * 256 + unat (bs ! 1)"
  have split: "\<exists>pre. drop k bs = pre @ r \<Longrightarrow> \<exists>pre. bs = pre @ r" for k r
    by (metis append.assoc append_take_drop_id)
  note fr = frames_cases [of bs, folded n_def]
  consider (none) "length bs < 2" | (bad) "2 \<le> length bs" "n < 1 \<or> n > MAX_BODY"
    | (short) "2 \<le> length bs" "\<not> (n < 1 \<or> n > MAX_BODY)" "length bs < 2 + n"
    | (full) "2 \<le> length bs" "\<not> (n < 1 \<or> n > MAX_BODY)" "\<not> length bs < 2 + n" by linarith
  then show ?case
  proof cases
    case bad
    from 1(1) [OF _ n_def bad(2)] bad(1) show ?thesis by (intro split [of 1]) (simp add: fr(1) [OF bad])
  next
    case full
    from 1(2) [OF _ n_def full(2,3)] full(1) show ?thesis by (intro split [of "2 + n"]) (simp add: fr(3) [OF full])
  qed (simp_all add: frames_short fr(2))
qed

lemma drain_loop_step:
  assumes "2 \<le> cc_pending c - cc_consumed c" and "byte_at (cc_consumed c) (cc_accum c) = Some p0"
    "byte_at (cc_consumed c + 1) (cc_accum c) = Some p1" and n: "unat p0 * 256 + unat p1 = n"
  shows "n < 1 \<or> n > MAX_BODY \<Longrightarrow> drain_loop handle c s = drain_loop handle (c\<lparr>cc_consumed := cc_consumed c + 1\<rparr>) s"
    and "\<not> (n < 1 \<or> n > MAX_BODY) \<Longrightarrow> cc_pending c - cc_consumed c < 2 + n \<Longrightarrow> drain_loop handle c s = Some (c, s)"
    and "\<not> (n < 1 \<or> n > MAX_BODY) \<Longrightarrow> \<not> cc_pending c - cc_consumed c < 2 + n \<Longrightarrow>
      bytes_at (cc_consumed c + 2) n (cc_accum c) = Some m \<Longrightarrow>
      drain_loop handle c s = do { s' \<leftarrow> handle m s; drain_loop handle (c\<lparr>cc_consumed := cc_consumed c + (2 + n)\<rparr>) s' }"
  using assms(1) unfolding drain_loop.simps [of handle c s] Let_def assms(2,3) Option.bind.bind_lunit n by simp_all

lemma drain_loop_frames:
  assumes "conn_ok c" and "unread c = bs"
  shows "drain_loop handle c s =
    map_option (\<lambda>s'. (c\<lparr>cc_consumed := cc_pending c - length (snd (frames bs))\<rparr>, s')) (handle_all handle (fst (frames bs)) s)"
  using assms
proof (induction bs arbitrary: c s rule: frames.induct)
  case (1 bs)
  define n where "n = unat (bs ! 0) * 256 + unat (bs ! 1)"
  have len: "length bs = cc_pending c - cc_consumed c" and ok: "cc_pending c = length (cc_accum c)" "cc_consumed c \<le> cc_pending c"
    and bs: "bs = drop (cc_consumed c) (cc_accum c)"
    using 1(3,4) by (auto simp: length_unread conn_ok_def unread_def)
  have b: "byte_at (cc_consumed c) (cc_accum c) = Some (bs ! 0)" "byte_at (cc_consumed c + 1) (cc_accum c) = Some (bs ! 1)"
    if "2 \<le> length bs" using that len ok bs by (auto simp: byte_at_def)
  have later: "conn_ok (c\<lparr>cc_consumed := cc_consumed c + k\<rparr>)" "unread (c\<lparr>cc_consumed := cc_consumed c + k\<rparr>) = drop k bs"
    if "k \<le> length bs" for k using that len ok bs by (auto simp: conn_ok_def unread_def add.commute)
  note step = drain_loop_step [of c, folded len, OF _ b n_def [symmetric]]
  note fr = frames_cases [of bs, folded n_def]
  consider (none) "length bs < 2" | (bad) "2 \<le> length bs" "n < 1 \<or> n > MAX_BODY"
    | (short) "2 \<le> length bs" "\<not> (n < 1 \<or> n > MAX_BODY)" "length bs < 2 + n"
    | (full) "2 \<le> length bs" "\<not> (n < 1 \<or> n > MAX_BODY)" "\<not> length bs < 2 + n" by linarith
  then show ?case
  proof cases
    case none
    then show ?thesis using len ok by (simp add: drain_loop.simps [of handle c s] frames_short)
  next
    case bad
    have "drain_loop handle (c\<lparr>cc_consumed := cc_consumed c + 1\<rparr>) s =
        map_option (\<lambda>s'. (c\<lparr>cc_consumed := cc_pending c - length (snd (frames bs))\<rparr>, s')) (handle_all handle (fst (frames bs)) s)"
      using 1(1) [OF _ n_def bad(2) later] bad(1) fr(1) [OF bad] by simp
    then show ?thesis by (rule trans [OF step(1) [OF bad(1,1,1) bad(2)]])
  next
    case short
    then show ?thesis using len ok step(2) [OF short(1,1,1) short(2,3)] fr(2) [OF short] by simp
  next
    case full
    have m: "bytes_at (cc_consumed c + 2) n (cc_accum c) = Some (take n (drop 2 bs))"
      using full len ok bs by (simp add: bytes_at_def add.commute)
    have "drain_loop handle (c\<lparr>cc_consumed := cc_consumed c + (2 + n)\<rparr>) s' =
        map_option (\<lambda>s'. (c\<lparr>cc_consumed := cc_pending c - length (snd (frames bs))\<rparr>, s')) (handle_all handle (fst (frames (drop (2 + n) bs))) s')" for s'
      using 1(2) [OF _ n_def full(2,3) later] full fr(3) [OF full] by simp
    then show ?thesis
      by (intro trans [OF step(3) [OF full(1,1,1) full(2,3) m]]) (simp add: fr(3) [OF full] map_option_bind comp_def)
  qed
qed

section \<open>Streams\<close>

lemma frames_append:
  "frames (xs @ ys) = (fst (frames xs) @ fst (frames (snd (frames xs) @ ys)), snd (frames (snd (frames xs) @ ys)))"
proof (induction xs rule: frames.induct)
  case (1 xs)
  define n where "n = unat (xs ! 0) * 256 + unat (xs ! 1)"
  have two: "\<exists>a b xs'. xs = a # b # xs'" if "2 \<le> length xs" using that by (cases xs; cases "tl xs") auto
  note fr = frames_cases [of xs, folded n_def]
  consider (none) "length xs < 2" | (bad) "2 \<le> length xs" "n < 1 \<or> n > MAX_BODY"
    | (short) "2 \<le> length xs" "\<not> (n < 1 \<or> n > MAX_BODY)" "length xs < 2 + n"
    | (full) "2 \<le> length xs" "\<not> (n < 1 \<or> n > MAX_BODY)" "\<not> length xs < 2 + n" by linarith
  then show ?case
  proof cases
    case bad
    have n: "unat ((xs @ ys) ! 0) * 256 + unat ((xs @ ys) ! 1) = n" using two [OF bad(1)] n_def by auto
    have "frames (xs @ ys) = frames (drop 1 xs @ ys)" using frames_cases(1) [of "xs @ ys", unfolded n] bad by simp
    also have "\<dots> = (fst (frames xs) @ fst (frames (snd (frames xs) @ ys)), snd (frames (snd (frames xs) @ ys)))"
      using 1(1) [OF _ n_def bad(2)] bad(1) fr(1) [OF bad] by simp
    finally show ?thesis .
  next
    case full
    have n: "unat ((xs @ ys) ! 0) * 256 + unat ((xs @ ys) ! 1) = n" using two [OF full(1)] n_def by auto
    have "frames (xs @ ys) = (take n (drop 2 xs) # fst (frames (drop (2 + n) xs @ ys)), snd (frames (drop (2 + n) xs @ ys)))"
      using frames_cases(3) [of "xs @ ys", unfolded n] full by simp
    then show ?thesis using 1(2) [OF _ n_def full(2,3)] full(1) fr(3) [OF full] by simp
  qed (simp_all add: frames_short fr(2))
qed

lemma frames_idem: "frames (snd (frames xs)) = ([], snd (frames xs))"
  using frames_append [of xs "[]"] by (metis append_Nil2 append_self_conv fst_conv prod.collapse snd_conv)

lemma framed_length:
  assumes "1 \<le> length m" and "length m \<le> MAX_BODY"
  shows "unat ((framed m @ ys) ! 0) * 256 + unat ((framed m @ ys) ! 1) = length m" "length (framed m) = 2 + length m"
proof -
  let ?v = "of_nat (length m) :: u16"
  have v: "unat ?v = length m" using assms(2) by (simp add: unat_of_nat MAX_BODY_def)
  have "unat (drop_bit 8 ?v) = length m div 256" using v assms(2) by (simp only: unsigned_drop_bit_eq) (simp add: drop_bit_eq_div take_bit_eq_mod MAX_BODY_def)
  moreover have "length m div 256 < 256" using assms(2) by (simp add: MAX_BODY_def less_mult_imp_div_less)
  ultimately have "unat (ucast (drop_bit 8 ?v) :: u8) = length m div 256" "unat (ucast ?v :: u8) = length m mod 256"
    using v by (simp_all only: unsigned_ucast_eq take_bit_eq_mod) simp_all
  then show "unat ((framed m @ ys) ! 0) * 256 + unat ((framed m @ ys) ! 1) = length m"
    by (simp add: framed_def be16_def)
  show "length (framed m) = 2 + length m" by (simp add: framed_def)
qed

lemma frames_framed:
  assumes "1 \<le> length m" and "length m \<le> MAX_BODY"
  shows "frames (framed m @ ys) = (m # fst (frames ys), snd (frames ys))"
proof -
  note l = framed_length(1) [OF assms, of ys] framed_length(2) [OF assms]
  have "2 \<le> length (framed m @ ys)" "\<not> (length m < 1 \<or> length m > MAX_BODY)" "\<not> length (framed m @ ys) < 2 + length m"
    using l assms by auto
  note f = frames_cases(3) [of "framed m @ ys", unfolded l(1), OF this]
  have "drop (2 + length m) (framed m @ ys) = ys" "take (length m) (drop 2 (framed m @ ys)) = m"
    using l(2) by (simp_all add: framed_def)
  with f show ?thesis by simp
qed

lemma frames_stream: "\<forall>m \<in> set ms. 1 \<le> length m \<and> length m \<le> MAX_BODY \<Longrightarrow> frames (concat (map framed ms)) = (ms, [])"
  by (induction ms) (simp_all add: frames_short frames_framed)

text \<open>The connection after all complete frames have been handled.\<close>

definition keep_rest :: "u8 list \<Rightarrow> conn_context \<Rightarrow> conn_context" where
  "keep_rest rest c = c\<lparr>cc_accum := rest, cc_pending := length rest, cc_consumed := 0\<rparr>"

lemma drainBuffered_frames:
  assumes "conn_ok c" and "cc_consumed c = 0"
  shows "drainBuffered handle c s =
    map_option (\<lambda>s'. (keep_rest (snd (frames (cc_accum c))) c, s')) (handle_all handle (fst (frames (cc_accum c))) s)"
proof -
  let ?f = "frames (cc_accum c)"
  obtain pre where pre: "cc_accum c = pre @ snd ?f" using frames_suffix by blast
  have len: "cc_pending c = length pre + length (snd ?f)" using assms(1) pre by (metis conn_ok_def length_append)
  have u: "unread c = cc_accum c" using assms(2) by (simp add: unread_def)
  have "compact (c\<lparr>cc_consumed := cc_pending c - length (snd ?f)\<rparr>) = keep_rest (snd ?f) c"
  proof (cases "pre = []")
    case True
    then have "cc_accum c = snd ?f" using pre by simp
    then show ?thesis using len True assms(2) by (cases c) (simp add: compact_def keep_rest_def)
  next
    case False
    have "drop (length pre) (cc_accum c) = snd ?f" using pre by (metis append_eq_conv_conj)
    then show ?thesis using len False by (simp add: compact_def keep_rest_def Let_def)
  qed
  then show ?thesis
    unfolding drainBuffered_def drain_loop_frames [OF assms(1) u] by (cases "handle_all handle (fst ?f) s") simp_all
qed

lemma append_read_ok:
  "conn_ok (append_read b (keep_rest r c))" "cc_consumed (append_read b (keep_rest r c)) = 0"
  "cc_accum (append_read b (keep_rest r c)) = r @ b" "keep_rest r' (append_read b (keep_rest r c)) = keep_rest r' c"
  by (simp_all add: append_read_def keep_rest_def conn_ok_def Let_def)

lemma recv_chunks_frames:
  assumes "frames r = ([], r)"
  shows "recv_chunks handle bs (keep_rest r c) s =
    map_option (\<lambda>s'. (keep_rest (snd (frames (r @ concat bs))) c, s')) (handle_all handle (fst (frames (r @ concat bs))) s)"
  using assms
proof (induction bs arbitrary: r s)
  case (Cons b bs)
  let ?f = "frames (r @ b)"
  have rest: "frames (snd ?f) = ([], snd ?f)" using frames_idem by blast
  have f: "frames (r @ concat (b # bs)) = (fst ?f @ fst (frames (snd ?f @ concat bs)), snd (frames (snd ?f @ concat bs)))"
    using frames_append [of "r @ b" "concat bs"] by (simp only: append_assoc concat.simps)
  show ?case
  proof (cases "handle_all handle (fst ?f) s")
    case None
    then show ?thesis by (simp add: drainBuffered_frames append_read_ok f handle_all_append del: concat.simps)
  next
    case (Some s1)
    then show ?thesis using Cons.IH [OF rest, of s1] by (simp add: drainBuffered_frames append_read_ok f handle_all_append del: concat.simps)
  qed
qed simp

text \<open>A connection as it is accepted.\<close>

definition idle_conn :: conn_context where
  "idle_conn = \<lparr>cc_fd = 5, cc_buf_idx = 0, cc_pending = 0, cc_consumed = 0, cc_accum = [], cc_closing = False, cc_close_acked = False\<rparr>"

section \<open>Properties\<close>

text \<open>
  C28: messages survive any fragmentation of the stream.  However the bytes of a sequence of framed messages
  are split into received chunks, cutting length prefixes and bodies anywhere, the connection hands exactly
  those messages to the handler, once each and in order, and ends with an empty buffer.
\<close>

theorem framing_any_chunks:
  assumes "\<forall>m \<in> set ms. 1 \<le> length m \<and> length m \<le> MAX_BODY" and "concat chunks = concat (map framed ms)"
  shows "recv_chunks handle chunks (keep_rest [] c) s =
    map_option (\<lambda>s'. (keep_rest [] c, s')) (handle_all handle ms s)"
  using recv_chunks_frames [of "[]" handle chunks c s] frames_stream [OF assms(1)] assms(2) by (simp add: frames_short)

theorem framing_any_chunks_witness:
  "recv_chunks (\<lambda>m s. Some (s @ [m])) [[0], [2, 7], [8, 0, 1], [9]] (keep_rest [] idle_conn) [] =
     Some (keep_rest [] idle_conn, [[7, 8], [9]])"
  using framing_any_chunks [of "[[7, 8], [9]]" "[[0], [2, 7], [8, 0, 1], [9]]" "\<lambda>m s. Some (s @ [m])" idle_conn "[]"]
  by (simp add: framed_def be16_def MAX_BODY_def)

end
