(* ===== verification/Uring_Poller.thy ===== *)
theory Uring_Poller
  imports Order_Pool
begin

text \<open>
  \<^verbatim>\<open>include/io_uring_poller.h\<close>: the stack of fixed receive buffers, the submission queue as far as the
  server fills it, and the dispatch of completions.  The kernel's side of the ring is the environment: it
  supplies the completions and empties the submission queue.
\<close>

definition DEFAULT_ENTRIES :: nat where "DEFAULT_ENTRIES = 256"
definition MAX_BUFFERS :: u32 where "MAX_BUFFERS = 64"
definition BUF_SIZE :: nat where "BUF_SIZE = 4096"

datatype sqe = SqeAccept int | SqeRecv int u32 | SqeTimeout int

record cqe =
  cqe_fd :: int
  cqe_res :: int

record poller =
  buf_free_stack :: "u32 list"
  buf_free_top :: u32
  sq :: "sqe list"

definition new_IoUringPoller :: poller where
  "new_IoUringPoller = \<lparr>buf_free_stack = map (\<lambda>i. MAX_BUFFERS - 1 - of_nat i) [0..<unat MAX_BUFFERS],
     buf_free_top = MAX_BUFFERS, sq = []\<rparr>"

definition alloc_buffer :: "poller \<Rightarrow> (u32 \<times> poller) option" where
  "alloc_buffer p =
     (if buf_free_top p = 0 then Some (UINT32_MAX, p)
      else do {
        let top = buf_free_top p - 1;
        x \<leftarrow> arr_get (buf_free_stack p) top;
        Some (x, p\<lparr>buf_free_top := top\<rparr>)
      })"

definition free_buffer :: "u32 \<Rightarrow> poller \<Rightarrow> poller option" where
  "free_buffer idx p =
     (if buf_free_top p < MAX_BUFFERS
      then do {
        st \<leftarrow> arr_upd (buf_free_stack p) (buf_free_top p) (\<lambda>_. idx);
        Some (p\<lparr>buf_free_stack := st, buf_free_top := buf_free_top p + 1\<rparr>)
      }
      else Some p)"

text \<open>\<^verbatim>\<open>io_uring_get_sqe\<close> gives no entry when the submission queue is full.\<close>

definition submit :: "sqe \<Rightarrow> poller \<Rightarrow> bool \<times> poller" where
  "submit e p = (if length (sq p) < DEFAULT_ENTRIES then (True, p\<lparr>sq := sq p @ [e]\<rparr>) else (False, p))"

definition submit_recv :: "int \<Rightarrow> u32 \<Rightarrow> poller \<Rightarrow> bool \<times> poller" where
  "submit_recv fd idx p = submit (SqeRecv fd idx) p"

definition submit_accept :: "int \<Rightarrow> poller \<Rightarrow> bool \<times> poller" where
  "submit_accept server_fd p = submit (SqeAccept server_fd) p"

text \<open>The submission hands the queued entries to the kernel; the wait itself is the environment's.\<close>

definition submit_and_wait :: "poller \<Rightarrow> sqe list \<times> poller" where
  "submit_and_wait p = (sq p, p\<lparr>sq := []\<rparr>)"

definition submit_and_wait_timeout :: "int \<Rightarrow> poller \<Rightarrow> sqe list \<times> poller" where
  "submit_and_wait_timeout server_fd p = submit_and_wait (snd (submit (SqeTimeout server_fd) p))"

fun process_cqes :: "int \<Rightarrow> (int \<Rightarrow> 's \<Rightarrow> 's option) \<Rightarrow> (int \<Rightarrow> int \<Rightarrow> 's \<Rightarrow> 's option) \<Rightarrow> cqe list \<Rightarrow> 's \<Rightarrow> 's option" where
  "process_cqes server_fd on_accept on_recv [] s = Some s"
| "process_cqes server_fd on_accept on_recv (c # cs) s = do {
     s1 \<leftarrow> (if cqe_fd c = server_fd then if cqe_res c > 0 then on_accept (cqe_res c) s else Some s
           else on_recv (cqe_fd c) (cqe_res c) s);
     process_cqes server_fd on_accept on_recv cs s1
   }"

section \<open>The buffer stack is a slot allocator\<close>

text \<open>The free buffers, next to be handed out first.\<close>

definition buffers_free :: "poller \<Rightarrow> u32 list \<Rightarrow> bool" where
  "buffers_free p fl \<longleftrightarrow> length (buf_free_stack p) = unat MAX_BUFFERS \<and> unat (buf_free_top p) = length fl \<and>
     fl = rev (take (length fl) (buf_free_stack p)) \<and> distinct fl \<and> (\<forall>x \<in> set fl. x < MAX_BUFFERS)"

definition alloc_buffer_opt :: "poller \<Rightarrow> (u32 option \<times> poller) option" where
  "alloc_buffer_opt p = map_option (\<lambda>(x, p'). (if x = UINT32_MAX then None else Some x, p')) (alloc_buffer p)"

lemma free_buffers_bound:
  assumes "distinct fl" and "\<forall>x \<in> set fl. x < MAX_BUFFERS"
  shows "length fl \<le> unat MAX_BUFFERS" and "y < MAX_BUFFERS \<Longrightarrow> y \<notin> set fl \<Longrightarrow> length fl < unat MAX_BUFFERS"
proof -
  have inj: "inj_on unat (S :: u32 set)" for S by (simp add: inj_on_def word_unat_eq_iff)
  have "unat ` set fl \<subseteq> {..<unat MAX_BUFFERS}" using assms(2) by (auto simp: word_less_nat_alt)
  then have "card (unat ` set fl) \<le> unat MAX_BUFFERS" using card_mono [of "{..<unat MAX_BUFFERS}"] by simp
  then show "length fl \<le> unat MAX_BUFFERS" using assms(1) inj by (simp add: card_image distinct_card)
  assume y: "y < MAX_BUFFERS" "y \<notin> set fl"
  then have "unat ` set (y # fl) \<subseteq> {..<unat MAX_BUFFERS}" using assms(2) by (auto simp: word_less_nat_alt)
  then have "card (unat ` set (y # fl)) \<le> unat MAX_BUFFERS" using card_mono [of "{..<unat MAX_BUFFERS}"] by (simp only: finite_lessThan card_lessThan)
  then show "length fl < unat MAX_BUFFERS" using assms(1) inj y(2) by (simp only: card_image) (simp add: distinct_card)
qed

lemma MAX_BUFFERS_nat [simp]: "unat MAX_BUFFERS = 64"
  by (simp add: MAX_BUFFERS_def)

interpretation buffer_stack: slot_allocator alloc_buffer_opt free_buffer buffers_free "\<lambda>_ x. x < MAX_BUFFERS"
proof (unfold_locales, goal_cases)
  case (1 p)
  then show ?case by (simp add: buffers_free_def alloc_buffer_opt_def alloc_buffer_def unat_eq_zero)
next
  case (2 p x fl)
  then have l: "length (buf_free_stack p) = 64" "unat (buf_free_top p) = Suc (length fl)"
    and r: "x # fl = rev (take (Suc (length fl)) (buf_free_stack p))" and d: "distinct (x # fl)" "\<forall>y \<in> set (x # fl). y < MAX_BUFFERS"
    unfolding buffers_free_def MAX_BUFFERS_nat length_Cons by blast+
  have k: "length fl < 64" using free_buffers_bound(1) [OF d] by simp
  have top: "buf_free_top p \<noteq> 0" "unat (buf_free_top p - 1) = length fl" using l(2) by (auto simp: unat_sub word_le_nat_alt unat_eq_zero)
  have t: "take (Suc (length fl)) (buf_free_stack p) = take (length fl) (buf_free_stack p) @ [buf_free_stack p ! length fl]"
    using k l(1) by (simp add: take_Suc_conv_app_nth)
  then have x: "x = buf_free_stack p ! length fl" "fl = rev (take (length fl) (buf_free_stack p))" using r by simp_all
  have "x \<noteq> UINT32_MAX" using d(2) by (auto simp: MAX_BUFFERS_def word_less_nat_alt)
  then show ?case using top k l x d by (simp add: alloc_buffer_opt_def alloc_buffer_def arr_get_def buffers_free_def)
next
  case (3 p fl x)
  then have l: "length (buf_free_stack p) = 64" "unat (buf_free_top p) = length fl" "fl = rev (take (length fl) (buf_free_stack p))"
    and d: "distinct fl" "\<forall>y \<in> set fl. y < MAX_BUFFERS" by (auto simp: buffers_free_def)
  have k: "length fl < 64" using free_buffers_bound(2) [OF d 3(2,3)] by simp
  have top: "buf_free_top p < MAX_BUFFERS" "unat (buf_free_top p + 1) = Suc (length fl)"
    using k l(2) by (simp_all add: word_less_nat_alt unat_word_ariths)
  have "take (Suc (length fl)) ((buf_free_stack p)[length fl := x]) = take (length fl) (buf_free_stack p) @ [x]"
    using k l(1) by (simp add: take_Suc_conv_app_nth)
  then show ?case using top k l d 3 by (simp add: free_buffer_def arr_upd_def buffers_free_def)
next
  case (4 p fl x)
  then show ?case by (simp add: buffers_free_def)
next
  case (5 p fl)
  then show ?case by (simp add: buffers_free_def)
qed

lemma new_poller_free: "buffers_free new_IoUringPoller (map of_nat [0..<64])"
proof -
  have "map (\<lambda>i. MAX_BUFFERS - 1 - of_nat i) [0..<64] = rev (map of_nat [0..<64] :: u32 list)"
    by (simp add: MAX_BUFFERS_def upt_rec)
  then show ?thesis
    by (auto simp: buffers_free_def new_IoUringPoller_def MAX_BUFFERS_def distinct_map inj_on_def word_unat_eq_iff unat_of_nat
        word_less_nat_alt)
qed

end
