(* ===== verification/Response_Frame.thy ===== *)
theory Response_Frame
  imports Bytes Order_Types
begin

text \<open>
  \<^verbatim>\<open>BinaryResponse\<close> of \<^verbatim>\<open>include/protocol.h\<close> as the 48 bytes the ring and the sockets carry: the type
  byte at offset 0, the union at offset 8, integers little-endian.  Bytes that no member covers, and the
  members the code does not assign, keep whatever \<open>junk\<close> the memory held.
\<close>

definition FRAME_LEN :: nat where "FRAME_LEN = 48"

definition le16 :: "u16 \<Rightarrow> u8 list" where "le16 v = rev (be16 v)"
definition le32 :: "u32 \<Rightarrow> u8 list" where "le32 v = rev (be32 v)"
definition le64 :: "u64 \<Rightarrow> u8 list" where "le64 v = rev (be64 v)"

definition rd_le :: "nat \<Rightarrow> nat \<Rightarrow> u8 list \<Rightarrow> 'a::len word option" where
  "rd_le p n m = map_option (\<lambda>bs. join_be (rev bs)) (bytes_at p n m)"

text \<open>The union member behind the type byte; \<open>junk\<close> supplies the padding inside it.\<close>

fun frame_data :: "u8 list \<Rightarrow> response \<Rightarrow> u8 list" where
  "frame_data junk (RSP_TRADE l ref sd pr q) = le64 l @ le64 ref @ [sd] @ take 3 (drop 25 junk) @ le32 pr @ le32 q"
| "frame_data junk (RSP_OK ref) = le64 ref"
| "frame_data junk (RSP_FILLED ref) = le64 ref"
| "frame_data junk (RSP_CANCELLED ref) = le64 ref"
| "frame_data junk (RSP_ERROR c) = le16 (error_code_value c)"
| "frame_data junk (RSP_BOOK l bp bv ap av) = le64 l @ le32 bp @ le32 bv @ le32 ap @ le32 av"
| "frame_data junk (RSP_HEADER fd count) = le32 fd @ le32 count"
| "frame_data junk (RSP_CLOSE fd ack) = le32 fd @ le32 0 @ le64 ack"

definition frame_bytes :: "u8 list \<Rightarrow> response \<Rightarrow> u8 list" where
  "frame_bytes junk r =
     (let d = frame_data junk r in rsp_type r # take 7 (drop 1 junk) @ d @ drop (8 + length d) junk)"

text \<open>Reading a frame back through the members the type selects.\<close>

definition error_code_of :: "u16 \<Rightarrow> error_code option" where
  "error_code_of c = find (\<lambda>e. error_code_value e = c)
     [INVALID_SIDE, INVALID_PRICE_QTY_USER, ORDER_NOT_FOUND, INVALID_COMMAND_TYPE, POOL_FULL, MKT_NO_LIQUIDITY, FOK_NO_FULL_FILL]"

definition frame_read :: "u8 list \<Rightarrow> response option" where
  "frame_read m = do {
     t \<leftarrow> byte_at 0 m;
     if t = 0x81 then do {
       l \<leftarrow> rd_le 8 8 m; ref \<leftarrow> rd_le 16 8 m; sd \<leftarrow> byte_at 24 m; pr \<leftarrow> rd_le 28 4 m; q \<leftarrow> rd_le 32 4 m;
       Some (RSP_TRADE l ref sd pr q) }
     else if t = 0x82 then map_option RSP_OK (rd_le 8 8 m)
     else if t = 0x83 then map_option RSP_FILLED (rd_le 8 8 m)
     else if t = 0x84 then map_option RSP_CANCELLED (rd_le 8 8 m)
     else if t = 0x85 then do { c \<leftarrow> rd_le 8 2 m; map_option RSP_ERROR (error_code_of c) }
     else if t = 0x86 then do {
       l \<leftarrow> rd_le 8 8 m; bp \<leftarrow> rd_le 16 4 m; bv \<leftarrow> rd_le 20 4 m; ap \<leftarrow> rd_le 24 4 m; av \<leftarrow> rd_le 28 4 m;
       Some (RSP_BOOK l bp bv ap av) }
     else if t = 0x87 then do { fd \<leftarrow> rd_le 8 4 m; n \<leftarrow> rd_le 12 4 m; Some (RSP_HEADER fd n) }
     else if t = 0x88 then do { fd \<leftarrow> rd_le 8 4 m; a \<leftarrow> rd_le 16 8 m; Some (RSP_CLOSE fd a) }
     else None
   }"

lemma length_le [simp]: "length (le16 a) = 2" "length (le32 b) = 4" "length (le64 c) = 8"
  by (simp_all add: le16_def le32_def le64_def)

lemma join_le [simp]: "join_be (rev (le16 a)) = a" "join_be (rev (le32 b)) = b" "join_be (rev (le64 c)) = c"
  by (simp_all add: le16_def le32_def le64_def)

lemma length_frame_data: "length junk = FRAME_LEN \<Longrightarrow> length (frame_data junk r) \<le> 28"
  by (cases r) (simp_all add: FRAME_LEN_def)

lemma length_frame_bytes: "length junk = FRAME_LEN \<Longrightarrow> length (frame_bytes junk r) = FRAME_LEN"
  using length_frame_data [of junk r] by (simp add: frame_bytes_def Let_def FRAME_LEN_def)

lemma error_code_round_trip [simp]: "error_code_of (error_code_value c) = Some c"
  by (cases c) (simp_all add: error_code_of_def)

lemma frame_type: "byte_at 0 (frame_bytes junk r) = Some (rsp_type r)"
  by (simp add: frame_bytes_def Let_def buf_simps)

lemma frame_read_bytes:
  assumes "length junk = FRAME_LEN"
  shows "frame_read (frame_bytes junk r) = Some r"
proof -
  have "length (take 7 (drop 1 junk)) = 7" "length (take 3 (drop 25 junk)) = 3" using assms by (simp_all add: FRAME_LEN_def)
  then show ?thesis
    by (cases r) (simp_all add: frame_read_def frame_bytes_def Let_def buf_simps rd_le_def)
qed



end
