(* ===== verification/Spsc_Ring.thy ===== *)
theory Spsc_Ring
  imports Bytes
begin

text \<open>
  \<^verbatim>\<open>include/spsc_byte_ring.h\<close>: the single-producer single-consumer byte ring between the IO thread and the
  send thread.  The two counters are 64-bit words that only grow and wrap; the capacity \<^verbatim>\<open>N\<close> is the
  length of the buffer.  \<^verbatim>\<open>read_acquire\<close> returns the offset of the contiguous block and its length.
\<close>

definition RING_SIZE :: nat where "RING_SIZE = 8388608"

record spsc_ring =
  sr_tail :: u64
  sr_head :: u64
  sr_buf :: "u8 list"

definition ring_size :: "spsc_ring \<Rightarrow> u64" where
  "ring_size r = of_nat (length (sr_buf r))"

definition new_ring :: "nat \<Rightarrow> spsc_ring" where
  "new_ring n = \<lparr>sr_tail = 0, sr_head = 0, sr_buf = replicate n 0\<rparr>"

text \<open>The two \<^verbatim>\<open>memcpy\<close>s of \<^verbatim>\<open>push\<close>: \<open>actual\<close> bytes of \<open>data\<close> from position \<open>pos\<close> on, wrapping once.\<close>

definition copy_in :: "u64 \<Rightarrow> u64 \<Rightarrow> u8 list \<Rightarrow> u8 list \<Rightarrow> u8 list option" where
  "copy_in pos actual data buf = do {
     let n1 = (if of_nat (length buf) - pos > actual then actual else of_nat (length buf) - pos);
     d1 \<leftarrow> bytes_at 0 (unat n1) data;
     b1 \<leftarrow> (if n1 > 0 then put_bytes (unat pos) d1 buf else Some buf);
     let n2 = actual - n1;
     d2 \<leftarrow> bytes_at (unat n1) (unat n2) data;
     (if n2 > 0 then put_bytes 0 d2 b1 else Some b1)
   }"

text \<open>
  \<^verbatim>\<open>push\<close> up to its last store, for the value of the consumer's counter it loaded: the number of bytes to
  publish and the buffer with the bytes copied in.
\<close>

definition push_copy :: "u64 \<Rightarrow> u8 list \<Rightarrow> spsc_ring \<Rightarrow> (u64 \<times> u8 list) option" where
  "push_copy head data r =
     (let len = of_nat (length data);
          free = ring_size r - (sr_tail r - head)
      in if free = 0 \<or> len = 0 then Some (0, sr_buf r)
      else do {
        let actual = (if len < free then len else free);
        let pos = sr_tail r AND (ring_size r - 1);
        b \<leftarrow> copy_in pos actual data (sr_buf r);
        Some (actual, b)
      })"

text \<open>The store that makes the bytes visible.\<close>

definition push_publish :: "u64 \<Rightarrow> spsc_ring \<Rightarrow> spsc_ring" where
  "push_publish actual r = r\<lparr>sr_tail := sr_tail r + actual\<rparr>"

definition push :: "u8 list \<Rightarrow> spsc_ring \<Rightarrow> (u64 \<times> spsc_ring) option" where
  "push data r = do {
     (actual, b) \<leftarrow> push_copy (sr_head r) data r;
     Some (actual, push_publish actual (r\<lparr>sr_buf := b\<rparr>))
   }"

text \<open>\<^verbatim>\<open>read_acquire\<close> for the value of the producer's counter it loaded.\<close>

definition acquire_at :: "u64 \<Rightarrow> u64 \<Rightarrow> spsc_ring \<Rightarrow> (u64 \<times> u64) option" where
  "acquire_at tail request r =
     (let used = tail - sr_head r
      in if used = 0 \<or> request = 0 then None
      else let actual = (if request < used then request else used);
               pos = sr_head r AND (ring_size r - 1);
               contig = ring_size r - pos
           in Some (pos, if actual > contig then contig else actual))"

definition read_acquire :: "u64 \<Rightarrow> spsc_ring \<Rightarrow> (u64 \<times> u64) option" where
  "read_acquire request r = acquire_at (sr_tail r) request r"

definition read_release :: "u64 \<Rightarrow> spsc_ring \<Rightarrow> spsc_ring" where
  "read_release n r = r\<lparr>sr_head := sr_head r + n\<rparr>"

text \<open>\<^verbatim>\<open>pop\<close>: the bytes copied out and the ring afterwards.\<close>

definition pop :: "u64 \<Rightarrow> spsc_ring \<Rightarrow> (u8 list \<times> spsc_ring) option" where
  "pop len r =
     (case read_acquire len r of
        None \<Rightarrow> Some ([], r)
      | Some (p1, n1) \<Rightarrow> do {
          d1 \<leftarrow> bytes_at (unat p1) (unat n1) (sr_buf r);
          let r1 = read_release n1 r;
          let remaining = len - n1;
          if remaining > 0 then
            (case read_acquire remaining r1 of
               None \<Rightarrow> Some (d1, r1)
             | Some (p2, n2) \<Rightarrow> do {
                 d2 \<leftarrow> bytes_at (unat p2) (unat n2) (sr_buf r1);
                 Some (d1 @ d2, read_release n2 r1)
               })
          else Some (d1, r1)
        })"

definition free_space :: "spsc_ring \<Rightarrow> u64" where
  "free_space r = ring_size r - (sr_tail r - sr_head r)"

section \<open>Contents\<close>

text \<open>The bytes between head and tail, in order.\<close>

definition used :: "spsc_ring \<Rightarrow> nat" where
  "used r = unat (sr_tail r - sr_head r)"

definition slots :: "u8 list \<Rightarrow> nat \<Rightarrow> nat \<Rightarrow> u8 list" where
  "slots buf h n = map (\<lambda>i. buf ! ((h + i) mod length buf)) [0..<n]"

definition contents :: "spsc_ring \<Rightarrow> u8 list" where
  "contents r = slots (sr_buf r) (unat (sr_head r)) (used r)"

definition ring_inv :: "spsc_ring \<Rightarrow> bool" where
  "ring_inv r \<longleftrightarrow> (\<exists>k < 64. length (sr_buf r) = 2 ^ k) \<and> used r \<le> length (sr_buf r)"

lemma mask_mod: "k < 64 \<Longrightarrow> unat (w AND (2 ^ k - 1) :: u64) = unat w mod 2 ^ k"
proof -
  assume "k < 64"
  have "w AND (2 ^ k - 1) = take_bit k w" by (simp add: take_bit_eq_mask mask_eq_exp_minus_1)
  then show ?thesis by (simp only: unsigned_take_bit_eq) (simp add: take_bit_eq_mod)
qed

lemma unat_add_mod:
  assumes "k < 64"
  shows "unat (w + of_nat i :: u64) mod 2 ^ k = (unat w + i) mod 2 ^ k"
proof -
  have "(2 ^ k :: nat) dvd 2 ^ 64" using assms by (intro le_imp_power_dvd) simp
  then show ?thesis by (simp add: unat_word_ariths unat_of_nat mod_mod_cancel mod_simps)
qed

lemma length_slots [simp]: "length (slots buf h n) = n"
  by (simp add: slots_def)

lemma nth_slots: "i < n \<Longrightarrow> slots buf h n ! i = buf ! ((h + i) mod length buf)"
  by (simp add: slots_def)

lemma slots_add: "slots buf h (m + n) = slots buf h m @ slots buf (h + m) n"
  by (rule nth_equalityI) (auto simp: nth_append nth_slots add.assoc)

lemma slots_mod: "h mod length buf = h' mod length buf \<Longrightarrow> slots buf h n = slots buf h' n"
  unfolding slots_def by (metis mod_add_left_eq)

lemma slots_bytes: "h + n \<le> length buf \<Longrightarrow> bytes_at h n buf = Some (slots buf h n)"
  by (auto simp: bytes_at_def nth_slots intro!: nth_equalityI)

lemma slots_wrap: "slots buf (h + length buf) n = slots buf h n"
  by (rule slots_mod) simp

text \<open>Where the two copies put the data.\<close>

definition written :: "nat \<Rightarrow> nat \<Rightarrow> u8 list \<Rightarrow> u8 list \<Rightarrow> u8 list" where
  "written pos a data buf =
     (if pos + a \<le> length buf then take pos buf @ take a data @ drop (pos + a) buf
      else let n1 = length buf - pos; n2 = a - n1
           in take n2 (drop n1 data) @ drop n2 (take pos buf) @ take n1 data)"

lemma length_written: "pos \<le> length buf \<Longrightarrow> a \<le> length buf \<Longrightarrow> a \<le> length data \<Longrightarrow> length (written pos a data buf) = length buf"
  by (auto simp: written_def Let_def)

lemma written_straight:
  assumes "pos + a \<le> length buf" "a \<le> length data" "j < length buf"
  shows "written pos a data buf ! j = (if j < pos then buf ! j else if j < pos + a then data ! (j - pos) else buf ! j)"
proof -
  have "j - pos - a + (pos + a) = j" if "\<not> j < pos + a" using that by simp
  then show ?thesis using assms by (auto simp: written_def nth_append min_absorb2)
qed

lemma written_wrapped:
  assumes "length buf < pos + a" "pos < length buf" "a \<le> length buf" "a \<le> length data" "j < length buf"
  shows "written pos a data buf ! j =
    (if j < a - (length buf - pos) then data ! (length buf - pos + j) else if j < pos then buf ! j else data ! (j - pos))"
proof -
  let ?n1 = "length buf - pos"
  have l: "length (take (a - ?n1) (drop ?n1 data)) = a - ?n1" "length (drop (a - ?n1) (take pos buf)) = pos - (a - ?n1)"
    using assms by auto
  consider "j < a - ?n1" | "a - ?n1 \<le> j" "j < pos" | "pos \<le> j" using assms by linarith
  then show ?thesis
  proof cases
    case 3
    let ?AB = "take (a - ?n1) (drop ?n1 data) @ drop (a - ?n1) (take pos buf)"
    have "length ?AB = pos" using l assms by (simp only: length_append) linarith
    then have "(?AB @ take ?n1 data) ! j = take ?n1 data ! (j - pos)" using 3 by (simp only: nth_append) simp
    moreover have "\<not> j < a - ?n1" "\<not> j < pos" "j - pos < ?n1" using 3 assms by linarith+
    ultimately show ?thesis using assms(1) by (simp add: written_def Let_def)
  next
    case 2
    let ?A = "take (a - ?n1) (drop ?n1 data)" and ?B = "drop (a - ?n1) (take pos buf)"
    have "\<not> j < a - ?n1" "j - (a - ?n1) < pos - (a - ?n1)" using 2 assms by linarith+
    then have "(?A @ ?B @ take ?n1 data) ! j = ?B ! (j - (a - ?n1))" unfolding nth_append l by (simp only: if_True if_False)
    also have "\<dots> = buf ! j" using 2 assms by simp
    finally show ?thesis using 2 assms by (simp add: written_def Let_def)
  qed (use assms in \<open>simp add: written_def Let_def nth_append l\<close>)
qed

lemma nth_written:
  assumes "pos < length buf" "a \<le> length buf" "a \<le> length data" "i < length buf"
  shows "written pos a data buf ! ((pos + i) mod length buf) =
    (if i < a then data ! i else buf ! ((pos + i) mod length buf))"
proof -
  have m: "(pos + i) mod length buf = (if pos + i < length buf then pos + i else pos + i - length buf)"
    using assms by (simp add: mod_if)
  have j: "(pos + i) mod length buf < length buf" using assms(1) by (intro mod_less_divisor) linarith
  show ?thesis
  proof (cases "pos + a \<le> length buf")
    case True
    have "pos + i - length buf < pos \<and> \<not> i < a" if "\<not> pos + i < length buf" using that True assms by linarith
    then show ?thesis unfolding written_straight [OF True assms(3) j] using True assms by (simp add: m)
  next
    case False
    then have "length buf < pos + a" by simp
    note w = written_wrapped [OF this assms(1-3) j]
    show ?thesis
    proof (cases "pos + i < length buf")
      case True
      then have "\<not> pos + i < a - (length buf - pos)" "i < a" using False assms by linarith+
      then show ?thesis using w True by (simp add: m)
    next
      case wrap: False
      then have "pos + i - length buf < a - (length buf - pos) \<longleftrightarrow> i < a" "pos + i - length buf < pos"
        "length buf - pos + (pos + i - length buf) = i" using False assms by linarith+
      then show ?thesis using w wrap by (simp only: m) simp
    qed
  qed
qed

lemma slots_written:
  assumes "pos < length buf" "a \<le> length buf" "a \<le> length data"
  shows "slots (written pos a data buf) pos a = take a data"
    and "a + m \<le> length buf \<Longrightarrow> slots (written pos a data buf) (pos + a) m = slots buf (pos + a) m"
proof -
  have len: "length (written pos a data buf) = length buf" using assms by (simp add: length_written)
  show "slots (written pos a data buf) pos a = take a data"
    using assms nth_written [OF assms] len by (intro nth_equalityI) (simp_all add: nth_slots)
  assume m: "a + m \<le> length buf"
  then show "slots (written pos a data buf) (pos + a) m = slots buf (pos + a) m"
    using nth_written [OF assms, of "a + i" for i] len by (intro nth_equalityI) (simp_all add: nth_slots add.assoc)
qed

lemma copy_in_written:
  assumes pos: "unat pos < length buf" and a: "unat a \<le> length buf" "unat a \<le> length data" and len: "length buf < 2 ^ 64"
  shows "copy_in pos a data buf = Some (written (unat pos) (unat a) data buf)"
proof -
  have n: "unat (of_nat (length buf) :: u64) = length buf" using len by (simp add: unat_of_nat)
  have s: "unat (of_nat (length buf) - pos) = length buf - unat pos"
    using n pos by (simp add: unat_sub word_le_nat_alt)
  show ?thesis
  proof (cases "unat pos + unat a \<le> length buf")
    case True
    then have "(if of_nat (length buf) - pos > a then a else of_nat (length buf) - pos) = a"
      using s by (auto simp: word_less_nat_alt word_unat_eq_iff)
    then show ?thesis using True a pos
      by (simp add: copy_in_def bytes_at_def put_bytes_def written_def word_gt_0 min_absorb2 unat_gt_0)
  next
    case False
    then have n1: "(if of_nat (length buf) - pos > a then a else of_nat (length buf) - pos) = of_nat (length buf) - pos"
      using s by (auto simp: word_less_nat_alt)
    have n2: "unat (a - (of_nat (length buf) - pos)) = unat a - (length buf - unat pos)"
      using False s by (simp add: unat_sub word_le_nat_alt)
    have "of_nat (length buf) - pos > 0" "a - (of_nat (length buf) - pos) > 0"
      using s n2 pos False by (simp_all add: word_less_nat_alt)
    then show ?thesis using False n1 n2 s a pos
      by (simp add: copy_in_def bytes_at_def put_bytes_def written_def Let_def min_absorb2) linarith
  qed
qed

section \<open>The operations on the contents\<close>

lemma ring_inv_facts:
  assumes "ring_inv r"
  shows "0 < length (sr_buf r)" "length (sr_buf r) < 2 ^ 64" "unat (ring_size r) = length (sr_buf r)"
    "unat (w AND (ring_size r - 1)) = unat w mod length (sr_buf r)"
    "unat (w + of_nat i) mod length (sr_buf r) = (unat w + i) mod length (sr_buf r)"
    "unat (free_space r) = length (sr_buf r) - used r" "used r \<le> length (sr_buf r)"
proof -
  obtain k where k: "k < 64" "length (sr_buf r) = 2 ^ k" and u: "used r \<le> length (sr_buf r)"
    using assms by (auto simp: ring_inv_def)
  show "0 < length (sr_buf r)" by (simp add: k)
  show lt: "length (sr_buf r) < 2 ^ 64" unfolding k(2) using k(1) by (intro power_strict_increasing) simp_all
  then show sz: "unat (ring_size r) = length (sr_buf r)" by (simp add: ring_size_def unat_of_nat)
  have "ring_size r = 2 ^ k" by (simp add: ring_size_def k(2))
  then show "unat (w AND (ring_size r - 1)) = unat w mod length (sr_buf r)" using mask_mod [OF k(1), of w] k(2) by simp
  show "unat (w + of_nat i) mod length (sr_buf r) = (unat w + i) mod length (sr_buf r)"
    unfolding k(2) by (rule unat_add_mod [OF k(1)])
  show "unat (free_space r) = length (sr_buf r) - used r"
    using sz u by (simp add: free_space_def used_def unat_sub word_le_nat_alt)
  show "used r \<le> length (sr_buf r)" by (rule u)
qed

lemma ring_inv_moved:
  assumes "ring_inv r" "length (sr_buf r') = length (sr_buf r)" "used r' \<le> length (sr_buf r)"
  shows "ring_inv r'"
  using assms by (simp add: ring_inv_def)

lemma used_push: "used r + n < 2 ^ 64 \<Longrightarrow> used (r\<lparr>sr_tail := sr_tail r + of_nat n, sr_buf := b\<rparr>) = used r + n"
proof -
  assume n: "used r + n < 2 ^ 64"
  have "sr_tail r + of_nat n - sr_head r = (sr_tail r - sr_head r) + of_nat n" by simp
  moreover have "unat ((sr_tail r - sr_head r) + of_nat n) = used r + n"
    using n unfolding used_def by (simp only: unat_word_ariths(1)) (simp add: unat_of_nat)
  ultimately have "unat (sr_tail r + of_nat n - sr_head r) = used r + n" by (simp only:)
  then show ?thesis by (simp add: used_def)
qed

lemma slots_kept:
  assumes t: "t < length buf" and n: "n \<le> length data" "n + u \<le> length buf" and h: "(h + u) mod length buf = t"
  shows "slots (written t n data buf) h u = slots buf h u"
proof -
  let ?b = "written t n data buf" and ?m = "length buf - u - n"
  have lb: "length ?b = length buf" using t n by (simp add: length_written)
  have "(t + n + ?m) mod length buf = (h + u + (n + ?m)) mod length buf" using h by (metis add.assoc mod_add_left_eq)
  also have "h + u + (n + ?m) = h + length buf" using n by simp
  finally have e: "h mod length buf = (t + n + ?m) mod length buf" by simp
  have "slots ?b (t + n) (?m + u) = slots buf (t + n) (?m + u)"
    using slots_written(2) [OF t, of n data "?m + u"] n by simp
  then have "slots ?b (t + n + ?m) u = slots buf (t + n + ?m) u" by (simp add: slots_add)
  then show ?thesis using e slots_mod [of h ?b "t + n + ?m"] slots_mod [of h buf "t + n + ?m"] lb by simp
qed

text \<open>
  Copying in, with a loaded consumer counter that may be stale: the bytes land behind the tail and the
  unread bytes stay as they are.
\<close>

lemma push_copy_slots:
  assumes inv: "ring_inv r" and len: "length data < 2 ^ 64"
    and h: "used r \<le> unat (sr_tail r - h)" "unat (sr_tail r - h) \<le> length (sr_buf r)"
  defines "n \<equiv> min (length data) (length (sr_buf r) - unat (sr_tail r - h))"
  shows "\<exists>b. push_copy h data r = Some (of_nat n, b) \<and> length b = length (sr_buf r) \<and>
    slots b (unat (sr_tail r)) n = take n data \<and> slots b (unat (sr_head r)) (used r) = contents r"
proof -
  note f = ring_inv_facts [OF inv]
  let ?t = "unat (sr_tail r) mod length (sr_buf r)" and ?free = "ring_size r - (sr_tail r - h)"
  let ?b = "written ?t n data (sr_buf r)"
  have n: "n \<le> length data" "n + used r \<le> length (sr_buf r)" "n < 2 ^ 64"
    using f(2,7) h by (auto simp: n_def)
  have un: "unat (of_nat n :: u64) = n" "unat (of_nat (length data) :: u64) = length data" using n len by (simp_all add: unat_of_nat)
  have fr: "unat ?free = length (sr_buf r) - unat (sr_tail r - h)" using f(3) h by (simp add: unat_sub word_le_nat_alt)
  have actual: "(if of_nat (length data) < ?free then of_nat (length data) else ?free) = (of_nat n :: u64)"
    using fr un by (auto simp: word_less_nat_alt word_unat_eq_iff n_def)
  have t: "?t < length (sr_buf r)" using f(1) by simp
  have copy: "copy_in (sr_tail r AND (ring_size r - 1)) (of_nat n) data (sr_buf r) = Some ?b"
    using copy_in_written [of "sr_tail r AND (ring_size r - 1)" "sr_buf r" "of_nat n" data] f n un t by simp
  have lb: "length ?b = length (sr_buf r)" using n t by (simp add: length_written)
  have "(unat (sr_head r) + used r) mod length (sr_buf r) = ?t" using f(5) [of "sr_head r" "used r"] by (simp add: used_def)
  then have kept: "slots ?b (unat (sr_head r)) (used r) = contents r"
    using slots_kept [OF t n(1,2)] by (simp add: contents_def)
  have new: "slots ?b (unat (sr_tail r)) n = take n data"
    using slots_written(1) [OF t, of n data] n slots_mod [of "unat (sr_tail r)" ?b ?t] lb by simp
  have "push_copy h data r = Some (of_nat n, ?b)"
  proof (cases "n = 0")
    case True
    then have "?free = 0 \<or> of_nat (length data) = (0 :: u64)" using fr by (auto simp: n_def min_def word_unat_eq_iff split: if_splits)
    moreover have "written ?t 0 data (sr_buf r) = sr_buf r" using t by (simp add: written_def)
    ultimately show ?thesis using True by (auto simp: push_copy_def Let_def)
  next
    case False
    then have "?free \<noteq> 0" "of_nat (length data) \<noteq> (0 :: u64)" using un fr by (auto simp: n_def word_unat_eq_iff)
    then show ?thesis using copy unfolding push_copy_def Let_def actual by simp
  qed
  then show ?thesis using lb new kept by blast
qed

lemma push_publish_contents:
  assumes inv: "ring_inv r" and b: "slots (sr_buf r) (unat (sr_tail r)) n = bs" "n + used r \<le> length (sr_buf r)"
  shows "ring_inv (push_publish (of_nat n) r)" "contents (push_publish (of_nat n) r) = contents r @ bs"
    "used (push_publish (of_nat n) r) = used r + n"
proof -
  have "used r + n < 2 ^ 64" using b(2) ring_inv_facts(2) [OF inv] by simp
  from used_push [OF this, of "sr_buf r"] show u: "used (push_publish (of_nat n) r) = used r + n"
    by (simp add: push_publish_def)
  show "ring_inv (push_publish (of_nat n) r)"
    using u b(2) by (intro ring_inv_moved [OF inv]) (simp_all add: push_publish_def)
  have "(unat (sr_head r) + used r) mod length (sr_buf r) = unat (sr_tail r) mod length (sr_buf r)"
    using ring_inv_facts(5) [OF inv, of "sr_head r" "used r"] by (simp add: used_def)
  from slots_mod [OF this] show "contents (push_publish (of_nat n) r) = contents r @ bs"
    using u b(1) by (simp add: contents_def slots_add push_publish_def)
qed

lemma push_contents:
  assumes inv: "ring_inv r" and len: "length data < 2 ^ 64"
  defines "n \<equiv> min (length data) (length (sr_buf r) - used r)"
  shows "\<exists>r'. push data r = Some (of_nat n, r') \<and> ring_inv r' \<and> length (sr_buf r') = length (sr_buf r) \<and>
    contents r' = contents r @ take n data"
proof -
  have u: "unat (sr_tail r - sr_head r) = used r" by (simp add: used_def)
  from push_copy_slots [OF inv len, of "sr_head r"] ring_inv_facts(7) [OF inv] obtain b
    where b: "push_copy (sr_head r) data r = Some (of_nat n, b)" "length b = length (sr_buf r)"
      "slots b (unat (sr_tail r)) n = take n data" "slots b (unat (sr_head r)) (used r) = contents r"
    unfolding u n_def by auto
  let ?r = "r\<lparr>sr_buf := b\<rparr>"
  have same: "used ?r = used r" "contents ?r = contents r" "ring_inv ?r"
    using b ring_inv_moved [OF inv, of ?r] ring_inv_facts(7) [OF inv] by (simp_all add: used_def contents_def)
  have "n + used ?r \<le> length (sr_buf ?r)" using b(2) same(1) ring_inv_facts(7) [OF inv] by (simp add: n_def)
  from push_publish_contents [OF same(3) _ this] b same show ?thesis
    by (auto simp: push_def push_publish_def)
qed

text \<open>Reading, with a loaded producer counter that may be stale.\<close>

lemma acquire_at_contents:
  assumes inv: "ring_inv r" and t: "unat (t - sr_head r) \<le> used r" and req: "acquire_at t request r = Some (p, n)"
  shows "0 < unat n" "unat n \<le> used r" "unat n \<le> unat request"
    "bytes_at (unat p) (unat n) (sr_buf r) = Some (take (unat n) (contents r))"
    "unat n = min (min (unat request) (unat (t - sr_head r))) (length (sr_buf r) - unat p)"
    "unat p = unat (sr_head r) mod length (sr_buf r)"
proof -
  note f = ring_inv_facts [OF inv]
  let ?h = "unat (sr_head r) mod length (sr_buf r)"
  have nz: "t - sr_head r \<noteq> 0" "request \<noteq> 0"
    and p: "p = sr_head r AND (ring_size r - 1)"
    and n: "n = (let actual = (if request < t - sr_head r then request else t - sr_head r);
      contig = ring_size r - p in if actual > contig then contig else actual)"
    using req by (auto simp: acquire_at_def Let_def split: if_splits)
  show up: "unat p = ?h" using f(4) p by simp
  have h: "?h < length (sr_buf r)" using f(1) by simp
  have c: "unat (ring_size r - p) = length (sr_buf r) - ?h" using f(3) up h by (simp add: unat_sub word_le_nat_alt)
  have u: "0 < unat (t - sr_head r)" "0 < unat request" using nz by (simp_all add: unat_gt_0)
  show un: "unat n = min (min (unat request) (unat (t - sr_head r))) (length (sr_buf r) - unat p)"
    using c up by (auto simp: n Let_def word_less_nat_alt)
  then show "0 < unat n" "unat n \<le> used r" "unat n \<le> unat request" using u h up t by auto
  have "bytes_at (unat p) (unat n) (sr_buf r) = Some (slots (sr_buf r) ?h (unat n))"
    unfolding up using un up h by (intro slots_bytes) simp
  moreover have "slots (sr_buf r) ?h (unat n) = take (unat n) (contents r)"
  proof -
    have "slots (sr_buf r) (unat (sr_head r)) (used r) =
        slots (sr_buf r) (unat (sr_head r)) (unat n) @ slots (sr_buf r) (unat (sr_head r) + unat n) (used r - unat n)"
      using un t by (simp flip: slots_add)
    then show ?thesis using slots_mod [of ?h "sr_buf r" "unat (sr_head r)"] by (simp add: contents_def)
  qed
  ultimately show "bytes_at (unat p) (unat n) (sr_buf r) = Some (take (unat n) (contents r))" by simp
qed

lemmas read_acquire_contents =
  acquire_at_contents [of r "sr_tail r" for r, folded read_acquire_def used_def, OF _ order.refl]

lemma read_acquire_None: "read_acquire request r = None \<longleftrightarrow> contents r = [] \<or> request = 0"
  by (auto simp: read_acquire_def acquire_at_def Let_def contents_def used_def slots_def unat_gt_0)

lemma read_release_contents:
  assumes inv: "ring_inv r" and n: "unat n \<le> used r"
  shows "ring_inv (read_release n r)" "contents (read_release n r) = drop (unat n) (contents r)"
    "used (read_release n r) = used r - unat n"
proof -
  have "sr_tail r - (sr_head r + n) = sr_tail r - sr_head r - n" by simp
  moreover have "unat (sr_tail r - sr_head r - n) = used r - unat n"
    using n by (simp add: used_def unat_sub word_le_nat_alt)
  ultimately have "unat (sr_tail r - (sr_head r + n)) = used r - unat n" by (simp only:)
  then have u: "used (read_release n r) = used r - unat n" by (simp add: used_def read_release_def)
  then show "used (read_release n r) = used r - unat n" .
  show "ring_inv (read_release n r)"
    using ring_inv_facts(7) [OF inv] u by (intro ring_inv_moved [OF inv]) (simp_all add: read_release_def)
  have "unat (sr_head r + n) mod length (sr_buf r) = (unat (sr_head r) + unat n) mod length (sr_buf r)"
    using ring_inv_facts(5) [OF inv, of "sr_head r" "unat n"] by simp
  from slots_mod [OF this]
  have "contents (read_release n r) = slots (sr_buf r) (unat (sr_head r) + unat n) (used r - unat n)"
    using u by (simp add: contents_def read_release_def)
  also have "\<dots> = drop (unat n) (contents r)"
    using n slots_add [of "sr_buf r" "unat (sr_head r)" "unat n" "used r - unat n"] by (simp add: contents_def)
  finally show "contents (read_release n r) = drop (unat n) (contents r)" .
qed

lemma length_contents [simp]: "length (contents r) = used r"
  by (simp add: contents_def)

lemma read_release_buf [simp]: "sr_buf (read_release n r) = sr_buf r" "sr_head (read_release n r) = sr_head r + n"
  by (simp_all add: read_release_def)

lemma pop_contents:
  assumes inv: "ring_inv r"
  shows "\<exists>r'. pop len r = Some (take (unat len) (contents r), r') \<and> ring_inv r' \<and>
    length (sr_buf r') = length (sr_buf r) \<and> contents r' = drop (unat len) (contents r)"
proof (cases "read_acquire len r")
  case None
  then have "contents r = [] \<or> len = 0" by (simp add: read_acquire_None)
  then show ?thesis using inv None by (auto simp: pop_def)
next
  case (Some pn)
  then obtain p n where acq: "read_acquire len r = Some (p, n)" by (cases pn) auto
  note a = read_acquire_contents [OF inv acq]
  let ?r = "read_release n r"
  note r1 = read_release_contents [OF inv a(2)]
  have d: "unat (len - n) = unat len - unat n" using a(3) by (simp add: unat_sub word_le_nat_alt)
  have z: "len - n > 0 \<longleftrightarrow> unat n < unat len" using d a(3) by (auto simp: word_less_nat_alt)
  show ?thesis
  proof (cases "read_acquire (len - n) ?r")
    case None
    then have "contents ?r = [] \<or> len = n" by (simp add: read_acquire_None)
    then have "take (unat len) (contents r) = take (unat n) (contents r)" "drop (unat len) (contents r) = drop (unat n) (contents r)"
      using r1(2) a(3) by auto
    then show ?thesis using acq a(4) None r1 by (auto simp: pop_def Let_def)
  next
    case (Some qm)
    then obtain q m where acq2: "read_acquire (len - n) ?r = Some (q, m)" by (cases qm) auto
    note b = read_acquire_contents [OF r1(1) acq2]
    note r2 = read_release_contents [OF r1(1) b(2)]
    have lt: "unat n < unat len" "unat n < used r" using b(1-3) d r1(3) by auto
    let ?N = "length (sr_buf r)"
    have n: "unat n = ?N - unat p" using a(5) lt by linarith
    have p: "unat p < ?N" unfolding a(6) using ring_inv_facts(1) [OF inv] by simp
    have "unat (sr_head r + n) mod ?N = (unat (sr_head r) + unat n) mod ?N"
      using ring_inv_facts(5) [OF inv, of "sr_head r" "unat n"] by simp
    also have "\<dots> = (unat p + unat n) mod ?N" using a(6) by (simp add: mod_simps)
    also have "\<dots> = 0" using n p by simp
    finally have "unat q = 0" using b(6) by simp
    then have full: "unat m = min (unat len - unat n) (used r - unat n)"
      using b(5) d r1(3) ring_inv_facts(7) [OF inv] by simp
    have "take (unat n) (contents r) @ take (unat m) (contents ?r) = take (unat len) (contents r)"
      "drop (unat m) (contents ?r) = drop (unat len) (contents r)"
      using full lt r1(2) by (auto simp: take_add [symmetric] min_def split: if_splits)
    then show ?thesis using acq acq2 a(4) b(4) r2 z lt by (auto simp: pop_def Let_def)
  qed
qed

end
