(* ===== verification/Spsc_Queue.thy ===== *)
theory Spsc_Queue
  imports Spsc_Ring
begin

text \<open>
  The byte ring as a queue: the contract its clients rely on as a locale, interpreted on the ring, and
  the two threads interleaved at the granularity of the ring's atomic loads and stores.
\<close>

section \<open>The contract\<close>

text \<open>A sequence of calls, and what it accepted and delivered.\<close>

datatype queue_call = Put "u8 list" | Get u64

fun run_calls :: "(u8 list \<Rightarrow> 'q \<Rightarrow> (u64 \<times> 'q) option) \<Rightarrow> (u64 \<Rightarrow> 'q \<Rightarrow> (u8 list \<times> 'q) option) \<Rightarrow>
    queue_call list \<Rightarrow> 'q \<Rightarrow> (u8 list \<times> u8 list \<times> 'q) option" where
  "run_calls put get [] q = Some ([], [], q)"
| "run_calls put get (Put d # cs) q = do {
     (n, q1) \<leftarrow> put d q;
     (ins, outs, q2) \<leftarrow> run_calls put get cs q1;
     Some (take (unat n) d @ ins, outs, q2)
   }"
| "run_calls put get (Get n # cs) q = do {
     (d, q1) \<leftarrow> get n q;
     (ins, outs, q2) \<leftarrow> run_calls put get cs q1;
     Some (ins, d @ outs, q2)
   }"

locale byte_queue =
  fixes ok :: "'q \<Rightarrow> bool" and held :: "'q \<Rightarrow> u8 list" and room :: "'q \<Rightarrow> nat"
    and put :: "u8 list \<Rightarrow> 'q \<Rightarrow> (u64 \<times> 'q) option" and get :: "u64 \<Rightarrow> 'q \<Rightarrow> (u8 list \<times> 'q) option"
  assumes put_law: "ok q \<Longrightarrow> length d < 2 ^ 64 \<Longrightarrow>
      \<exists>q'. put d q = Some (of_nat (min (length d) (room q)), q') \<and> ok q' \<and>
        held q' = held q @ take (room q) d \<and> room q' = room q - length d"
    and get_law: "ok q \<Longrightarrow> \<exists>q'. get n q = Some (take (unat n) (held q), q') \<and> ok q' \<and>
        held q' = drop (unat n) (held q) \<and> room q' = room q + min (unat n) (length (held q))"
begin

lemma put_all:
  assumes "ok q" and "length d < 2 ^ 64" and "length d \<le> room q"
  shows "\<exists>q'. put d q = Some (of_nat (length d), q') \<and> ok q' \<and> held q' = held q @ d \<and> room q' = room q - length d"
  using put_law [OF assms(1,2)] assms(3) by (auto simp: min_absorb1)

lemma get_front:
  assumes "ok q" and "held q = d @ rest" and "unat n = length d"
  shows "\<exists>q'. get n q = Some (d, q') \<and> ok q' \<and> held q' = rest \<and> room q' = room q + length d"
  using get_law [OF assms(1), of n] assms(2,3) by auto

lemma calls_fifo:
  assumes "ok q" and "\<forall>c \<in> set cs. case c of Put d \<Rightarrow> length d < 2 ^ 64 | Get n \<Rightarrow> True"
  shows "\<exists>ins outs q'. run_calls put get cs q = Some (ins, outs, q') \<and> ok q' \<and> held q @ ins = outs @ held q'"
  using assms
proof (induction cs arbitrary: q)
  case (Cons c cs)
  show ?case
  proof (cases c)
    case (Put d)
    then have d: "length d < 2 ^ 64" using Cons.prems(2) by simp
    from put_law [OF Cons.prems(1) d] obtain q1 where q1: "put d q = Some (of_nat (min (length d) (room q)), q1)" "ok q1"
      "held q1 = held q @ take (room q) d" by auto
    have "unat (of_nat (min (length d) (room q)) :: u64) = min (length d) (room q)" using d by (simp add: unat_of_nat)
    then have t: "take (unat (of_nat (min (length d) (room q)) :: u64)) d = take (room q) d" by (simp add: min_def)
    from Cons.IH [OF q1(2)] Cons.prems(2) obtain ins outs q' where
      "run_calls put get cs q1 = Some (ins, outs, q')" "ok q'" "held q1 @ ins = outs @ held q'" by auto
    then show ?thesis using Put q1 t by auto
  next
    case (Get n)
    from get_law [OF Cons.prems(1), of n] obtain q1 where q1: "get n q = Some (take (unat n) (held q), q1)" "ok q1"
      "held q1 = drop (unat n) (held q)" by auto
    from Cons.IH [OF q1(2)] Cons.prems(2) obtain ins outs q' where
      r: "run_calls put get cs q1 = Some (ins, outs, q')" "ok q'" "held q1 @ ins = outs @ held q'" by auto
    have "held q @ ins = (take (unat n) (held q) @ outs) @ held q'"
      using q1(3) r(3) by (metis append.assoc append_take_drop_id)
    then show ?thesis using Get q1 r by auto
  qed
qed simp

end

definition ring_room :: "spsc_ring \<Rightarrow> nat" where
  "ring_room r = length (sr_buf r) - used r"

interpretation ring_queue: byte_queue ring_inv contents ring_room push pop
proof
  fix r d assume r: "ring_inv r" and d: "length (d :: u8 list) < 2 ^ 64"
  obtain r' where r': "push d r = Some (of_nat (min (length d) (ring_room r)), r')" "ring_inv r'"
      "length (sr_buf r') = length (sr_buf r)" "contents r' = contents r @ take (min (length d) (ring_room r)) d"
    using push_contents [OF r d] unfolding ring_room_def by blast
  have c: "contents r' = contents r @ take (ring_room r) d" using r'(4) by (simp add: min_def)
  then have "used r' = used r + min (length d) (ring_room r)" using length_contents [of r'] by simp
  then have "ring_room r' = ring_room r - length d" using r'(3) by (auto simp: ring_room_def)
  then show "\<exists>q'. push d r = Some (of_nat (min (length d) (ring_room r)), q') \<and> ring_inv q' \<and>
      contents q' = contents r @ take (ring_room r) d \<and> ring_room q' = ring_room r - length d"
    using r' c by blast
next
  fix r and n :: u64 assume r: "ring_inv r"
  obtain r' where r': "pop n r = Some (take (unat n) (contents r), r')" "ring_inv r'"
      "length (sr_buf r') = length (sr_buf r)" "contents r' = drop (unat n) (contents r)"
    using pop_contents [OF r] by blast
  then have "used r' = used r - unat n" using length_contents [of r'] by simp
  then have "ring_room r' = ring_room r + min (unat n) (used r)" using r'(3) ring_inv_facts(7) [OF r] by (auto simp: ring_room_def)
  then show "\<exists>q'. pop n r = Some (take (unat n) (contents r), q') \<and> ring_inv q' \<and>
      contents q' = drop (unat n) (contents r) \<and> ring_room q' = ring_room r + min (unat n) (length (contents r))"
    using r' by auto
qed

lemma new_ring_inv: "k < 64 \<Longrightarrow> ring_inv (new_ring (2 ^ k))" "contents (new_ring n) = []"
  by (auto simp: ring_inv_def new_ring_def used_def contents_def slots_def)

section \<open>Interleavings\<close>

text \<open>
  The producer loads \<^verbatim>\<open>head\<close>, copies and then stores \<^verbatim>\<open>tail\<close>; the consumer loads \<^verbatim>\<open>tail\<close>, reads and then
  stores \<^verbatim>\<open>head\<close>.  Between any two of these steps the other thread may move, so a loaded counter can be
  out of date.  \<open>h_sent\<close> and \<open>h_received\<close> record the bytes published and consumed.
\<close>

datatype producer = PIdle | PLoaded "u8 list" u64 | PCopied "u8 list"

datatype consumer = CIdle | CLoaded u64 u64 | CRead "u8 list"

record spsc_system =
  ring :: spsc_ring
  p_state :: producer
  c_state :: consumer
  h_sent :: "u8 list"
  h_received :: "u8 list"

inductive spsc_step :: "spsc_system \<Rightarrow> spsc_system \<Rightarrow> bool" where
  p_load: "p_state s = PIdle \<Longrightarrow> length d < 2 ^ 64 \<Longrightarrow> spsc_step s (s\<lparr>p_state := PLoaded d (sr_head (ring s))\<rparr>)"
| p_copy: "p_state s = PLoaded d h \<Longrightarrow> push_copy h d (ring s) = Some (n, b) \<Longrightarrow>
    spsc_step s (s\<lparr>ring := (ring s)\<lparr>sr_buf := b\<rparr>, p_state := PCopied (take (unat n) d)\<rparr>)"
| p_publish: "p_state s = PCopied bs \<Longrightarrow>
    spsc_step s (s\<lparr>ring := push_publish (of_nat (length bs)) (ring s), p_state := PIdle, h_sent := h_sent s @ bs\<rparr>)"
| c_load: "c_state s = CIdle \<Longrightarrow> spsc_step s (s\<lparr>c_state := CLoaded n (sr_tail (ring s))\<rparr>)"
| c_none: "c_state s = CLoaded n t \<Longrightarrow> acquire_at t n (ring s) = None \<Longrightarrow> spsc_step s (s\<lparr>c_state := CIdle\<rparr>)"
| c_read: "c_state s = CLoaded n t \<Longrightarrow> acquire_at t n (ring s) = Some (p, m) \<Longrightarrow>
    bytes_at (unat p) (unat m) (sr_buf (ring s)) = Some bs \<Longrightarrow> spsc_step s (s\<lparr>c_state := CRead bs\<rparr>)"
| c_release: "c_state s = CRead bs \<Longrightarrow>
    spsc_step s (s\<lparr>ring := read_release (of_nat (length bs)) (ring s), c_state := CIdle, h_received := h_received s @ bs\<rparr>)"

definition spsc_start :: "nat \<Rightarrow> spsc_system" where
  "spsc_start n = \<lparr>ring = new_ring n, p_state = PIdle, c_state = CIdle, h_sent = [], h_received = []\<rparr>"

definition prod_inv :: "producer \<Rightarrow> spsc_ring \<Rightarrow> bool" where
  "prod_inv p r = (case p of PIdle \<Rightarrow> True
     | PLoaded d h \<Rightarrow> length d < 2 ^ 64 \<and> used r \<le> unat (sr_tail r - h) \<and> unat (sr_tail r - h) \<le> length (sr_buf r)
     | PCopied bs \<Rightarrow> slots (sr_buf r) (unat (sr_tail r)) (length bs) = bs \<and> length bs + used r \<le> length (sr_buf r))"

definition cons_inv :: "consumer \<Rightarrow> spsc_ring \<Rightarrow> bool" where
  "cons_inv c r = (case c of CIdle \<Rightarrow> True
     | CLoaded n t \<Rightarrow> unat (t - sr_head r) \<le> used r
     | CRead bs \<Rightarrow> bs = take (length bs) (contents r))"

definition spsc_inv :: "spsc_system \<Rightarrow> bool" where
  "spsc_inv s \<longleftrightarrow> ring_inv (ring s) \<and> prod_inv (p_state s) (ring s) \<and> cons_inv (c_state s) (ring s) \<and>
     h_sent s = h_received s @ contents (ring s)"

lemma spsc_start_inv: "k < 64 \<Longrightarrow> spsc_inv (spsc_start (2 ^ k))"
  by (simp add: spsc_inv_def spsc_start_def new_ring_inv prod_inv_def cons_inv_def)

text \<open>The consumer's view survives a change of the ring that only appends bytes.\<close>

lemma cons_inv_append:
  assumes "cons_inv c r" and "contents r' = contents r @ bs" and "sr_head r' = sr_head r"
  shows "cons_inv c r'"
proof -
  have "used r \<le> used r'" using assms(2) length_contents [of r] length_contents [of r'] by simp
  moreover have "take (length cs) (contents r @ bs) = cs" if "cs = take (length cs) (contents r)" for cs
    using that by (metis append_take_drop_id append_assoc append_eq_conv_conj)
  ultimately show ?thesis using assms by (auto simp: cons_inv_def split: consumer.splits)
qed

lemma prod_step_inv:
  assumes "spsc_inv s"
  shows "p_state s = PLoaded d h \<Longrightarrow> push_copy h d (ring s) = Some (n, b) \<Longrightarrow>
      spsc_inv (s\<lparr>ring := (ring s)\<lparr>sr_buf := b\<rparr>, p_state := PCopied (take (unat n) d)\<rparr>)"
    and "p_state s = PCopied bs \<Longrightarrow>
      spsc_inv (s\<lparr>ring := push_publish (of_nat (length bs)) (ring s), p_state := PIdle, h_sent := h_sent s @ bs\<rparr>)"
proof -
  let ?r = "ring s"
  have inv: "ring_inv ?r" and c: "cons_inv (c_state s) ?r" and p: "prod_inv (p_state s) ?r" and h: "h_sent s = h_received s @ contents ?r"
    using assms by (auto simp: spsc_inv_def)
  note f = ring_inv_facts [OF inv]
  show "spsc_inv (s\<lparr>ring := ?r\<lparr>sr_buf := b\<rparr>, p_state := PCopied (take (unat n) d)\<rparr>)"
    if q: "p_state s = PLoaded d h" and cp: "push_copy h d ?r = Some (n, b)"
  proof -
    let ?n = "min (length d) (length (sr_buf ?r) - unat (sr_tail ?r - h))"
    have l: "length d < 2 ^ 64" "used ?r \<le> unat (sr_tail ?r - h)" "unat (sr_tail ?r - h) \<le> length (sr_buf ?r)"
      using p q by (simp_all add: prod_inv_def)
    from push_copy_slots [OF inv l] cp have b: "n = of_nat ?n" "length b = length (sr_buf ?r)"
      "slots b (unat (sr_tail ?r)) ?n = take ?n d" "slots b (unat (sr_head ?r)) (used ?r) = contents ?r" by auto
    have n: "unat n = ?n" unfolding b(1) using l(1) by (simp add: unat_of_nat)
    have same: "used (?r\<lparr>sr_buf := b\<rparr>) = used ?r" "contents (?r\<lparr>sr_buf := b\<rparr>) = contents ?r"
      using b(4) by (simp_all add: used_def contents_def)
    have "prod_inv (PCopied (take (unat n) d)) (?r\<lparr>sr_buf := b\<rparr>)"
      using b l same unfolding n by (auto simp: prod_inv_def)
    then show ?thesis using ring_inv_moved [OF inv, of "?r\<lparr>sr_buf := b\<rparr>"] same b(2) f(7) h cons_inv_append [OF c, of "?r\<lparr>sr_buf := b\<rparr>" "[]"]
      by (simp add: spsc_inv_def)
  qed
  show "spsc_inv (s\<lparr>ring := push_publish (of_nat (length bs)) ?r, p_state := PIdle, h_sent := h_sent s @ bs\<rparr>)"
    if q: "p_state s = PCopied bs"
  proof -
    have b: "slots (sr_buf ?r) (unat (sr_tail ?r)) (length bs) = bs" "length bs + used ?r \<le> length (sr_buf ?r)"
      using p q by (simp_all add: prod_inv_def)
    note pub = push_publish_contents [OF inv b]
    from cons_inv_append [OF c pub(2)] pub(1,2) h show ?thesis
      by (simp add: spsc_inv_def prod_inv_def push_publish_def)
  qed
qed

lemma cons_step_inv:
  assumes "spsc_inv s"
  shows "c_state s = CLoaded n t \<Longrightarrow> acquire_at t n (ring s) = Some (p, m) \<Longrightarrow>
      bytes_at (unat p) (unat m) (sr_buf (ring s)) = Some bs \<Longrightarrow> spsc_inv (s\<lparr>c_state := CRead bs\<rparr>)"
    and "c_state s = CRead bs \<Longrightarrow>
      spsc_inv (s\<lparr>ring := read_release (of_nat (length bs)) (ring s), c_state := CIdle, h_received := h_received s @ bs\<rparr>)"
proof -
  let ?r = "ring s"
  have inv: "ring_inv ?r" and c: "cons_inv (c_state s) ?r" and p: "prod_inv (p_state s) ?r" and h: "h_sent s = h_received s @ contents ?r"
    using assms by (auto simp: spsc_inv_def)
  show "spsc_inv (s\<lparr>c_state := CRead bs\<rparr>)" if q: "c_state s = CLoaded n t" and a: "acquire_at t n ?r = Some (p, m)"
    and r: "bytes_at (unat p) (unat m) (sr_buf ?r) = Some bs"
  proof -
    have "unat (t - sr_head ?r) \<le> used ?r" using c q by (simp add: cons_inv_def)
    note acq = acquire_at_contents [OF inv this a]
    then have "bs = take (unat m) (contents ?r)" "unat m \<le> used ?r" using r by simp_all
    then show ?thesis using assms by (simp add: spsc_inv_def cons_inv_def min_absorb2)
  qed
  show "spsc_inv (s\<lparr>ring := read_release (of_nat (length bs)) ?r, c_state := CIdle, h_received := h_received s @ bs\<rparr>)"
    if q: "c_state s = CRead bs"
  proof -
    let ?n = "of_nat (length bs) :: u64"
    have bs: "bs = take (length bs) (contents ?r)" using c q by (simp add: cons_inv_def)
    then have l: "length bs \<le> used ?r" using length_contents by (metis length_take min.cobounded1)
    then have n: "unat ?n = length bs" using ring_inv_facts(2,7) [OF inv] by (simp add: unat_of_nat)
    have "unat ?n \<le> used ?r" using n l by simp
    note rel = read_release_contents [OF inv this]
    have "prod_inv (p_state s) (read_release ?n ?r)"
      using p rel(3) unfolding n by (auto simp: prod_inv_def read_release_def split: producer.splits)
    moreover have "h_sent s = (h_received s @ bs) @ contents (read_release ?n ?r)"
      using h bs rel(2) unfolding n by (metis append.assoc append_take_drop_id)
    ultimately show ?thesis using rel(1) by (simp add: spsc_inv_def cons_inv_def)
  qed
qed

lemma spsc_step_inv: "spsc_step s s' \<Longrightarrow> spsc_inv s \<Longrightarrow> spsc_inv s'"
proof (induction rule: spsc_step.induct)
  case (p_load s d)
  then show ?case using ring_inv_facts(7) [of "ring s"] by (auto simp: spsc_inv_def prod_inv_def used_def)
next
  case (c_load s n)
  then show ?case by (auto simp: spsc_inv_def cons_inv_def used_def)
next
  case (c_none s n t)
  then show ?case by (auto simp: spsc_inv_def cons_inv_def)
qed (auto intro: prod_step_inv cons_step_inv)

lemma spsc_reachable_inv: "spsc_step\<^sup>*\<^sup>* s s' \<Longrightarrow> spsc_inv s \<Longrightarrow> spsc_inv s'"
  by (induction rule: rtranclp_induct) (auto intro: spsc_step_inv)

text \<open>Neither thread is ever stuck in the middle of a call.\<close>

lemma step_to: "spsc_step s s' \<Longrightarrow> P s' \<Longrightarrow> \<exists>s'. spsc_step s s' \<and> P s'"
  by blast

lemma spsc_progress:
  assumes "spsc_inv s"
  shows "p_state s \<noteq> PIdle \<Longrightarrow> \<exists>s'. spsc_step s s' \<and> p_state s' \<noteq> p_state s"
    and "c_state s \<noteq> CIdle \<Longrightarrow> \<exists>s'. spsc_step s s' \<and> c_state s' \<noteq> c_state s"
proof -
  let ?r = "ring s"
  have inv: "ring_inv ?r" and c: "cons_inv (c_state s) ?r" and p: "prod_inv (p_state s) ?r"
    using assms by (auto simp: spsc_inv_def)
  show "\<exists>s'. spsc_step s s' \<and> p_state s' \<noteq> p_state s" if "p_state s \<noteq> PIdle"
  proof (cases "p_state s")
    case (PLoaded d h)
    then obtain n b where "push_copy h d ?r = Some (n, b)"
      using p push_copy_slots [OF inv, of d h] by (auto simp: prod_inv_def)
    from spsc_step.p_copy [OF PLoaded this] show ?thesis by (rule step_to) (simp add: PLoaded)
  next
    case (PCopied bs)
    from spsc_step.p_publish [OF this] show ?thesis by (rule step_to) (simp add: PCopied)
  qed (use that in simp)
  show "\<exists>s'. spsc_step s s' \<and> c_state s' \<noteq> c_state s" if "c_state s \<noteq> CIdle"
  proof (cases "c_state s")
    case (CLoaded n t)
    then have t: "unat (t - sr_head ?r) \<le> used ?r" using c by (simp add: cons_inv_def)
    show ?thesis
    proof (cases "acquire_at t n ?r")
      case None
      from spsc_step.c_none [OF CLoaded this] show ?thesis by (rule step_to) (simp add: CLoaded)
    next
      case (Some pm)
      then obtain q m where a: "acquire_at t n ?r = Some (q, m)" by (cases pm) auto
      from spsc_step.c_read [OF CLoaded a acquire_at_contents(4) [OF inv t a]]
      show ?thesis by (rule step_to) (simp add: CLoaded)
    qed
  next
    case (CRead bs)
    from spsc_step.c_release [OF this] show ?thesis by (rule step_to) (simp add: CRead)
  qed (use that in simp)
qed

lemma length_push_copy: "push_copy h d r = Some (n, b) \<Longrightarrow> length b = length (sr_buf r)"
  by (auto simp: push_copy_def copy_in_def Let_def bind_eq_Some_conv split: if_splits dest!: length_put_bytes)

lemma spsc_step_size: "spsc_step s s' \<Longrightarrow> length (sr_buf (ring s')) = length (sr_buf (ring s))"
  by (induction rule: spsc_step.induct) (auto simp: length_push_copy push_publish_def)

lemma RING_SIZE_power: "RING_SIZE = 2 ^ 23"
  by (simp add: RING_SIZE_def)

section \<open>Properties\<close>

text \<open>
  C25: the byte ring is a first-in first-out queue.  Any sequence of \<^verbatim>\<open>push\<close> and \<^verbatim>\<open>pop\<close> calls on a fresh ring
  whose size is a power of two runs without leaving the buffer, and the bytes the pushes accepted are
  exactly the bytes the pops returned followed by what the ring still holds, however often the positions
  wrap.
\<close>

theorem ring_is_fifo:
  assumes "k < 64" and "\<forall>c \<in> set cs. case c of Put d \<Rightarrow> length d < 2 ^ 64 | Get n \<Rightarrow> True"
  shows "\<exists>ins outs r. run_calls push pop cs (new_ring (2 ^ k)) = Some (ins, outs, r) \<and> ring_inv r \<and> ins = outs @ contents r"
  using ring_queue.calls_fifo [OF new_ring_inv(1) [OF assms(1)] assms(2)] by (simp add: new_ring_inv)

theorem ring_is_fifo_witness:
  "\<exists>ins outs r. run_calls push pop [Put [1, 2, 3], Get 2, Put [4, 5, 6, 7], Get 9] (new_ring (2 ^ 2)) = Some (ins, outs, r) \<and>
    ins = outs @ contents r"
  using ring_is_fifo [of 2 "[Put [1, 2, 3], Get 2, Put [4, 5, 6, 7], Get 9]"] by auto

text \<open>
  C26: the two threads of the ring never disturb each other.  In every interleaving of the IO thread's and
  the send thread's atomic steps, with counters that may be out of date when they are used, the bytes
  received so far followed by the ring's contents are the bytes sent so far; the contents never exceed the
  ring; and a thread in the middle of a call can always take its next step.
\<close>

theorem spsc_interleaving:
  assumes "spsc_step\<^sup>*\<^sup>* (spsc_start RING_SIZE) s"
  shows "h_sent s = h_received s @ contents (ring s) \<and> used (ring s) \<le> RING_SIZE \<and>
    (p_state s = PIdle \<or> (\<exists>s'. spsc_step s s' \<and> p_state s' \<noteq> p_state s)) \<and> (c_state s = CIdle \<or> (\<exists>s'. spsc_step s s' \<and> c_state s' \<noteq> c_state s))"
proof -
  have "spsc_inv s" using assms spsc_start_inv [of 23] spsc_reachable_inv by (simp add: RING_SIZE_power)
  moreover have "length (sr_buf (ring s)) = RING_SIZE"
    using assms by (induction rule: rtranclp_induct) (simp_all add: spsc_start_def new_ring_def spsc_step_size)
  ultimately show ?thesis using spsc_progress [of s] ring_inv_facts(7) [of "ring s"] by (auto simp: spsc_inv_def)
qed

theorem spsc_interleaving_witness:
  "\<exists>s. spsc_step\<^sup>*\<^sup>* (spsc_start RING_SIZE) s \<and> p_state s = PLoaded [7] 0 \<and> h_sent s = h_received s @ contents (ring s)"
proof -
  let ?s = "(spsc_start RING_SIZE)\<lparr>p_state := PLoaded [7] 0\<rparr>"
  have "spsc_step (spsc_start RING_SIZE) ?s"
    using spsc_step.p_load [of "spsc_start RING_SIZE" "[7]"] by (simp add: spsc_start_def new_ring_def)
  then have "spsc_step\<^sup>*\<^sup>* (spsc_start RING_SIZE) ?s" by (rule r_into_rtranclp)
  from this spsc_interleaving [OF this] show ?thesis by (intro exI [of _ ?s]) simp
qed

end
