(* ===== verification/Tcp_Server.thy ===== *)
theory Tcp_Server
  imports Recovery Itch_Parser Itch_Framing Uring_Poller Response_Frame Spsc_Queue
begin

text \<open>
  \<^verbatim>\<open>src/tcp_server.cpp\<close>: the IO thread.  A connection object lives in a heap under the number of its
  allocation, which also stands for the address of its \<^verbatim>\<open>close_acked\<close> flag; \<^verbatim>\<open>conns_\<close> maps descriptors to
  objects and \<^verbatim>\<open>pending_closes_\<close> is a list of objects, as in the code.  The counters \<^verbatim>\<open>metrics_\<close> are those
  of the engine, as \<^verbatim>\<open>main\<close> wires them.  The outside world appears as arguments: what the kernel completed
  and put into the receive buffers, what \<^verbatim>\<open>send\<close> returns, how far the send thread has come between two
  attempts to push and during the wait at the end.  \<open>net\<close> records the bytes written to each socket by the IO thread itself and \<open>wakes\<close> counts
  the writes to the event descriptor.
\<close>

section \<open>Messages\<close>

definition dispatch_event :: "itch_event \<Rightarrow> response list \<Rightarrow> engine \<Rightarrow> (response list \<times> engine) option" where
  "dispatch_event ev out e =
     (let locate = ucast (ev_locate ev); uid = ev_order_ref ev in
      case ev_type ev of
        ADD \<Rightarrow> processAdd locate (ev_order_ref ev) (ev_side ev) (ev_price ev) (ev_shares ev) uid DAY out e
      | DELETE \<Rightarrow> processCancel locate (ev_order_ref ev) uid out e
      | CANCEL \<Rightarrow> processCancelShares locate (ev_order_ref ev) (ev_shares ev) uid out e
      | REPLACE \<Rightarrow> (case book_for locate e of
            (None, e1) \<Rightarrow> Some (out @ [RSP_ERROR ORDER_NOT_FOUND], e1)
          | (Some book, e1) \<Rightarrow> do {
              found \<leftarrow> findOrder (ev_order_ref ev) book;
              case found of
                None \<Rightarrow> Some (out @ [RSP_ERROR ORDER_NOT_FOUND], e1)
              | Some idx \<Rightarrow> do {
                  old \<leftarrow> pool_at (ob_pool book) idx;
                  processReplace locate (ev_order_ref ev) (ev_new_order_ref ev) (side_of old) (ev_price ev) (ev_shares ev) uid out e1
                }
            })
      | BOOK \<Rightarrow> (case getBook locate e of (rsp, e1) \<Rightarrow> Some (out @ [rsp], e1)))"

text \<open>\<open>ev0\<close> is the uninitialised \<^verbatim>\<open>ItchEvent\<close> on the stack.\<close>

definition processItchMessage :: "itch_event \<Rightarrow> u8 list \<Rightarrow> response list \<times> engine \<times> itch_parser \<Rightarrow>
    (response list \<times> engine \<times> itch_parser) option" where
  "processItchMessage ev0 msg s = (case s of (out, e, st) \<Rightarrow> do {
     (ok, ev, st1) \<leftarrow> feed msg ev0 st;
     if \<not> ok then Some (out, e, st1)
     else do {
       (out1, e1) \<leftarrow> dispatch_event ev out e;
       Some (out1, e1, st1)
     }
   })"

section \<open>The server object\<close>

record tcp_server =
  ts_fd :: int
  ts_engine :: engine
  ts_parser :: itch_parser
  ts_ring :: spsc_ring
  ts_poller :: poller
  ts_heap :: "nat \<rightharpoonup> conn_context"
  ts_conns :: "int \<rightharpoonup> nat"
  ts_pending :: "nat list"
  ts_next :: nat
  ts_summary_last :: u64
  ts_io_heartbeat :: "u64 option"
  ts_send_heartbeat :: "u64 option"
  ts_last_send_hb :: u64
  ts_stall_count :: nat
  ts_ring_status_tail :: "u64 option"
  ts_closed :: "int list"
  net :: "int \<Rightarrow> u8 list"
  wakes :: nat
  ts_checkpoints :: "checkpoint list"

definition notifySendThread :: "tcp_server \<Rightarrow> tcp_server" where
  "notifySendThread s = s\<lparr>wakes := wakes s + 1\<rparr>"

section \<open>Responses\<close>

text \<open>What one call of \<^verbatim>\<open>send\<close> returns: a number of bytes, or -1 with \<^verbatim>\<open>EAGAIN\<close>, or -1 with another error.\<close>

datatype send_result = Sent nat | Again | Failed

text \<open>The direct \<^verbatim>\<open>send\<close> loop of \<^verbatim>\<open>pushResponses\<close>: the bytes that reach the socket.\<close>

function direct_send :: "(nat \<Rightarrow> send_result) \<Rightarrow> nat \<Rightarrow> nat \<Rightarrow> u8 list \<Rightarrow> u8 list" where
  "direct_send env k spins data =
     (if data = [] then []
      else case env k of
        Sent r \<Rightarrow> if r > 0 then take r data @ direct_send env (k + 1) 0 (drop r data) else []
      | Again \<Rightarrow> if spins + 1 \<ge> 500 then [] else direct_send env (k + 1) (spins + 1) data
      | Failed \<Rightarrow> [])"
  by pat_completeness auto
termination by (relation "measures [\<lambda>(_, _, _, data). length data, \<lambda>(_, _, spins, _). 500 - spins]") auto

declare direct_send.simps [simp del]

text \<open>The response vector in memory: its elements are value-initialised.\<close>

definition frames_bytes :: "response list \<Rightarrow> u8 list" where
  "frames_bytes rs = concat (map (frame_bytes (replicate FRAME_LEN 0)) rs)"

definition pushResponses :: "(nat \<Rightarrow> send_result) \<Rightarrow> u8 list \<Rightarrow> int \<Rightarrow> response list \<Rightarrow> tcp_server \<Rightarrow> tcp_server option" where
  "pushResponses env junk fd buf s =
     (if buf = [] then Some s
      else
        let bytes = length buf * FRAME_LEN in
        if unat (free_space (ts_ring s)) \<ge> FRAME_LEN + bytes then do {
          (n1, r1) \<leftarrow> push (frame_bytes junk (RSP_HEADER (word_of_int fd) (of_nat (length buf)))) (ts_ring s);
          (n2, r2) \<leftarrow> push (frames_bytes buf) r1;
          Some (notifySendThread (s\<lparr>ts_ring := r2\<rparr>))
        }
        else Some (s\<lparr>net := (net s)(fd := net s fd @ direct_send env 0 0 (frames_bytes buf))\<rparr>))"

section \<open>Closing\<close>

text \<open>
  The push loop of \<^verbatim>\<open>closeConnection\<close>: at most 10001 attempts, a wake-up after each failed one.  \<open>env k\<close> is
  what the send thread does to the ring before attempt \<open>k + 1\<close>.  The result counts the wake-ups.
\<close>

function push_retry :: "(nat \<Rightarrow> spsc_ring \<Rightarrow> spsc_ring) \<Rightarrow> u8 list \<Rightarrow> nat \<Rightarrow> spsc_ring \<Rightarrow> (nat \<times> spsc_ring) option" where
  "push_retry env frame retries r =
     (case push frame r of
        None \<Rightarrow> None
      | Some (n, r1) \<Rightarrow>
          if n \<noteq> 0 then Some (0, r1)
          else if retries + 1 > 10000 then Some (1, r1)
          else do { (w, r2) \<leftarrow> push_retry env frame (retries + 1) (env retries r1); Some (w + 1, r2) })"
  by pat_completeness auto
termination by (relation "measure (\<lambda>(_, _, retries, _). 10001 - retries)") auto

declare push_retry.simps [simp del]

definition close_frame :: "u8 list \<Rightarrow> int \<Rightarrow> nat \<Rightarrow> u8 list" where
  "close_frame junk fd cid = frame_bytes junk (RSP_CLOSE (word_of_int fd) (of_nat cid))"

definition closeConnection :: "(nat \<Rightarrow> spsc_ring \<Rightarrow> spsc_ring) \<Rightarrow> u8 list \<Rightarrow> nat \<Rightarrow> tcp_server \<Rightarrow> tcp_server option" where
  "closeConnection env junk cid s = do {
     c \<leftarrow> ts_heap s cid;
     let s1 = s\<lparr>ts_heap := (ts_heap s)(cid \<mapsto> c\<lparr>cc_closing := True, cc_close_acked := False\<rparr>)\<rparr>;
     (w, r) \<leftarrow> push_retry env (close_frame junk (cc_fd c) cid) 0 (ts_ring s1);
     Some (notifySendThread (s1\<lparr>ts_ring := r, wakes := wakes s1 + w, ts_pending := ts_pending s1 @ [cid]\<rparr>))
   }"

text \<open>One element of the list in \<^verbatim>\<open>drainPendingClose\<close>, then the whole list.\<close>

definition reclaim :: "nat \<Rightarrow> conn_context \<Rightarrow> tcp_server \<Rightarrow> tcp_server option" where
  "reclaim cid c s = do {
     p \<leftarrow> free_buffer (cc_buf_idx c) (ts_poller s);
     Some (s\<lparr>ts_poller := p, ts_conns := (ts_conns s)(cc_fd c := None), ts_heap := (ts_heap s)(cid := None)\<rparr>)
   }"

fun drain_pending :: "nat list \<Rightarrow> tcp_server \<Rightarrow> (nat list \<times> tcp_server) option" where
  "drain_pending [] s = Some ([], s)"
| "drain_pending (cid # cids) s = do {
     c \<leftarrow> ts_heap s cid;
     if cc_close_acked c then do { s1 \<leftarrow> reclaim cid c s; drain_pending cids s1 }
     else do { (kept, s1) \<leftarrow> drain_pending cids s; Some (cid # kept, s1) }
   }"

definition drainPendingClose :: "tcp_server \<Rightarrow> tcp_server option" where
  "drainPendingClose s = do {
     (kept, s1) \<leftarrow> drain_pending (ts_pending s) s;
     Some (s1\<lparr>ts_pending := kept\<rparr>)
   }"

section \<open>Events\<close>

definition onAccept :: "int \<Rightarrow> tcp_server \<Rightarrow> tcp_server option" where
  "onAccept client_fd s = do {
     (idx, p) \<leftarrow> alloc_buffer (ts_poller s);
     if idx = UINT32_MAX then Some (s\<lparr>ts_poller := p, ts_closed := ts_closed s @ [client_fd]\<rparr>)
     else
       let c = \<lparr>cc_fd = client_fd, cc_buf_idx = idx, cc_pending = 0, cc_consumed = 0, cc_accum = [],
                cc_closing = False, cc_close_acked = False\<rparr>;
           cid = ts_next s
       in Some (s\<lparr>ts_poller := snd (submit_recv client_fd idx p), ts_heap := (ts_heap s)(cid \<mapsto> c),
                  ts_conns := (ts_conns s)(client_fd \<mapsto> cid), ts_next := cid + 1\<rparr>)
   }"

text \<open>The environment of an event.\<close>

record io_env =
  env_send :: "nat \<Rightarrow> send_result"
  env_ring :: "nat \<Rightarrow> spsc_ring \<Rightarrow> spsc_ring"
  env_junk :: "u8 list"
  env_event :: itch_event

definition drain_conn :: "io_env \<Rightarrow> nat \<Rightarrow> conn_context \<Rightarrow> tcp_server \<Rightarrow> (response list \<times> tcp_server) option" where
  "drain_conn env cid c s = do {
     (c1, (out, e, st)) \<leftarrow> drainBuffered (processItchMessage (env_event env)) c ([], ts_engine s, ts_parser s);
     Some (out, s\<lparr>ts_engine := e, ts_parser := st, ts_heap := (ts_heap s)(cid \<mapsto> c1)\<rparr>)
   }"

text \<open>\<open>data\<close> is the content of the connection's fixed receive buffer.\<close>

definition onRecv :: "io_env \<Rightarrow> u8 list \<Rightarrow> nat \<Rightarrow> int \<Rightarrow> tcp_server \<Rightarrow> tcp_server option" where
  "onRecv env data cid bytes_read s =
     (if bytes_read \<le> 0 then closeConnection (env_ring env) (env_junk env) cid s
      else do {
        c \<leftarrow> ts_heap s cid;
        bs \<leftarrow> bytes_at 0 (nat bytes_read) data;
        (out, s1) \<leftarrow> drain_conn env cid (append_read bs c) s;
        (if out \<noteq> [] then pushResponses (env_send env) (env_junk env) (cc_fd c) out s1 else Some s1)
      })"

definition EAGAIN :: int where "EAGAIN = 11"
definition EPIPE :: int where "EPIPE = 32"
definition ECONNRESET :: int where "ECONNRESET = 104"

definition count_io :: "(io_counters \<Rightarrow> io_counters) \<Rightarrow> tcp_server \<Rightarrow> tcp_server" where
  "count_io f s = s\<lparr>ts_engine := bump f (ts_engine s)\<rparr>"

definition rearm :: "int \<Rightarrow> u32 \<Rightarrow> tcp_server \<Rightarrow> tcp_server" where
  "rearm fd idx s = s\<lparr>ts_poller := snd (submit_recv fd idx (ts_poller s))\<rparr>"

text \<open>The two callbacks of the event loop.\<close>

definition accept_callback :: "int \<Rightarrow> tcp_server \<Rightarrow> tcp_server option" where
  "accept_callback client_fd s = do {
     s1 \<leftarrow> onAccept client_fd s;
     Some (s1\<lparr>ts_poller := snd (submit_accept (ts_fd s1) (ts_poller s1))\<rparr>)
   }"

definition recv_callback :: "io_env \<Rightarrow> (u32 \<Rightarrow> u8 list) \<Rightarrow> int \<Rightarrow> int \<Rightarrow> tcp_server \<Rightarrow> tcp_server option" where
  "recv_callback env bufs fd bytes_read s =
     (case ts_conns s fd of
        None \<Rightarrow> Some s
      | Some cid \<Rightarrow> do {
          c \<leftarrow> ts_heap s cid;
          if cc_closing c then Some s
          else do {
            let s1 = count_io (\<lambda>m. m\<lparr>recv_frames := recv_frames m + 1\<rparr>) s;
            if bytes_read = - EAGAIN then Some (rearm fd (cc_buf_idx c) s1)
            else do {
              let s2 = (if bytes_read < 0 \<and> bytes_read \<noteq> - ECONNRESET \<and> bytes_read \<noteq> - EPIPE
                        then count_io (\<lambda>m. m\<lparr>errors := errors m + 1\<rparr>) s1 else s1);
              s3 \<leftarrow> onRecv env (bufs (cc_buf_idx c)) cid bytes_read s2;
              (case ts_conns s3 fd of
                 None \<Rightarrow> Some s3
               | Some cid' \<Rightarrow> do {
                   c' \<leftarrow> ts_heap s3 cid';
                   Some (if cc_closing c' then s3 else rearm fd (cc_buf_idx c') s3)
                 })
            }
          }
        })"

text \<open>\<^verbatim>\<open>logSummary\<close> besides its log line: the checkpoint and the watch on the send thread.\<close>

definition watch_sender :: "tcp_server \<Rightarrow> tcp_server" where
  "watch_sender s =
     (case (ts_send_heartbeat s, ts_io_heartbeat s) of
        (Some hb, Some _) \<Rightarrow>
          if hb = ts_last_send_hb s then
            (if ts_stall_count s + 1 \<ge> 3 then s\<lparr>wakes := wakes s + 1, ts_stall_count := 0\<rparr>
             else s\<lparr>ts_stall_count := ts_stall_count s + 1\<rparr>)
          else s\<lparr>ts_last_send_hb := hb, ts_stall_count := 0\<rparr>
      | _ \<Rightarrow> s)"

definition logSummary :: "tcp_server \<Rightarrow> tcp_server" where
  "logSummary s =
     (case eng_metrics (ts_engine s) of
        None \<Rightarrow> s
      | Some m \<Rightarrow>
          if new_orders m < 1000 \<or> new_orders m - ts_summary_last s < 1000 then s
          else
            let s1 = s\<lparr>ts_summary_last := new_orders m\<rparr>;
                s2 = (case checkpointIfNeeded True (ts_engine s1) of
                        None \<Rightarrow> s1 | Some cp \<Rightarrow> s1\<lparr>ts_checkpoints := ts_checkpoints s1 @ [cp]\<rparr>)
            in watch_sender s2)"

section \<open>The event loop\<close>

text \<open>
  What \<^verbatim>\<open>io_uring_submit_and_wait\<close> does in a turn of the loop: it delivers completions, is interrupted by a
  signal, or fails otherwise.  The loop goes over the turns until the stop flag is set, which is the end of the list.
\<close>

datatype wait_result = Completed "cqe list" | Interrupted | WaitFailed

definition start_tick :: "tcp_server \<Rightarrow> tcp_server" where
  "start_tick s =
     (let s1 = count_io (\<lambda>m. m\<lparr>tick_counter := tick_counter m + 1\<rparr>) s;
          s2 = s1\<lparr>ts_io_heartbeat := map_option (\<lambda>h. h + 1) (ts_io_heartbeat s1)\<rparr>
      in s2\<lparr>ts_poller := snd (submit_and_wait_timeout (ts_fd s2) (ts_poller s2))\<rparr>)"

definition finish_tick :: "io_env \<Rightarrow> (u32 \<Rightarrow> u8 list) \<Rightarrow> cqe list \<Rightarrow> tcp_server \<Rightarrow> tcp_server option" where
  "finish_tick env bufs cqes s = do {
     s1 \<leftarrow> process_cqes (ts_fd s) accept_callback (recv_callback env bufs) cqes s;
     s2 \<leftarrow> drainPendingClose s1;
     let s3 = s2\<lparr>ts_ring_status_tail := map_option (\<lambda>_. sr_tail (ts_ring s2)) (ts_ring_status_tail s2)\<rparr>;
     Some (logSummary s3)
   }"

definition server_turn :: "io_env \<Rightarrow> (u32 \<Rightarrow> u8 list) \<Rightarrow> wait_result \<Rightarrow> tcp_server \<Rightarrow> tcp_server option" where
  "server_turn env bufs w s =
     (case w of Completed cqes \<Rightarrow> finish_tick env bufs cqes (start_tick s) | _ \<Rightarrow> Some (start_tick s))"

fun server_loop :: "(io_env \<times> (u32 \<Rightarrow> u8 list) \<times> wait_result) list \<Rightarrow> tcp_server \<Rightarrow> tcp_server option" where
  "server_loop [] s = Some s"
| "server_loop ((env, bufs, w) # turns) s = do {
     s1 \<leftarrow> server_turn env bufs w s;
     (if w = WaitFailed then Some s1 else server_loop turns s1)
   }"

section \<open>Shutdown\<close>

text \<open>The two passes of the shutdown over the open connections, in the order the hash map gives them.\<close>

fun flush_conns :: "io_env \<Rightarrow> nat list \<Rightarrow> tcp_server \<Rightarrow> tcp_server option" where
  "flush_conns env [] s = Some s"
| "flush_conns env (cid # cids) s = do {
     c \<leftarrow> ts_heap s cid;
     s1 \<leftarrow> (if cc_pending c > cc_consumed c then do {
              (out, s1) \<leftarrow> drain_conn env cid c s;
              (if out \<noteq> [] then pushResponses (env_send env) (env_junk env) (cc_fd c) out s1 else Some s1)
            } else Some s);
     flush_conns env cids s1
   }"

fun close_conns :: "io_env \<Rightarrow> nat list \<Rightarrow> tcp_server \<Rightarrow> tcp_server option" where
  "close_conns env [] s = Some s"
| "close_conns env (cid # cids) s = do {
     c \<leftarrow> ts_heap s cid;
     s1 \<leftarrow> (if cc_closing c then Some s else closeConnection (env_ring env) (env_junk env) cid s);
     close_conns env cids s1
   }"

text \<open>
  The wait for the send thread to empty the ring; \<open>sender k\<close> is what that thread does during the \<open>k\<close>-th round.
\<close>

partial_function (option) wait_drained :: "(nat \<Rightarrow> tcp_server \<Rightarrow> tcp_server) \<Rightarrow> nat \<Rightarrow> tcp_server \<Rightarrow> tcp_server option" where
  "wait_drained sender k s =
     (if free_space (ts_ring s) < of_nat RING_SIZE then wait_drained sender (k + 1) (sender k (notifySendThread s)) else Some s)"

declare wait_drained.simps [code]

definition server_shutdown :: "io_env \<Rightarrow> nat list \<Rightarrow> nat list \<Rightarrow> (nat \<Rightarrow> tcp_server \<Rightarrow> tcp_server) \<Rightarrow> tcp_server \<Rightarrow> tcp_server option" where
  "server_shutdown env order1 order2 sender s = do {
     let s1 = s\<lparr>ts_closed := ts_closed s @ [ts_fd s], ts_fd := - 1\<rparr>;
     s2 \<leftarrow> flush_conns env order1 s1;
     s3 \<leftarrow> close_conns env order2 s2;
     s4 \<leftarrow> wait_drained sender 0 s3;
     drainPendingClose s4
   }"

text \<open>
  The constructor after the system calls for the listening socket, whose outcome is \<open>fd\<close> (negative for a failure of
  any of them), and the event loop with the shutdown behind it.
\<close>

definition new_TcpServer :: "int \<Rightarrow> engine \<Rightarrow> itch_parser \<Rightarrow> spsc_ring \<Rightarrow> u64 option \<Rightarrow> u64 option \<Rightarrow> u64 option \<Rightarrow> tcp_server" where
  "new_TcpServer fd e parser r ring_status io_heartbeat send_heartbeat =
     \<lparr>ts_fd = (if fd < 0 then - 1 else fd), ts_engine = e, ts_parser = parser, ts_ring = r, ts_poller = new_IoUringPoller,
      ts_heap = Map.empty, ts_conns = Map.empty, ts_pending = [], ts_next = 0, ts_summary_last = 0,
      ts_io_heartbeat = io_heartbeat, ts_send_heartbeat = send_heartbeat, ts_last_send_hb = 0, ts_stall_count = 0,
      ts_ring_status_tail = ring_status, ts_closed = [], net = (\<lambda>_. []), wakes = 0, ts_checkpoints = []\<rparr>"

definition start :: "(io_env \<times> (u32 \<Rightarrow> u8 list) \<times> wait_result) list \<Rightarrow> io_env \<Rightarrow> nat list \<Rightarrow> nat list \<Rightarrow>
    (nat \<Rightarrow> tcp_server \<Rightarrow> tcp_server) \<Rightarrow> tcp_server \<Rightarrow> tcp_server option" where
  "start turns env order1 order2 sender s =
     (if ts_fd s < 0 then Some s
      else do {
        s1 \<leftarrow> server_loop turns (s\<lparr>ts_poller := snd (submit_accept (ts_fd s) (ts_poller s))\<rparr>);
        server_shutdown env order1 order2 sender s1
      })"

text \<open>
  The destructor: the connections of the map in the order \<open>order\<close> of its iterator, then those waiting for their close,
  then the listening socket.  Reading or deleting a connection that is already deleted is undefined.
\<close>

fun delete_conns :: "nat list \<Rightarrow> tcp_server \<Rightarrow> tcp_server option" where
  "delete_conns [] s = Some s"
| "delete_conns (cid # cids) s = do {
     c \<leftarrow> ts_heap s cid;
     delete_conns cids (s\<lparr>ts_closed := ts_closed s @ [cc_fd c], ts_heap := (ts_heap s)(cid := None)\<rparr>)
   }"

fun delete_pending :: "nat list \<Rightarrow> tcp_server \<Rightarrow> tcp_server option" where
  "delete_pending [] s = Some s"
| "delete_pending (cid # cids) s = do {
     c \<leftarrow> ts_heap s cid;
     delete_pending cids (s\<lparr>ts_conns := (ts_conns s)(cc_fd c := None), ts_closed := ts_closed s @ [cc_fd c],
       ts_heap := (ts_heap s)(cid := None)\<rparr>)
   }"

definition delete_TcpServer :: "nat list \<Rightarrow> tcp_server \<Rightarrow> tcp_server option" where
  "delete_TcpServer order s = do {
     s1 \<leftarrow> delete_conns order s;
     s2 \<leftarrow> delete_pending (ts_pending s1) (s1\<lparr>ts_conns := Map.empty\<rparr>);
     Some (if ts_fd s2 \<ge> 0 then s2\<lparr>ts_closed := ts_closed s2 @ [ts_fd s2]\<rparr> else s2)
   }"

end
