(* ===== verification/Send_Thread.thy ===== *)
theory Send_Thread
  imports Response_Frame Spsc_Queue
begin

text \<open>
  The send thread: the loop of \<^verbatim>\<open>send_thread\<close> in \<^verbatim>\<open>src/main.cpp\<close> and \<^verbatim>\<open>send_zc_all\<close> of
  \<^verbatim>\<open>src/send_uring.cpp\<close>.  The kernel's answer to the \<open>k\<close>-th call, given the length offered, is an argument.
  \<open>sd_net\<close> records the bytes that reached each socket, \<open>sd_closed\<close> and \<open>sd_acked\<close> the descriptors closed and the
  flags set.  Waiting for bytes that are not in the ring, and a socket that never becomes writable, make the
  loops go on forever, which is the value \<open>None\<close>.
\<close>

datatype send_outcome = KSent nat | KAgain | KError

text \<open>
  The zero-copy path: no submission entry is free, the submission itself fails, or the completion carries a
  count or an error number.
\<close>

datatype zc_outcome = ZcNoEntry | ZcSubmitError int | ZcSent nat | ZcError int

record send_counters =
  send_batches :: u64
  send_bytes :: u64
  send_zc_ok :: u64
  send_zc_fail :: u64
  send_tick_counter :: u64

record sender =
  sd_ring :: spsc_ring
  sd_zc_ok :: bool
  sd_metrics :: "send_counters option"
  sd_heartbeat :: "u64 option"
  sd_ring_status_head :: "u64 option"
  sd_net :: "u32 \<Rightarrow> u8 list"
  sd_closed :: "u32 list"
  sd_acked :: "u64 list"

definition EOPNOTSUPP :: int where "EOPNOTSUPP = 95"
definition ENOSYS :: int where "ENOSYS = 38"
definition ZC_EAGAIN :: int where "ZC_EAGAIN = 11"

definition to_net :: "u32 \<Rightarrow> u8 list \<Rightarrow> sender \<Rightarrow> sender" where
  "to_net fd bs s = s\<lparr>sd_net := (sd_net s)(fd := sd_net s fd @ bs)\<rparr>"

definition count_send :: "(send_counters \<Rightarrow> send_counters) \<Rightarrow> sender \<Rightarrow> sender" where
  "count_send f s = s\<lparr>sd_metrics := map_option f (sd_metrics s)\<rparr>"

section \<open>Zero-copy path\<close>

text \<open>\<^verbatim>\<open>send_zc_all\<close>: the result is \<open>None\<close> for the full length, or the positive error number.\<close>

partial_function (option) send_zc_all ::
    "(nat \<Rightarrow> nat \<Rightarrow> zc_outcome) \<Rightarrow> nat \<Rightarrow> u32 \<Rightarrow> u64 \<Rightarrow> sender \<Rightarrow> (int option \<times> sender) option" where
  "send_zc_all env k fd remaining s =
     (if remaining > 0 then
        (case read_acquire remaining (sd_ring s) of
           None \<Rightarrow> None
         | Some (p, chunk) \<Rightarrow>
             (case env k (unat chunk) of
                ZcNoEntry \<Rightarrow> Some (Some ZC_EAGAIN, s)
              | ZcSubmitError err \<Rightarrow> Some (Some err, s)
              | ZcSent n \<Rightarrow>
                  if n > 0 then do {
                    bs \<leftarrow> bytes_at (unat p) n (sr_buf (sd_ring s));
                    send_zc_all env (k + 1) fd (remaining - of_nat n)
                      (to_net fd bs (s\<lparr>sd_ring := read_release (of_nat n) (sd_ring s)\<rparr>))
                  }
                  else send_zc_all env (k + 1) fd remaining s
              | ZcError err \<Rightarrow> Some (Some err, s\<lparr>sd_ring := read_release remaining (sd_ring s)\<rparr>)))
      else Some (None, s))"

declare send_zc_all.simps [code]

section \<open>Plain path\<close>

text \<open>The loop \<^verbatim>\<open>while (sent < need)\<close>; the result is the number of bytes sent.\<close>

partial_function (option) plain_send ::
    "(nat \<Rightarrow> nat \<Rightarrow> send_outcome) \<Rightarrow> nat \<Rightarrow> u32 \<Rightarrow> u64 \<Rightarrow> u64 \<Rightarrow> sender \<Rightarrow> (u64 \<times> sender) option" where
  "plain_send env k fd need sent s =
     (if sent < need then
        (case read_acquire (need - sent) (sd_ring s) of
           None \<Rightarrow> None
         | Some (p, chunk) \<Rightarrow>
             (case env k (unat chunk) of
                KSent n \<Rightarrow>
                  if n > 0 then do {
                    bs \<leftarrow> bytes_at (unat p) n (sr_buf (sd_ring s));
                    plain_send env (k + 1) fd need (sent + of_nat n)
                      (to_net fd bs (s\<lparr>sd_ring := read_release (of_nat n) (sd_ring s)\<rparr>))
                  }
                  else Some (sent, s\<lparr>sd_ring := read_release chunk (sd_ring s)\<rparr>)
              | KAgain \<Rightarrow> plain_send env (k + 1) fd need sent s
              | KError \<Rightarrow> Some (sent, s\<lparr>sd_ring := read_release chunk (sd_ring s)\<rparr>)))
      else Some (sent, s))"

declare plain_send.simps [code]

definition plain_batch :: "(nat \<Rightarrow> nat \<Rightarrow> send_outcome) \<Rightarrow> u32 \<Rightarrow> u64 \<Rightarrow> sender \<Rightarrow> sender option" where
  "plain_batch env fd need s = do {
     (sent, s1) \<leftarrow> plain_send env 0 fd need 0 s;
     Some (count_send (\<lambda>m. m\<lparr>send_bytes := send_bytes m + sent\<rparr>) s1)
   }"

text \<open>A batch behind its header frame.\<close>

definition send_batch :: "(nat \<Rightarrow> nat \<Rightarrow> zc_outcome) \<Rightarrow> (nat \<Rightarrow> nat \<Rightarrow> send_outcome) \<Rightarrow>
    u32 \<Rightarrow> u32 \<Rightarrow> sender \<Rightarrow> sender option" where
  "send_batch zc_env env fd count s0 = do {
     let need = ucast count * 48;
     let s = count_send (\<lambda>m. m\<lparr>send_batches := send_batches m + 1\<rparr>) s0;
     if sd_zc_ok s \<and> need \<ge> 4096 then do {
       (r, s1) \<leftarrow> send_zc_all zc_env 0 fd need s;
       case r of
         None \<Rightarrow> Some (count_send (\<lambda>m. m\<lparr>send_zc_ok := send_zc_ok m + 1, send_bytes := send_bytes m + need\<rparr>) s1)
       | Some err \<Rightarrow>
           if err = EOPNOTSUPP \<or> err = ENOSYS then plain_batch env fd need (s1\<lparr>sd_zc_ok := False\<rparr>)
           else Some (count_send (\<lambda>m. m\<lparr>send_zc_fail := send_zc_fail m + 1\<rparr>) s1)
     }
     else plain_batch env fd need s
   }"

section \<open>The loop\<close>

text \<open>
  One turn.  A \<^verbatim>\<open>pop\<close> of fewer than 48 bytes leaves the rest of the header array as it was on the stack,
  \<open>junk\<close>; an empty one makes the thread wait for the event descriptor.
\<close>

definition sender_turn :: "u8 list \<Rightarrow> (nat \<Rightarrow> nat \<Rightarrow> zc_outcome) \<Rightarrow> (nat \<Rightarrow> nat \<Rightarrow> send_outcome) \<Rightarrow>
    sender \<Rightarrow> sender option" where
  "sender_turn junk zc_env env s = do {
     let s0 = count_send (\<lambda>m. m\<lparr>send_tick_counter := send_tick_counter m + 1\<rparr>)
                (s\<lparr>sd_heartbeat := map_option (\<lambda>h. h + 1) (sd_heartbeat s)\<rparr>);
     let s1 = s0\<lparr>sd_ring_status_head := map_option (\<lambda>_. sr_head (sd_ring s0)) (sd_ring_status_head s0)\<rparr>;
     (got, r) \<leftarrow> pop 48 (sd_ring s1);
     let s2 = s1\<lparr>sd_ring := r\<rparr>;
     if got = [] then Some s2
     else do {
       let hdr = got @ drop (length got) junk;
       t \<leftarrow> byte_at 0 hdr;
       if t = 0x88 then do {
         fd \<leftarrow> rd_le 8 4 hdr;
         ack \<leftarrow> rd_le 16 8 hdr;
         Some (s2\<lparr>sd_closed := sd_closed s2 @ [fd], sd_acked := sd_acked s2 @ [ack]\<rparr>)
       }
       else if t \<noteq> 0x87 then Some s2
       else do {
         fd \<leftarrow> rd_le 8 4 hdr;
         count \<leftarrow> rd_le 12 4 hdr;
         send_batch zc_env env fd count s2
       }
     }
   }"

section \<open>Delivery\<close>

text \<open>A kernel that accepts some of the bytes at every call.\<close>

definition accepting :: "(nat \<Rightarrow> nat \<Rightarrow> send_outcome) \<Rightarrow> bool" where
  "accepting env \<longleftrightarrow> (\<forall>k n. 0 < n \<longrightarrow> (\<exists>r. env k n = KSent r \<and> 0 < r \<and> r \<le> n))"

definition zc_accepting :: "(nat \<Rightarrow> nat \<Rightarrow> zc_outcome) \<Rightarrow> bool" where
  "zc_accepting env \<longleftrightarrow> (\<forall>k n. 0 < n \<longrightarrow> (\<exists>r. env k n = ZcSent r \<and> 0 < r \<and> r \<le> n))"

text \<open>Reading part of the front of the ring.\<close>

lemma word_bounds: "unat (w :: u64) < 18446744073709551616" "unat (v :: u32) < 4294967296"
  using unsigned_less [of w, where 'a = nat] unsigned_less [of v, where 'a = nat] by simp_all

lemma count_send_sel [simp]:
  "sd_ring (count_send f s) = sd_ring s" "sd_net (count_send f s) = sd_net s" "sd_zc_ok (count_send f s) = sd_zc_ok s"
  "sd_closed (count_send f s) = sd_closed s" "sd_acked (count_send f s) = sd_acked s"
  by (simp_all add: count_send_def)

lemma bytes_at_prefix: "bytes_at p n m = Some xs \<Longrightarrow> k \<le> n \<Longrightarrow> bytes_at p k m = Some (take k xs)"
  by (auto simp: bytes_at_def min_absorb1 split: if_splits)

lemma ring_front:
  assumes inv: "ring_inv r" and c: "contents r = data @ rest" and ne: "data \<noteq> []" and req: "unat request = length data"
  obtains p chunk where "read_acquire request r = Some (p, chunk)" "0 < unat chunk" "unat chunk \<le> length data"
    "\<And>n. n \<le> unat chunk \<Longrightarrow> bytes_at (unat p) n (sr_buf r) = Some (take n data) \<and> ring_inv (read_release (of_nat n) r) \<and>
       contents (read_release (of_nat n) r) = drop n data @ rest"
proof -
  have "request \<noteq> 0" using req ne by (metis length_0_conv unat_0)
  then obtain p chunk where acq: "read_acquire request r = Some (p, chunk)"
    using c ne read_acquire_None [of request r] by (cases "read_acquire request r") auto
  note a = read_acquire_contents [OF inv acq]
  have le: "unat chunk \<le> length data" using a(3) req by simp
  show thesis
  proof (rule that [OF acq a(1) le])
    fix n assume n: "n \<le> unat chunk"
    have un: "unat (of_nat n :: u64) = n" using n word_bounds(1) [of chunk] by (simp add: unat_of_nat)
    have "bytes_at (unat p) n (sr_buf r) = Some (take n (contents r))"
      using bytes_at_prefix [OF a(4) n] n by (simp add: min_absorb1)
    moreover have "unat (of_nat n :: u64) \<le> used r" using un n a(2) by simp
    note rel = read_release_contents [OF inv this]
    ultimately show "bytes_at (unat p) n (sr_buf r) = Some (take n data) \<and> ring_inv (read_release (of_nat n) r) \<and>
        contents (read_release (of_nat n) r) = drop n data @ rest"
      using rel c n le un by simp
  qed
qed

text \<open>The sender after \<open>data\<close> has left the ring for the socket.\<close>

definition delivered_to :: "u32 \<Rightarrow> u8 list \<Rightarrow> u8 list \<Rightarrow> sender \<Rightarrow> sender \<Rightarrow> bool" where
  "delivered_to fd data rest s s' \<longleftrightarrow> ring_inv (sd_ring s') \<and> contents (sd_ring s') = rest \<and>
     length (sr_buf (sd_ring s')) = length (sr_buf (sd_ring s)) \<and> s' = s\<lparr>sd_ring := sd_ring s', sd_net := (sd_net s)(fd := sd_net s fd @ data)\<rparr>"

lemma delivered_to_step:
  "delivered_to fd (drop n data) rest (to_net fd (take n data) (s\<lparr>sd_ring := read_release k (sd_ring s)\<rparr>)) s' \<Longrightarrow>
     delivered_to fd data rest s s'"
proof -
  have "take n data @ drop n data = data" by simp
  then show "delivered_to fd (drop n data) rest (to_net fd (take n data) (s\<lparr>sd_ring := read_release k (sd_ring s)\<rparr>)) s' \<Longrightarrow> ?thesis"
    by (simp add: delivered_to_def to_net_def read_release_buf del: append_take_drop_id)
qed

lemma plain_send_delivers:
  assumes env: "accepting env" and "ring_inv (sd_ring s)" "contents (sd_ring s) = data @ rest"
    and "unat sent + length data = unat need"
  shows "\<exists>s'. plain_send env k fd need sent s = Some (need, s') \<and> delivered_to fd data rest s s'"
  using assms(2-)
proof (induction data arbitrary: s sent k rule: length_induct)
  case (1 data)
  show ?case
  proof (cases "data = []")
    case True
    then have "sent = need" using 1(4) by (simp add: word_unat_eq_iff)
    then show ?thesis using 1(2,3) True by (subst plain_send.simps) (simp add: delivered_to_def)
  next
    case False
    then have "0 < length data" by simp
    then have "unat sent < unat need" using 1(4) by linarith
    then have lt: "sent < need" and req: "unat (need - sent) = length data"
      using 1(4) by (simp_all add: word_less_nat_alt unat_sub word_le_nat_alt)
    obtain p chunk where f: "read_acquire (need - sent) (sd_ring s) = Some (p, chunk)" "0 < unat chunk" "unat chunk \<le> length data"
      "\<And>n. n \<le> unat chunk \<Longrightarrow> bytes_at (unat p) n (sr_buf (sd_ring s)) = Some (take n data) \<and>
         ring_inv (read_release (of_nat n) (sd_ring s)) \<and> contents (read_release (of_nat n) (sd_ring s)) = drop n data @ rest"
      using ring_front [OF 1(2,3) False req] by blast
    obtain n where n: "env k (unat chunk) = KSent n" "0 < n" "n \<le> unat chunk"
      using env f(2) unfolding accepting_def by blast
    let ?s = "to_net fd (take n data) (s\<lparr>sd_ring := read_release (of_nat n) (sd_ring s)\<rparr>)"
    have un: "unat (sent + of_nat n) = unat sent + n"
      using n(3) f(3) 1(4) word_bounds(1) [of need] by (simp add: unat_word_ariths unat_of_nat)
    have "\<exists>s'. plain_send env (k + 1) fd need (sent + of_nat n) ?s = Some (need, s') \<and> delivered_to fd (drop n data) rest ?s s'"
    proof (rule 1(1) [rule_format])
      show "length (drop n data) < length data" using n(2) False by simp
      show "unat (sent + of_nat n) + length (drop n data) = unat need" using un n(3) f(3) 1(4) by simp
    qed (use f(4) [OF n(3)] in \<open>simp_all add: to_net_def\<close>)
    moreover have "plain_send env k fd need sent s = plain_send env (k + 1) fd need (sent + of_nat n) ?s"
      using lt f n f(4) [OF n(3)] by (subst plain_send.simps) simp
    ultimately show ?thesis by (auto intro: delivered_to_step)
  qed
qed

lemma send_zc_delivers:
  assumes env: "zc_accepting env" and "ring_inv (sd_ring s)" "contents (sd_ring s) = data @ rest"
    and "length data = unat remaining"
  shows "\<exists>s'. send_zc_all env k fd remaining s = Some (None, s') \<and> delivered_to fd data rest s s'"
  using assms(2-)
proof (induction data arbitrary: s remaining k rule: length_induct)
  case (1 data)
  show ?case
  proof (cases "data = []")
    case True
    then have "remaining = 0" using 1(4) by (simp add: unat_eq_zero)
    then show ?thesis using 1(2,3) True by (subst send_zc_all.simps) (simp add: delivered_to_def)
  next
    case False
    then have "0 < length data" by simp
    then have gt: "remaining > 0" using 1(4) by (simp add: word_less_nat_alt)
    obtain p chunk where f: "read_acquire remaining (sd_ring s) = Some (p, chunk)" "0 < unat chunk" "unat chunk \<le> length data"
      "\<And>n. n \<le> unat chunk \<Longrightarrow> bytes_at (unat p) n (sr_buf (sd_ring s)) = Some (take n data) \<and>
         ring_inv (read_release (of_nat n) (sd_ring s)) \<and> contents (read_release (of_nat n) (sd_ring s)) = drop n data @ rest"
      using ring_front [OF 1(2,3) False 1(4) [symmetric]] by blast
    obtain n where n: "env k (unat chunk) = ZcSent n" "0 < n" "n \<le> unat chunk"
      using env f(2) unfolding zc_accepting_def by blast
    let ?s = "to_net fd (take n data) (s\<lparr>sd_ring := read_release (of_nat n) (sd_ring s)\<rparr>)"
    have un: "unat (of_nat n :: u64) = n" using n(3) word_bounds(1) [of chunk] by (simp add: unat_of_nat)
    have "\<exists>s'. send_zc_all env (k + 1) fd (remaining - of_nat n) ?s = Some (None, s') \<and> delivered_to fd (drop n data) rest ?s s'"
    proof (rule 1(1) [rule_format])
      show "length (drop n data) < length data" using n(2) False by simp
      show "length (drop n data) = unat (remaining - of_nat n)" using un n(3) f(3) 1(4) by (simp add: unat_sub word_le_nat_alt)
    qed (use f(4) [OF n(3)] in \<open>simp_all add: to_net_def\<close>)
    moreover have "send_zc_all env k fd remaining s = send_zc_all env (k + 1) fd (remaining - of_nat n) ?s"
      using gt f n f(4) [OF n(3)] by (subst send_zc_all.simps) simp
    ultimately show ?thesis by (auto intro: delivered_to_step)
  qed
qed

lemma send_batch_delivers:
  assumes env: "accepting env" "zc_accepting zc_env" and inv: "ring_inv (sd_ring s)"
    and count: "length data = unat count * 48" and c: "contents (sd_ring s) = data @ rest"
  shows "\<exists>s'. send_batch zc_env env fd count s = Some s' \<and> ring_inv (sd_ring s') \<and> contents (sd_ring s') = rest \<and>
    length (sr_buf (sd_ring s')) = length (sr_buf (sd_ring s)) \<and> sd_net s' = (sd_net s)(fd := sd_net s fd @ data) \<and> sd_closed s' = sd_closed s \<and> sd_acked s' = sd_acked s"
proof -
  define need :: u64 where "need = ucast count * 48"
  define s1 where "s1 = count_send (\<lambda>m. m\<lparr>send_batches := send_batches m + 1\<rparr>) s"
  have s1: "sd_ring s1 = sd_ring s" "sd_net s1 = sd_net s" "sd_closed s1 = sd_closed s" "sd_acked s1 = sd_acked s"
    by (simp_all add: s1_def count_send_def)
  have "unat (ucast count :: u64) = unat count"
    using word_bounds(2) [of count] by (simp add: unsigned_ucast_eq take_bit_eq_mod)
  then have need: "unat need = length data"
    using count word_bounds(2) [of count] by (simp add: need_def unat_word_ariths)
  have inv1: "ring_inv (sd_ring s1)" "contents (sd_ring s1) = data @ rest" using inv c s1 by simp_all
  obtain s' where p: "plain_send env 0 fd need 0 s1 = Some (need, s')" "delivered_to fd data rest s1 s'"
    using plain_send_delivers [OF env(1) inv1, of 0 need 0 fd] need by auto
  obtain s'' where z: "send_zc_all zc_env 0 fd need s1 = Some (None, s'')" "delivered_to fd data rest s1 s''"
    using send_zc_delivers [OF env(2) inv1, of need 0 fd] need by auto
  have d: "sd_net t = (sd_net s)(fd := sd_net s fd @ data) \<and> sd_closed t = sd_closed s \<and> sd_acked t = sd_acked s \<and>
      ring_inv (sd_ring t) \<and> contents (sd_ring t) = rest \<and> length (sr_buf (sd_ring t)) = length (sr_buf (sd_ring s))" if "delivered_to fd data rest s1 t" for t
  proof -
    have "t = s1\<lparr>sd_ring := sd_ring t, sd_net := (sd_net s1)(fd := sd_net s1 fd @ data)\<rparr>"
      using that by (simp add: delivered_to_def)
    then have "sd_net t = (sd_net s1)(fd := sd_net s1 fd @ data)" "sd_closed t = sd_closed s1" "sd_acked t = sd_acked s1"
      by (metis sender.select_convs sender.surjective sender.update_convs)+
    then show ?thesis using that s1 by (simp add: delivered_to_def)
  qed
  show ?thesis
    using p(1) z(1) d [OF p(2)] d [OF z(2)]
    by (simp add: send_batch_def plain_batch_def need_def [symmetric] s1_def [symmetric] Let_def)
qed

text \<open>A turn on a ring whose front is a batch.\<close>

lemma header_fields:
  assumes "length junk = FRAME_LEN"
  shows "byte_at 0 (frame_bytes junk (RSP_HEADER fd count)) = Some 0x87"
    and "rd_le 8 4 (frame_bytes junk (RSP_HEADER fd count)) = Some fd"
    and "rd_le 12 4 (frame_bytes junk (RSP_HEADER fd count)) = Some count"
    and "byte_at 0 (frame_bytes junk (RSP_CLOSE fd ack)) = Some 0x88"
    and "rd_le 8 4 (frame_bytes junk (RSP_CLOSE fd ack)) = Some fd"
    and "rd_le 16 8 (frame_bytes junk (RSP_CLOSE fd ack)) = Some ack"
proof -
  have "length (take 7 (drop 1 junk)) = 7" using assms by (simp add: FRAME_LEN_def)
  then show "byte_at 0 (frame_bytes junk (RSP_HEADER fd count)) = Some 0x87"
    and "rd_le 8 4 (frame_bytes junk (RSP_HEADER fd count)) = Some fd"
    and "rd_le 12 4 (frame_bytes junk (RSP_HEADER fd count)) = Some count"
    and "byte_at 0 (frame_bytes junk (RSP_CLOSE fd ack)) = Some 0x88"
    and "rd_le 8 4 (frame_bytes junk (RSP_CLOSE fd ack)) = Some fd"
    and "rd_le 16 8 (frame_bytes junk (RSP_CLOSE fd ack)) = Some ack"
    by (simp_all add: frame_bytes_def Let_def buf_simps rd_le_def)
qed

lemma pop_frame:
  assumes "ring_inv r" and "length junk = FRAME_LEN" and "contents r = frame_bytes junk x @ rest"
  shows "\<exists>r'. pop 48 r = Some (frame_bytes junk x, r') \<and> ring_inv r' \<and> contents r' = rest \<and>
    length (sr_buf r') = length (sr_buf r)"
  using pop_contents [OF assms(1), of 48] length_frame_bytes [OF assms(2), of x] assms(3) by (auto simp: FRAME_LEN_def)

lemma sender_turn_batch:
  assumes env: "accepting env" "zc_accepting zc_env" and inv: "ring_inv (sd_ring s)"
    and junk: "length junk = FRAME_LEN" "length stack = FRAME_LEN" and count: "length data = unat count * 48"
    and c: "contents (sd_ring s) = frame_bytes junk (RSP_HEADER fd count) @ data @ rest"
  shows "\<exists>s'. sender_turn stack zc_env env s = Some s' \<and> ring_inv (sd_ring s') \<and> contents (sd_ring s') = rest \<and>
    length (sr_buf (sd_ring s')) = length (sr_buf (sd_ring s)) \<and> sd_net s' = (sd_net s)(fd := sd_net s fd @ data) \<and> sd_closed s' = sd_closed s \<and> sd_acked s' = sd_acked s"
proof -
  let ?h = "frame_bytes junk (RSP_HEADER fd count)"
  obtain r where r: "pop 48 (sd_ring s) = Some (?h, r)" "ring_inv r" "contents r = data @ rest" "length (sr_buf r) = length (sr_buf (sd_ring s))"
    using pop_frame [OF inv junk(1) c] by blast
  note h = header_fields(1-3) [OF junk(1), of fd count]
  have ne: "?h \<noteq> []" by (simp add: frame_bytes_def Let_def)
  define s2 where "s2 = count_send (\<lambda>m. m\<lparr>send_tick_counter := send_tick_counter m + 1\<rparr>)
    (s\<lparr>sd_heartbeat := map_option (\<lambda>h. h + 1) (sd_heartbeat s)\<rparr>)
    \<lparr>sd_ring_status_head := map_option (\<lambda>_. sr_head (sd_ring s)) (sd_ring_status_head s), sd_ring := r\<rparr>"
  have s2: "ring_inv (sd_ring s2)" "contents (sd_ring s2) = data @ rest" "sd_net s2 = sd_net s"
    "sd_closed s2 = sd_closed s" "sd_acked s2 = sd_acked s" "length (sr_buf (sd_ring s2)) = length (sr_buf (sd_ring s))"
    using r by (simp_all add: s2_def count_send_def)
  have "length ?h = length stack" using length_frame_bytes [OF junk(1)] junk(2) by simp
  then have "sender_turn stack zc_env env s = send_batch zc_env env fd count s2"
    using r(1) h ne unfolding sender_turn_def s2_def by (simp add: count_send_def Let_def)
  then show ?thesis
    using send_batch_delivers [OF env s2(1) count s2(2), of fd] s2 by simp
qed

end
