(* ===== verification/System.thy ===== *)
theory System
  imports Tcp_Server Send_Thread
begin

text \<open>
  The IO thread and the send thread on one ring.  What the ring holds is a sequence of batches and close
  notices; the notices carry the address of a flag inside a connection object, which the send thread sets
  and the IO thread waits for before it frees the object and its receive buffer.
\<close>

section \<open>A turn of the send thread seen by the server\<close>

fun ack_all :: "u64 list \<Rightarrow> tcp_server \<Rightarrow> tcp_server option" where
  "ack_all [] s = Some s"
| "ack_all (a # acks) s = do {
     c \<leftarrow> ts_heap s (unat a);
     ack_all acks (s\<lparr>ts_heap := (ts_heap s)(unat a \<mapsto> c\<lparr>cc_close_acked := True\<rparr>)\<rparr>)
   }"

text \<open>Storing through an address at which no object lives any more is \<open>None\<close>.\<close>

definition send_step :: "u8 list \<Rightarrow> (nat \<Rightarrow> nat \<Rightarrow> zc_outcome) \<Rightarrow> (nat \<Rightarrow> nat \<Rightarrow> send_outcome) \<Rightarrow>
    tcp_server \<times> sender \<Rightarrow> (tcp_server \<times> sender) option" where
  "send_step stack zc_env env sys = (case sys of (srv, t) \<Rightarrow> do {
     t1 \<leftarrow> sender_turn stack zc_env env (t\<lparr>sd_ring := ts_ring srv, sd_acked := []\<rparr>);
     srv1 \<leftarrow> ack_all (sd_acked t1) (srv\<lparr>ts_ring := sd_ring t1\<rparr>);
     Some (srv1, t1)
   })"

section \<open>What the ring holds\<close>

datatype ring_item = Batch u32 "response list" | Closing u32 nat

fun holds :: "u8 list \<Rightarrow> ring_item list \<Rightarrow> bool" where
  "holds bs [] \<longleftrightarrow> bs = []"
| "holds bs (Batch fd rs # its) \<longleftrightarrow> length rs < 2 ^ 32 \<and> (\<exists>junk rest. length junk = FRAME_LEN \<and>
     bs = frame_bytes junk (RSP_HEADER fd (of_nat (length rs))) @ frames_bytes rs @ rest \<and> holds rest its)"
| "holds bs (Closing fd cid # its) \<longleftrightarrow> cid < 2 ^ 64 \<and> (\<exists>junk rest. length junk = FRAME_LEN \<and>
     bs = frame_bytes junk (RSP_CLOSE fd (of_nat cid)) @ rest \<and> holds rest its)"

fun closings :: "ring_item list \<Rightarrow> nat list" where
  "closings [] = []"
| "closings (Batch fd rs # its) = closings its"
| "closings (Closing fd cid # its) = cid # closings its"

text \<open>The bytes the items will bring to a socket.\<close>

fun bytes_for :: "u32 \<Rightarrow> ring_item list \<Rightarrow> u8 list" where
  "bytes_for fd [] = []"
| "bytes_for fd (Batch f rs # its) = (if f = fd then frames_bytes rs else []) @ bytes_for fd its"
| "bytes_for fd (Closing f cid # its) = bytes_for fd its"

lemma closings_append [simp]: "closings (xs @ ys) = closings xs @ closings ys"
  by (induction xs rule: closings.induct) simp_all

lemma bytes_for_append [simp]: "bytes_for fd (xs @ ys) = bytes_for fd xs @ bytes_for fd ys"
  by (induction xs rule: closings.induct) simp_all

lemma holds_append: "holds bs xs \<Longrightarrow> holds cs ys \<Longrightarrow> holds (bs @ cs) (xs @ ys)"
proof (induction bs xs rule: holds.induct)
  case (2 bs fd rs its)
  then obtain junk rest where "length junk = FRAME_LEN" "length rs < 2 ^ 32"
    "bs = frame_bytes junk (RSP_HEADER fd (of_nat (length rs))) @ frames_bytes rs @ rest" "holds (rest @ cs) (its @ ys)" by auto
  then show ?case by auto
next
  case (3 bs fd cid its)
  then obtain junk rest where "length junk = FRAME_LEN" "cid < 2 ^ 64"
    "bs = frame_bytes junk (RSP_CLOSE fd (of_nat cid)) @ rest" "holds (rest @ cs) (its @ ys)" by auto
  then show ?case by auto
qed simp

lemma length_frames_bytes: "length (frames_bytes rs) = length rs * 48"
  using length_frame_bytes [of "replicate FRAME_LEN 0"] by (induction rs) (simp_all add: frames_bytes_def FRAME_LEN_def)

lemma holds_batch:
  assumes "length junk = FRAME_LEN" "length rs < 2 ^ 32"
  shows "holds (frame_bytes junk (RSP_HEADER fd (of_nat (length rs))) @ frames_bytes rs) [Batch fd rs]"
  using assms by auto

lemma holds_closing:
  assumes "length junk = FRAME_LEN" "cid < 2 ^ 64"
  shows "holds (frame_bytes junk (RSP_CLOSE fd (of_nat cid))) [Closing fd cid]"
  using assms by auto

section \<open>The send thread takes the front item\<close>

lemma sender_turn_close:
  assumes inv: "ring_inv (sd_ring s)" and junk: "length junk = FRAME_LEN" "length stack = FRAME_LEN"
    and c: "contents (sd_ring s) = frame_bytes junk (RSP_CLOSE fd ack) @ rest"
  shows "\<exists>s'. sender_turn stack zc_env env s = Some s' \<and> ring_inv (sd_ring s') \<and> contents (sd_ring s') = rest \<and>
    length (sr_buf (sd_ring s')) = length (sr_buf (sd_ring s)) \<and> sd_net s' = sd_net s \<and> sd_closed s' = sd_closed s @ [fd] \<and> sd_acked s' = sd_acked s @ [ack]"
proof -
  let ?h = "frame_bytes junk (RSP_CLOSE fd ack)"
  obtain r where r: "pop 48 (sd_ring s) = Some (?h, r)" "ring_inv r" "contents r = rest" "length (sr_buf r) = length (sr_buf (sd_ring s))"
    using pop_frame [OF inv junk(1) c] by blast
  have "?h \<noteq> []" by (simp add: frame_bytes_def Let_def)
  moreover have "length ?h = length stack" using length_frame_bytes [OF junk(1)] junk(2) by simp
  ultimately show ?thesis
    using r header_fields(4-6) [OF junk(1), of fd ack] by (simp add: sender_turn_def count_send_def Let_def)
qed

lemma sender_turn_idle:
  assumes inv: "ring_inv (sd_ring s)" and c: "contents (sd_ring s) = []"
  shows "\<exists>s'. sender_turn stack zc_env env s = Some s' \<and> ring_inv (sd_ring s') \<and> contents (sd_ring s') = [] \<and>
    length (sr_buf (sd_ring s')) = length (sr_buf (sd_ring s)) \<and> sd_net s' = sd_net s \<and> sd_closed s' = sd_closed s \<and> sd_acked s' = sd_acked s"
  using pop_contents [OF inv, of 48] c by (auto simp: sender_turn_def count_send_def Let_def)

text \<open>What a turn does to the items, the sockets and the flags.\<close>

fun front_acks :: "ring_item list \<Rightarrow> u64 list" where
  "front_acks (Closing fd cid # its) = [of_nat cid]"
| "front_acks its = []"

fun front_closed :: "ring_item list \<Rightarrow> u32 list" where
  "front_closed (Closing fd cid # its) = [fd]"
| "front_closed its = []"

lemma sender_turn_items:
  assumes env: "accepting env" "zc_accepting zc_env" and stack: "length stack = FRAME_LEN"
    and inv: "ring_inv (sd_ring s)" and items: "holds (contents (sd_ring s)) its"
  shows "\<exists>s'. sender_turn stack zc_env env s = Some s' \<and> ring_inv (sd_ring s') \<and> holds (contents (sd_ring s')) (tl its) \<and>
    length (sr_buf (sd_ring s')) = length (sr_buf (sd_ring s)) \<and>
    (\<forall>fd. sd_net s' fd @ bytes_for fd (tl its) = sd_net s fd @ bytes_for fd its) \<and>
    sd_closed s' = sd_closed s @ front_closed its \<and> sd_acked s' = sd_acked s @ front_acks its"
proof (cases its)
  case Nil
  then show ?thesis using sender_turn_idle [OF inv, of stack zc_env env] items by auto
next
  case (Cons it rest_items)
  show ?thesis
  proof (cases it)
    case (Batch fd rs)
    from items obtain junk rest where j: "length junk = FRAME_LEN" "length rs < 2 ^ 32" and
      c: "contents (sd_ring s) = frame_bytes junk (RSP_HEADER fd (of_nat (length rs))) @ frames_bytes rs @ rest"
      and h: "holds rest rest_items" by (auto simp: Cons Batch)
    have "length (frames_bytes rs) = unat (of_nat (length rs) :: u32) * 48"
      using j(2) by (simp add: length_frames_bytes unat_of_nat)
    from sender_turn_batch [OF env inv j(1) stack this c] h show ?thesis by (auto simp: Cons Batch)
  next
    case (Closing fd cid)
    from items obtain junk rest where j: "length junk = FRAME_LEN" and
      c: "contents (sd_ring s) = frame_bytes junk (RSP_CLOSE fd (of_nat cid)) @ rest" and h: "holds rest rest_items"
      by (auto simp: Cons Closing)
    from sender_turn_close [OF inv j stack c, of zc_env env] h show ?thesis by (auto simp: Cons Closing)
  qed
qed

section \<open>Responses reach the clients\<close>

text \<open>The server pushing a sequence of batches, the send thread taking \<open>n\<close> turns, a client reading frames.\<close>

fun push_batches :: "(nat \<Rightarrow> send_result) \<Rightarrow> u8 list \<Rightarrow> (int \<times> response list) list \<Rightarrow> tcp_server \<Rightarrow> tcp_server option" where
  "push_batches env junk [] s = Some s"
| "push_batches env junk ((fd, rs) # bs) s = do { s1 \<leftarrow> pushResponses env junk fd rs s; push_batches env junk bs s1 }"

fun send_turns :: "u8 list \<Rightarrow> (nat \<Rightarrow> nat \<Rightarrow> zc_outcome) \<Rightarrow> (nat \<Rightarrow> nat \<Rightarrow> send_outcome) \<Rightarrow> nat \<Rightarrow> sender \<Rightarrow> sender option" where
  "send_turns stack zc_env env 0 t = Some t"
| "send_turns stack zc_env env (Suc n) t = do { t1 \<leftarrow> sender_turn stack zc_env env t; send_turns stack zc_env env n t1 }"

function read_frames :: "u8 list \<Rightarrow> response list option" where
  "read_frames bs =
     (if bs = [] then Some []
      else do { r \<leftarrow> frame_read (take FRAME_LEN bs); rs \<leftarrow> read_frames (drop FRAME_LEN bs); Some (r # rs) })"
  by pat_completeness auto
termination by (relation "measure length") (auto simp: FRAME_LEN_def)

declare read_frames.simps [simp del]

lemma read_frames_bytes: "read_frames (frames_bytes rs) = Some rs"
proof (induction rs)
  case Nil
  then show ?case by (simp add: frames_bytes_def read_frames.simps)
next
  case (Cons r rs)
  let ?f = "frame_bytes (replicate FRAME_LEN 0) r"
  have l: "length ?f = FRAME_LEN" by (rule length_frame_bytes) simp
  have "frames_bytes (r # rs) = ?f @ frames_bytes rs" by (simp add: frames_bytes_def)
  moreover have "?f \<noteq> []" using l by (auto simp: FRAME_LEN_def)
  moreover have "frame_read ?f = Some r" by (rule frame_read_bytes) simp
  ultimately show ?case using Cons l by (subst read_frames.simps) simp
qed

lemma frames_bytes_append: "frames_bytes (xs @ ys) = frames_bytes xs @ frames_bytes ys"
  by (simp add: frames_bytes_def)

definition batch_size :: "response list \<Rightarrow> nat" where
  "batch_size rs = FRAME_LEN + length rs * FRAME_LEN"

lemma free_space_room: "ring_inv r \<Longrightarrow> unat (free_space r) = ring_room r"
  by (simp add: ring_room_def ring_inv_facts(6))

lemma room_used: "ring_inv r \<Longrightarrow> ring_room r + length (contents r) = length (sr_buf r)"
  using ring_inv_facts(7) [of r] by (simp add: ring_room_def length_contents)

lemma room_bound: "ring_inv r \<Longrightarrow> ring_room r < 2 ^ 64"
  using ring_inv_facts(2) [of r] by (simp add: ring_room_def)

lemma pushResponses_items:
  assumes inv: "ring_inv (ts_ring s)" and items: "holds (contents (ts_ring s)) its" and junk: "length junk = FRAME_LEN"
    and rs: "rs \<noteq> []" and size: "length rs < 2 ^ 32" and room: "batch_size rs \<le> ring_room (ts_ring s)"
  shows "\<exists>r. pushResponses env junk fd rs s = Some (notifySendThread (s\<lparr>ts_ring := r\<rparr>)) \<and> ring_inv r \<and>
    holds (contents r) (its @ [Batch (word_of_int fd) rs]) \<and> ring_room r = ring_room (ts_ring s) - batch_size rs \<and>
    length (sr_buf r) = length (sr_buf (ts_ring s))"
proof -
  let ?h = "frame_bytes junk (RSP_HEADER (word_of_int fd) (of_nat (length rs)))"
  have l: "length ?h = FRAME_LEN" "length (frames_bytes rs) = length rs * FRAME_LEN"
    using length_frame_bytes [OF junk] length_frames_bytes by (simp_all add: FRAME_LEN_def)
  note b = room_bound [OF inv]
  obtain r1 where r1: "push ?h (ts_ring s) = Some (of_nat (length ?h), r1)" "ring_inv r1"
      "contents r1 = contents (ts_ring s) @ ?h" "ring_room r1 = ring_room (ts_ring s) - length ?h"
    using ring_queue.put_all [OF inv, of ?h] l room b by (auto simp: batch_size_def)
  have fits: "length (frames_bytes rs) \<le> ring_room r1" unfolding l(2) r1(4) l(1) using room by (simp add: batch_size_def)
  obtain r2 where r2: "push (frames_bytes rs) r1 = Some (of_nat (length (frames_bytes rs)), r2)" "ring_inv r2"
      "contents r2 = contents r1 @ frames_bytes rs" "ring_room r2 = ring_room r1 - length (frames_bytes rs)"
    using ring_queue.put_all [OF r1(2) _ fits] fits room_bound [OF r1(2)] by auto
  have "holds (contents r2) (its @ [Batch (word_of_int fd) rs])"
    using holds_append [OF items holds_batch [OF junk size, of "word_of_int fd"]] r1(3) r2(3) by simp
  moreover have "ring_room r2 = ring_room (ts_ring s) - batch_size rs" using r1(4) r2(4) l by (simp add: batch_size_def)
  moreover have "pushResponses env junk fd rs s = Some (notifySendThread (s\<lparr>ts_ring := r2\<rparr>))"
    using rs room r1(1) r2(1) free_space_room [OF inv] by (simp add: pushResponses_def Let_def batch_size_def)
  moreover have "length (sr_buf r2) = length (sr_buf (ts_ring s))"
  proof -
    have "ring_room (ts_ring s) + length (contents (ts_ring s)) = ring_room r2 + length (contents r2)"
      using r1(3,4) r2(3,4) l room by (simp add: batch_size_def)
    then show ?thesis using room_used [OF inv] room_used [OF r2(2)] by simp
  qed
  ultimately show ?thesis using r2(2) by blast
qed

text \<open>The items a sequence of batches becomes, and the responses among them for a descriptor.\<close>

definition items_of :: "(int \<times> response list) list \<Rightarrow> ring_item list" where
  "items_of bs = map (\<lambda>(fd, rs). Batch (word_of_int fd) rs) bs"

definition responses_for :: "u32 \<Rightarrow> (int \<times> response list) list \<Rightarrow> response list" where
  "responses_for fd bs = concat (map snd (filter (\<lambda>(f, rs). word_of_int f = fd) bs))"

lemma bytes_for_items: "bytes_for fd (items_of bs) = frames_bytes (responses_for fd bs)"
proof (induction bs)
  case Nil
  then show ?case by (simp add: items_of_def responses_for_def frames_bytes_def)
next
  case (Cons b bs)
  then show ?case by (cases b) (simp add: items_of_def responses_for_def frames_bytes_append)
qed

lemma push_batches_items:
  assumes "length junk = FRAME_LEN" and "\<forall>(fd, rs) \<in> set bs. rs \<noteq> [] \<and> length rs < 2 ^ 32"
    and "ring_inv (ts_ring s)" and "holds (contents (ts_ring s)) its" and "sum_list (map (batch_size \<circ> snd) bs) \<le> ring_room (ts_ring s)"
  shows "\<exists>s'. push_batches env junk bs s = Some s' \<and> ring_inv (ts_ring s') \<and> holds (contents (ts_ring s')) (its @ items_of bs)"
  using assms(2-)
proof (induction bs arbitrary: s its)
  case Nil
  then show ?case by (simp add: items_of_def)
next
  case (Cons b bs)
  obtain fd rs where b: "b = (fd, rs)" by (cases b)
  obtain r where r: "pushResponses env junk fd rs s = Some (notifySendThread (s\<lparr>ts_ring := r\<rparr>))" "ring_inv r"
      "holds (contents r) (its @ [Batch (word_of_int fd) rs])" "ring_room r = ring_room (ts_ring s) - batch_size rs"
    using pushResponses_items [OF Cons.prems(2,3) assms(1), of rs env fd] Cons.prems(1,4) b by auto
  have "\<exists>s'. push_batches env junk bs (notifySendThread (s\<lparr>ts_ring := r\<rparr>)) = Some s' \<and> ring_inv (ts_ring s') \<and>
      holds (contents (ts_ring s')) ((its @ [Batch (word_of_int fd) rs]) @ items_of bs)"
    using r Cons.prems(1,4) b by (intro Cons.IH) (auto simp: notifySendThread_def)
  then show ?case using r(1) b by (simp add: items_of_def)
qed

lemma send_turns_items:
  assumes env: "accepting env" "zc_accepting zc_env" and stack: "length stack = FRAME_LEN"
    and "ring_inv (sd_ring t)" and "holds (contents (sd_ring t)) its"
  shows "\<exists>t'. send_turns stack zc_env env (length its) t = Some t' \<and> ring_inv (sd_ring t') \<and> contents (sd_ring t') = [] \<and>
    (\<forall>fd. sd_net t' fd = sd_net t fd @ bytes_for fd its)"
  using assms(4-)
proof (induction its arbitrary: t)
  case Nil
  then show ?case by simp
next
  case (Cons it its)
  from sender_turn_items [OF env stack Cons.prems] obtain t1 where t1: "sender_turn stack zc_env env t = Some t1"
      "ring_inv (sd_ring t1)" "holds (contents (sd_ring t1)) its"
      "\<forall>fd. sd_net t1 fd @ bytes_for fd its = sd_net t fd @ bytes_for fd (it # its)" by auto
  from Cons.IH [OF t1(2,3)] show ?case using t1(1,4) by auto
qed


text \<open>A server just constructed, with the pool the engine owns, and a send thread that has sent nothing.\<close>

definition fresh_server :: tcp_server where
  "fresh_server = new_TcpServer 3 (new_engine_owned 4 None) Map.empty (new_ring RING_SIZE) None None None"

definition fresh_sender :: sender where
  "fresh_sender = \<lparr>sd_ring = new_ring RING_SIZE, sd_zc_ok = True, sd_metrics = None, sd_heartbeat = None,
     sd_ring_status_head = None, sd_net = (\<lambda>_. []), sd_closed = [], sd_acked = []\<rparr>"

lemma fresh_ring: "ring_inv (new_ring RING_SIZE)" "contents (new_ring RING_SIZE) = []" "ring_room (new_ring RING_SIZE) = RING_SIZE"
  using new_ring_inv(1) [of 23] new_ring_inv(2)
  by (simp_all add: RING_SIZE_power) (simp add: ring_room_def new_ring_def used_def)

lemma fresh_server_ring [simp]: "ts_ring fresh_server = new_ring RING_SIZE"
  by (simp add: fresh_server_def new_TcpServer_def)

definition three_batches :: "(int \<times> response list) list" where
  "three_batches = [(7, [RSP_OK 1]), (8, [RSP_OK 2]), (7, [RSP_CANCELLED 3])]"

lemma three_batches: "responses_for 7 three_batches = [RSP_OK 1, RSP_CANCELLED 3]" "length three_batches = 3"
  by (simp_all add: responses_for_def three_batches_def)


end
