(* ===== verification/Connections.thy ===== *)
theory Connections
  imports System
begin

text \<open>
  The life of a connection across both threads: no receive buffer is lost or shared, no pointer to a
  connection object dangles, and the flag a close notice points to is still there when the send thread
  sets it.
\<close>

section \<open>Connections and receive buffers\<close>

text \<open>
  Every receive buffer is either free or belongs to exactly one connection object; \<open>n\<close> is the number the next
  object gets.
\<close>

definition buffers_ok :: "(nat \<rightharpoonup> conn_context) \<Rightarrow> u32 list \<Rightarrow> nat \<Rightarrow> bool" where
  "buffers_ok h fl n \<longleftrightarrow> finite (dom h) \<and> inj_on (\<lambda>cid. cc_buf_idx (the (h cid))) (dom h) \<and>
     (\<lambda>cid. cc_buf_idx (the (h cid))) ` dom h \<union> set fl = {..<MAX_BUFFERS} \<and>
     (\<lambda>cid. cc_buf_idx (the (h cid))) ` dom h \<inter> set fl = {} \<and> dom h \<subseteq> {..<n}"

lemma buffers_ok_update:
  assumes "buffers_ok h fl n" "h cid = Some c" "cc_buf_idx c' = cc_buf_idx c"
  shows "buffers_ok (h(cid \<mapsto> c')) fl n"
proof -
  have d: "dom (h(cid \<mapsto> c')) = dom h" using assms(2) by auto
  have f: "cc_buf_idx (the ((h(cid \<mapsto> c')) k)) = cc_buf_idx (the (h k))" for k using assms(2,3) by simp
  show ?thesis using assms(1) unfolding buffers_ok_def d f .
qed

lemma buffers_ok_insert:
  assumes ok: "buffers_ok h (x # fl) n" and d: "distinct (x # fl)" and c: "cc_buf_idx c = x"
  shows "buffers_ok (h(n \<mapsto> c)) fl (n + 1)"
proof -
  let ?b = "\<lambda>h cid. cc_buf_idx (the (h cid))"
  have n: "n \<notin> dom h" using ok by (auto simp: buffers_ok_def)
  then have im: "?b (h(n \<mapsto> c)) ` dom h = ?b h ` dom h" by (intro image_cong) auto
  have dom: "dom (h(n \<mapsto> c)) = insert n (dom h)" by simp
  have x: "x \<notin> ?b h ` dom h" using ok by (auto simp: buffers_ok_def)
  have inj: "inj_on (?b (h(n \<mapsto> c))) (dom h)"
    using ok inj_on_cong [of "dom h" "?b (h(n \<mapsto> c))" "?b h"] n by (fastforce simp: buffers_ok_def)
  have im2: "?b (h(n \<mapsto> c)) ` insert n (dom h) = insert x (?b h ` dom h)" using im c by simp
  have "inj_on (?b (h(n \<mapsto> c))) (insert n (dom h))" using inj im x c n by (simp add: inj_on_insert)
  then show ?thesis using ok x d unfolding buffers_ok_def dom im2 by auto
qed

lemma buffers_ok_delete:
  assumes ok: "buffers_ok h fl n" and c: "h cid = Some c"
  shows "buffers_ok (h(cid := None)) (cc_buf_idx c # fl) n" and "cc_buf_idx c < MAX_BUFFERS" and "cc_buf_idx c \<notin> set fl"
proof -
  let ?b = "\<lambda>h cid. cc_buf_idx (the (h cid))"
  have "cc_buf_idx c \<in> ?b h ` dom h" using c by force
  then show lt: "cc_buf_idx c < MAX_BUFFERS" and nf: "cc_buf_idx c \<notin> set fl" using ok by (auto simp: buffers_ok_def)
  have dom: "dom (h(cid := None)) = dom h - {cid}" by auto
  have im: "?b (h(cid := None)) ` (dom h - {cid}) = ?b h ` dom h - {cc_buf_idx c}"
  proof -
    have "?b (h(cid := None)) ` (dom h - {cid}) = ?b h ` (dom h - {cid})" by (intro image_cong) auto
    also have "\<dots> = ?b h ` dom h - ?b h ` {cid}" using ok c by (intro inj_on_image_set_diff) (auto simp: buffers_ok_def)
    finally show ?thesis using c by simp
  qed
  have "inj_on (?b (h(cid := None))) (dom h - {cid})"
    using ok inj_on_diff [of "?b h" "dom h" "{cid}"] inj_on_cong [of "dom h - {cid}" "?b (h(cid := None))" "?b h"]
    by (fastforce simp: buffers_ok_def)
  then show "buffers_ok (h(cid := None)) (cc_buf_idx c # fl) n"
    using ok lt nf unfolding buffers_ok_def dom im by auto
qed

section \<open>The invariant\<close>

text \<open>The descriptors and the list of pending closes refer to live objects.\<close>

definition refs_ok :: "(nat \<rightharpoonup> conn_context) \<Rightarrow> (int \<rightharpoonup> nat) \<Rightarrow> nat list \<Rightarrow> bool" where
  "refs_ok h conns pending \<longleftrightarrow>
     (\<forall>fd cid. conns fd = Some cid \<longrightarrow> (\<exists>c. h cid = Some c \<and> cc_fd c = fd)) \<and> distinct pending \<and>
     (\<forall>cid. cid \<in> set pending \<longleftrightarrow> (\<exists>c. h cid = Some c \<and> cc_closing c)) \<and>
     (\<forall>cid c. h cid = Some c \<longrightarrow> conn_ok c \<and> cc_consumed c = 0 \<and> (cc_close_acked c \<longrightarrow> cc_closing c))"

definition unacked :: "(nat \<rightharpoonup> conn_context) \<Rightarrow> nat \<Rightarrow> bool" where
  "unacked h cid \<longleftrightarrow> (\<exists>c. h cid = Some c \<and> cc_closing c \<and> \<not> cc_close_acked c)"

text \<open>The ring holds one close notice for each connection that is closing and not acknowledged.\<close>

definition queue_holds :: "spsc_ring \<Rightarrow> (nat \<rightharpoonup> conn_context) \<Rightarrow> ring_item list \<Rightarrow> bool" where
  "queue_holds r h its \<longleftrightarrow> ring_inv r \<and> length (sr_buf r) = RING_SIZE \<and> holds (contents r) its \<and> distinct (closings its) \<and>
     (\<forall>cid. cid \<in> set (closings its) \<longleftrightarrow> unacked h cid)"

definition queue_ok :: "spsc_ring \<Rightarrow> (nat \<rightharpoonup> conn_context) \<Rightarrow> bool" where
  "queue_ok r h \<longleftrightarrow> (\<exists>its. queue_holds r h its)"

definition server_ok :: "tcp_server \<Rightarrow> bool" where
  "server_ok s \<longleftrightarrow> (\<exists>fl. buffers_free (ts_poller s) fl \<and> buffers_ok (ts_heap s) fl (ts_next s)) \<and>
     refs_ok (ts_heap s) (ts_conns s) (ts_pending s) \<and> queue_ok (ts_ring s) (ts_heap s) \<and> ts_next s \<le> 2 ^ 64"

lemma refs_okI:
  assumes "\<And>fd cid. conns fd = Some cid \<Longrightarrow> \<exists>c. h cid = Some c \<and> cc_fd c = fd" and "distinct pending"
    and "\<And>cid. cid \<in> set pending \<longleftrightarrow> (\<exists>c. h cid = Some c \<and> cc_closing c)"
    and "\<And>cid c. h cid = Some c \<Longrightarrow> conn_ok c \<and> cc_consumed c = 0 \<and> (cc_close_acked c \<longrightarrow> cc_closing c)"
  shows "refs_ok h conns pending"
  using assms by (simp add: refs_ok_def)

lemma refs_okD:
  assumes "refs_ok h conns pending"
  shows "conns fd = Some cid \<Longrightarrow> \<exists>c. h cid = Some c \<and> cc_fd c = fd" and "distinct pending"
    and "cid \<in> set pending \<longleftrightarrow> (\<exists>c. h cid = Some c \<and> cc_closing c)"
    and "h cid = Some c \<Longrightarrow> conn_ok c \<and> cc_consumed c = 0 \<and> (cc_close_acked c \<longrightarrow> cc_closing c)"
  using assms by (simp_all add: refs_ok_def)

lemma queue_ok_same: "queue_ok r h \<Longrightarrow> (\<And>cid. unacked h' cid \<longleftrightarrow> unacked h cid) \<Longrightarrow> queue_ok r h'"
  by (simp add: queue_ok_def queue_holds_def)

lemma queue_okI:
  assumes "ring_inv r" "length (sr_buf r) = RING_SIZE" "holds (contents r) its" "distinct (closings its)"
    and "\<And>cid. cid \<in> set (closings its) \<longleftrightarrow> unacked h cid"
  shows "queue_holds r h its" "queue_ok r h"
  using assms by (auto simp: queue_ok_def queue_holds_def)

lemma queue_okE:
  assumes "server_ok s"
  obtains its where "ring_inv (ts_ring s)" "length (sr_buf (ts_ring s)) = RING_SIZE" "holds (contents (ts_ring s)) its"
    "distinct (closings its)" "\<And>cid. cid \<in> set (closings its) \<longleftrightarrow> unacked (ts_heap s) cid"
  using assms by (auto simp: server_ok_def queue_ok_def queue_holds_def)

lemma buffers_free_submit [simp]:
  "buffers_free (snd (submit e p)) fl = buffers_free p fl" "buffers_free (p\<lparr>sq := q\<rparr>) fl = buffers_free p fl"
  by (simp_all add: submit_def buffers_free_def)

lemma buffers_free_submits [simp]:
  "buffers_free (snd (submit_recv fd idx p)) fl = buffers_free p fl"
  "buffers_free (snd (submit_accept fd p)) fl = buffers_free p fl"
  "buffers_free (snd (submit_and_wait_timeout fd p)) fl = buffers_free p fl"
  by (simp_all add: submit_recv_def submit_accept_def submit_and_wait_timeout_def submit_and_wait_def)

text \<open>An object that changes nothing the other parts look at.\<close>

definition same_role :: "conn_context \<Rightarrow> conn_context \<Rightarrow> bool" where
  "same_role c c' \<longleftrightarrow> cc_fd c' = cc_fd c \<and> cc_buf_idx c' = cc_buf_idx c \<and> cc_closing c' = cc_closing c \<and>
     cc_close_acked c' = cc_close_acked c"

lemma server_ok_update:
  assumes ok: "server_ok s" and c: "ts_heap s cid = Some c" and role: "same_role c c'" and c': "conn_ok c'" "cc_consumed c' = 0"
  shows "server_ok (s\<lparr>ts_heap := (ts_heap s)(cid \<mapsto> c')\<rparr>)"
proof -
  have "unacked ((ts_heap s)(cid \<mapsto> c')) k \<longleftrightarrow> unacked (ts_heap s) k" for k
    using c role by (auto simp: unacked_def same_role_def)
  then have "queue_ok (ts_ring s) ((ts_heap s)(cid \<mapsto> c'))" using ok queue_ok_same by (auto simp: server_ok_def)
  moreover
  have refs: "refs_ok (ts_heap s) (ts_conns s) (ts_pending s)" using ok by (simp add: server_ok_def)
  have "refs_ok ((ts_heap s)(cid \<mapsto> c')) (ts_conns s) (ts_pending s)"
  proof (rule refs_okI)
    show "\<exists>ca. ((ts_heap s)(cid \<mapsto> c')) k = Some ca \<and> cc_fd ca = fd" if "ts_conns s fd = Some k" for fd k
      using refs_okD(1) [OF refs that] c role by (auto simp: same_role_def)
  qed (use refs_okD(2-4) [OF refs] c role c' in \<open>auto simp: same_role_def split: if_splits\<close>)
  ultimately show ?thesis using ok buffers_ok_update [where h = "ts_heap s" and cid = cid, OF _ c, of _ _ c'] role
    by (auto simp: server_ok_def same_role_def)
qed

section \<open>Accepting\<close>

lemma alloc_buffer_free:
  assumes "buffers_free p fl"
  shows "\<exists>p'. alloc_buffer p = Some (if fl = [] then UINT32_MAX else hd fl, p') \<and> buffers_free p' (tl fl)"
proof (cases fl)
  case Nil
  then have "buffers_free p []" using assms by simp
  from buffer_stack.alloc_Nil [OF this] Nil show ?thesis by (auto simp: alloc_buffer_opt_def split: if_splits)
next
  case (Cons x xs)
  then have "buffers_free p (x # xs)" using assms by simp
  from buffer_stack.alloc_Cons [OF this] Cons show ?thesis by (auto simp: alloc_buffer_opt_def split: if_splits)
qed

lemma free_not_max: "buffers_free p fl \<Longrightarrow> x \<in> set fl \<Longrightarrow> x \<noteq> UINT32_MAX"
  by (auto simp: buffers_free_def MAX_BUFFERS_def word_less_nat_alt)

lemma onAccept_ok:
  assumes ok: "server_ok s" and n: "ts_next s < 2 ^ 64"
  shows "\<exists>s'. onAccept fd s = Some s' \<and> server_ok s'"
proof -
  obtain fl where fl: "buffers_free (ts_poller s) fl" "buffers_ok (ts_heap s) fl (ts_next s)" using ok by (auto simp: server_ok_def)
  obtain p where p: "alloc_buffer (ts_poller s) = Some (if fl = [] then UINT32_MAX else hd fl, p)" "buffers_free p (tl fl)"
    using alloc_buffer_free [OF fl(1)] by blast
  show ?thesis
  proof (cases fl)
    case Nil
    then show ?thesis using ok p fl(2) by (auto simp: onAccept_def server_ok_def)
  next
    case (Cons x xs)
    let ?c = "\<lparr>cc_fd = fd, cc_buf_idx = x, cc_pending = 0, cc_consumed = 0, cc_accum = [], cc_closing = False, cc_close_acked = False\<rparr>"
    have x: "x \<noteq> UINT32_MAX" "distinct (x # xs)" using free_not_max [OF fl(1)] buffer_stack.free_distinct [OF fl(1)] Cons by auto
    have new: "ts_heap s (ts_next s) = None" using fl(2) by (auto simp: buffers_ok_def)
    have "unacked ((ts_heap s)(ts_next s \<mapsto> ?c)) k \<longleftrightarrow> unacked (ts_heap s) k" for k using new by (simp add: unacked_def)
    then have q: "queue_ok (ts_ring s) ((ts_heap s)(ts_next s \<mapsto> ?c))" using ok queue_ok_same by (auto simp: server_ok_def)
    have refs: "refs_ok (ts_heap s) (ts_conns s) (ts_pending s)" using ok by (simp add: server_ok_def)
    have r: "refs_ok ((ts_heap s)(ts_next s \<mapsto> ?c)) ((ts_conns s)(fd \<mapsto> ts_next s)) (ts_pending s)"
    proof (rule refs_okI)
      show "\<exists>c. ((ts_heap s)(ts_next s \<mapsto> ?c)) k = Some c \<and> cc_fd c = f" if "((ts_conns s)(fd \<mapsto> ts_next s)) f = Some k" for f k
        using that refs_okD(1) [OF refs, of f k] new by (auto split: if_splits)
    qed (use refs_okD(2-4) [OF refs] new in \<open>auto simp: conn_ok_def split: if_splits\<close>)
    have b: "buffers_ok ((ts_heap s)(ts_next s \<mapsto> ?c)) xs (ts_next s + 1)"
      using buffers_ok_insert [of "ts_heap s" x xs "ts_next s" ?c] fl(2) x(2) Cons by simp
    show ?thesis using p x Cons q r b n by (auto simp: onAccept_def server_ok_def Let_def)
  qed
qed

lemma accept_callback_ok:
  assumes "server_ok s" "ts_next s < 2 ^ 64"
  shows "\<exists>s'. accept_callback fd s = Some s' \<and> server_ok s'"
  using onAccept_ok [OF assms, of fd] by (auto simp: accept_callback_def server_ok_def)

section \<open>Closing\<close>

lemma push_retry_first:
  assumes "ring_inv r" "length frame = FRAME_LEN" "FRAME_LEN \<le> ring_room r"
  shows "\<exists>r'. push_retry env frame 0 r = Some (0, r') \<and> ring_inv r' \<and> contents r' = contents r @ frame \<and>
    length (sr_buf r') = length (sr_buf r)"
proof -
  obtain r' where r': "push frame r = Some (of_nat (length frame), r')" "ring_inv r'" "contents r' = contents r @ frame"
      "ring_room r' = ring_room r - length frame"
    using ring_queue.put_all [OF assms(1), of frame] assms by (auto simp: FRAME_LEN_def)
  have "length (sr_buf r') = length (sr_buf r)"
    using room_used [OF assms(1)] room_used [OF r'(2)] r'(3,4) assms(2,3) by simp
  then show ?thesis using r' assms(2) by (subst push_retry.simps) (simp add: FRAME_LEN_def)
qed

lemma closeConnection_ok:
  assumes ok: "server_ok s" and c: "ts_heap s cid = Some c" "\<not> cc_closing c" and junk: "length junk = FRAME_LEN"
    and room: "FRAME_LEN \<le> ring_room (ts_ring s)"
  shows "\<exists>s'. closeConnection env junk cid s = Some s' \<and> server_ok s'"
proof -
  let ?c = "c\<lparr>cc_closing := True, cc_close_acked := False\<rparr>" and ?f = "close_frame junk (cc_fd c) cid"
  let ?h = "(ts_heap s)(cid \<mapsto> ?c)"
  obtain fl where fl: "buffers_free (ts_poller s) fl" "buffers_ok (ts_heap s) fl (ts_next s)" using ok by (auto simp: server_ok_def)
  have refs: "refs_ok (ts_heap s) (ts_conns s) (ts_pending s)" using ok by (simp add: server_ok_def)
  obtain its where inv: "ring_inv (ts_ring s)" "length (sr_buf (ts_ring s)) = RING_SIZE" and its: "holds (contents (ts_ring s)) its"
      "distinct (closings its)" "\<And>k. k \<in> set (closings its) \<longleftrightarrow> unacked (ts_heap s) k"
    using queue_okE [OF ok] by metis
  have "length ?f = FRAME_LEN" unfolding close_frame_def by (rule length_frame_bytes [OF junk])
  then obtain r where r: "push_retry env ?f 0 (ts_ring s) = Some (0, r)" "ring_inv r" "contents r = contents (ts_ring s) @ ?f"
      "length (sr_buf r) = length (sr_buf (ts_ring s))"
    using push_retry_first [OF inv(1) _ room] by blast
  have "cid < 2 ^ 64" using c(1) fl(2) ok by (force simp: buffers_ok_def server_ok_def)
  then have "holds (contents r) (its @ [Closing (word_of_int (cc_fd c)) cid])" (is "holds _ ?its")
    unfolding r(3) close_frame_def by (intro holds_append [OF its(1)] holds_closing [OF junk])
  moreover have u: "unacked ?h k \<longleftrightarrow> k = cid \<or> unacked (ts_heap s) k" for k using c by (auto simp: unacked_def)
  moreover have "cid \<notin> set (closings its)" using its(3) c by (simp add: unacked_def)
  ultimately have "queue_ok r ?h"
    using r(2,4) inv(2) its(2,3) by (intro queue_okI(2) [of r ?its]) auto
  moreover have "refs_ok ?h (ts_conns s) (ts_pending s @ [cid])"
  proof (rule refs_okI)
    show "\<exists>ca. ?h k = Some ca \<and> cc_fd ca = fd" if "ts_conns s fd = Some k" for fd k using refs_okD(1) [OF refs that] c by auto
    show "distinct (ts_pending s @ [cid])" using refs_okD(2) [OF refs] refs_okD(3) [OF refs, of cid] c by auto
  qed (use refs_okD(3,4) [OF refs] c in \<open>auto simp: conn_ok_def split: if_splits\<close>)
  moreover have "buffers_ok ?h fl (ts_next s)" using buffers_ok_update [OF fl(2) c(1)] by simp
  ultimately show ?thesis
    using c(1) r(1) fl(1) ok by (auto simp: closeConnection_def Let_def server_ok_def notifySendThread_def)
qed

lemma reclaim_ok:
  assumes ok: "server_ok (s\<lparr>ts_pending := pre @ cid # cids\<rparr>)" and c: "ts_heap s cid = Some c" "cc_close_acked c"
  shows "\<exists>s'. reclaim cid c s = Some s' \<and> server_ok (s'\<lparr>ts_pending := pre @ cids\<rparr>)"
proof -
  let ?h = "(ts_heap s)(cid := None)"
  obtain fl where fl: "buffers_free (ts_poller s) fl" "buffers_ok (ts_heap s) fl (ts_next s)" using ok by (auto simp: server_ok_def)
  have refs: "refs_ok (ts_heap s) (ts_conns s) (pre @ cid # cids)" using ok by (simp add: server_ok_def)
  note b = buffers_ok_delete [OF fl(2) c(1)]
  obtain p where p: "free_buffer (cc_buf_idx c) (ts_poller s) = Some p" "buffers_free p (cc_buf_idx c # fl)"
    using buffer_stack.release_ok [OF fl(1) b(2,3)] by blast
  have "unacked ?h k \<longleftrightarrow> unacked (ts_heap s) k" for k using c by (auto simp: unacked_def)
  then have "queue_ok (ts_ring s) ?h" using ok queue_ok_same by (auto simp: server_ok_def)
  moreover have "refs_ok ?h ((ts_conns s)(cc_fd c := None)) (pre @ cids)"
  proof (rule refs_okI)
    show "\<exists>ca. ?h k = Some ca \<and> cc_fd ca = fd" if "((ts_conns s)(cc_fd c := None)) fd = Some k" for fd k
      using that refs_okD(1) [OF refs, of fd k] c by (auto split: if_splits)
    show "k \<in> set (pre @ cids) \<longleftrightarrow> (\<exists>ca. ?h k = Some ca \<and> cc_closing ca)" for k
      using refs_okD(2) [OF refs] refs_okD(3) [OF refs, of k] by (cases "k = cid") auto
  qed (use refs_okD(2,4) [OF refs] in \<open>auto split: if_splits\<close>)
  ultimately show ?thesis using p b(1) ok by (auto simp: reclaim_def server_ok_def)
qed

lemma drain_pending_ok:
  "server_ok (s\<lparr>ts_pending := pre @ cids\<rparr>) \<Longrightarrow>
     \<exists>kept s'. drain_pending cids s = Some (kept, s') \<and> server_ok (s'\<lparr>ts_pending := pre @ kept\<rparr>)"
proof (induction cids arbitrary: s pre)
  case (Cons cid cids)
  have "refs_ok (ts_heap s) (ts_conns s) (pre @ cid # cids)" using Cons.prems by (simp add: server_ok_def)
  then obtain c where c: "ts_heap s cid = Some c" using refs_okD(3) by fastforce
  show ?case
  proof (cases "cc_close_acked c")
    case True
    from reclaim_ok [OF Cons.prems c True] obtain s1 where "reclaim cid c s = Some s1" "server_ok (s1\<lparr>ts_pending := pre @ cids\<rparr>)" by blast
    then show ?thesis using Cons.IH c True by simp
  next
    case False
    have "server_ok (s\<lparr>ts_pending := (pre @ [cid]) @ cids\<rparr>)" using Cons.prems by simp
    from Cons.IH [OF this] c False show ?thesis by auto
  qed
qed simp

lemma drainPendingClose_ok:
  assumes "server_ok s"
  shows "\<exists>s'. drainPendingClose s = Some s' \<and> server_ok s'"
  using drain_pending_ok [where s = s and pre = "[]" and cids = "ts_pending s"] assms by (auto simp: drainPendingClose_def)

section \<open>Receiving\<close>

lemma pushResponses_ok:
  assumes ok: "server_ok s" and junk: "length junk = FRAME_LEN"
  shows "\<exists>s'. pushResponses env junk fd rs s = Some s' \<and> server_ok s'"
proof (cases "rs \<noteq> [] \<and> batch_size rs \<le> ring_room (ts_ring s)")
  case True
  obtain its where inv: "ring_inv (ts_ring s)" "length (sr_buf (ts_ring s)) = RING_SIZE" and its: "holds (contents (ts_ring s)) its"
      "distinct (closings its)" "\<And>k. k \<in> set (closings its) \<longleftrightarrow> unacked (ts_heap s) k"
    using queue_okE [OF ok] by metis
  have "batch_size rs \<le> RING_SIZE" using True inv(2) by (simp add: ring_room_def) linarith
  then have "length rs < 2 ^ 32" by (simp add: batch_size_def FRAME_LEN_def RING_SIZE_def)
  from pushResponses_items [OF inv(1) its(1) junk _ this] True obtain r where
    r: "pushResponses env junk fd rs s = Some (notifySendThread (s\<lparr>ts_ring := r\<rparr>))" "ring_inv r"
      "holds (contents r) (its @ [Batch (word_of_int fd) rs])" "length (sr_buf r) = length (sr_buf (ts_ring s))" by blast
  have "queue_ok r (ts_heap s)"
    using r(2,4) inv(2) its(2,3) by (intro queue_okI(2) [OF _ _ r(3)]) auto
  then show ?thesis using r(1) ok by (auto simp: server_ok_def notifySendThread_def)
next
  case False
  have "ring_inv (ts_ring s)" using queue_okE [OF ok] by metis
  then show ?thesis
    using False ok free_space_room by (auto simp: pushResponses_def Let_def batch_size_def server_ok_def)
qed

lemma server_ok_other [simp]:
  "server_ok (count_io f s) = server_ok s" "server_ok (rearm fd idx s) = server_ok s"
  "server_ok (s\<lparr>ts_engine := e\<rparr>) = server_ok s" "server_ok (s\<lparr>ts_parser := st\<rparr>) = server_ok s"
  by (simp_all add: server_ok_def count_io_def rearm_def)

lemma drain_conn_ok:
  assumes ok: "server_ok s" and c: "ts_heap s cid = Some c" and d: "drain_conn env cid (append_read bs c) s = Some (out, s')"
  shows "server_ok s'" "ts_ring s' = ts_ring s"
proof -
  have c': "conn_ok c" "cc_consumed c = 0" using refs_okD(4) [of "ts_heap s", OF _ c] ok by (auto simp: server_ok_def)
  let ?c = "append_read bs c"
  have a: "conn_ok ?c" "cc_consumed ?c = 0" "same_role c ?c" using c' by (simp_all add: append_read_def conn_ok_def same_role_def Let_def)
  obtain c1 e st where dr: "drainBuffered (processItchMessage (env_event env)) ?c ([], ts_engine s, ts_parser s) = Some (c1, out, e, st)"
    and s': "s' = s\<lparr>ts_engine := e, ts_parser := st, ts_heap := (ts_heap s)(cid \<mapsto> c1)\<rparr>"
    using d by (auto simp: drain_conn_def bind_eq_Some_conv)
  have "c1 = keep_rest (snd (frames (cc_accum ?c))) ?c" using dr unfolding drainBuffered_frames [OF a(1,2)] by auto
  then have k: "conn_ok c1" "cc_consumed c1 = 0" "same_role c c1" using a(3) by (simp_all add: keep_rest_def conn_ok_def same_role_def)
  show "server_ok s'" "ts_ring s' = ts_ring s"
    using server_ok_update [OF ok c k(3,1,2)] unfolding s' by (simp_all add: server_ok_def)
qed

lemma onRecv_ok:
  assumes ok: "server_ok s" and c: "ts_heap s cid = Some c" "\<not> cc_closing c" and junk: "length (env_junk env) = FRAME_LEN"
    and room: "n \<le> 0 \<Longrightarrow> FRAME_LEN \<le> ring_room (ts_ring s)" and r: "onRecv env data cid n s = Some s'"
  shows "server_ok s'"
proof (cases "n \<le> 0")
  case True
  then show ?thesis using closeConnection_ok [OF ok c junk room, of "env_ring env"] r by (auto simp: onRecv_def)
next
  case False
  then obtain bs out s1 where d: "drain_conn env cid (append_read bs c) s = Some (out, s1)"
    and p: "(if out \<noteq> [] then pushResponses (env_send env) (env_junk env) (cc_fd c) out s1 else Some s1) = Some s'"
    using r c(1) by (auto simp: onRecv_def bind_eq_Some_conv)
  note ok1 = drain_conn_ok(1) [OF ok c(1) d]
  then show ?thesis using p pushResponses_ok [OF ok1 junk, of "env_send env" "cc_fd c" out] by (auto split: if_splits)
qed

lemma recv_callback_ok:
  assumes ok: "server_ok s" and junk: "length (env_junk env) = FRAME_LEN"
    and room: "n \<le> 0 \<Longrightarrow> FRAME_LEN \<le> ring_room (ts_ring s)" and r: "recv_callback env bufs fd n s = Some s'"
  shows "server_ok s'"
proof (cases "ts_conns s fd")
  case None
  then show ?thesis using r ok by (simp add: recv_callback_def)
next
  case (Some cid)
  have "refs_ok (ts_heap s) (ts_conns s) (ts_pending s)" using ok by (simp add: server_ok_def)
  from refs_okD(1) [OF this Some] obtain c where c: "ts_heap s cid = Some c" by blast
  define s1 where "s1 = count_io (\<lambda>m. m\<lparr>recv_frames := recv_frames m + 1\<rparr>) s"
  define s2 where "s2 = (if n < 0 \<and> n \<noteq> - ECONNRESET \<and> n \<noteq> - EPIPE then count_io (\<lambda>m. m\<lparr>errors := errors m + 1\<rparr>) s1 else s1)"
  have s2: "server_ok s1" "server_ok s2" "ts_heap s2 cid = Some c" "ts_ring s2 = ts_ring s"
    using ok c by (simp_all add: s1_def s2_def) (simp_all add: count_io_def)
  consider "cc_closing c" | "\<not> cc_closing c" "n = - EAGAIN" | "\<not> cc_closing c" "n \<noteq> - EAGAIN" by blast
  then show ?thesis
  proof cases
    case 3
    then obtain s3 where s3: "onRecv env (bufs (cc_buf_idx c)) cid n s2 = Some s3"
      and s': "s' = s3 \<or> (\<exists>idx. s' = rearm fd idx s3)"
      using r Some c unfolding recv_callback_def s2_def [symmetric] s1_def [symmetric] Let_def
      by (auto simp: bind_eq_Some_conv s1_def [symmetric] s2_def [symmetric] split: option.splits if_splits)
    have "server_ok s3" using onRecv_ok [OF s2(2,3) 3(1) junk _ s3] room s2(4) by simp
    then show ?thesis using s' by auto
  qed (use r Some c ok s2(1) in \<open>auto simp: recv_callback_def s1_def Let_def\<close>)
qed

section \<open>Sending\<close>

lemma send_step_items:
  assumes env: "accepting env" "zc_accepting zc_env" and stack: "length stack = FRAME_LEN" and ok: "server_ok s"
    and items: "queue_holds (ts_ring s) (ts_heap s) its"
  shows "\<exists>s' t'. send_step stack zc_env env (s, t) = Some (s', t') \<and> server_ok s' \<and>
    queue_holds (ts_ring s') (ts_heap s') (tl its) \<and> ts_pending s' = ts_pending s"
proof -
  have inv: "ring_inv (ts_ring s)" "length (sr_buf (ts_ring s)) = RING_SIZE" and its: "holds (contents (ts_ring s)) its"
      "distinct (closings its)" "\<And>k. k \<in> set (closings its) \<longleftrightarrow> unacked (ts_heap s) k"
    using items by (simp_all add: queue_holds_def)
  let ?t = "t\<lparr>sd_ring := ts_ring s, sd_acked := []\<rparr>"
  obtain t' where t': "sender_turn stack zc_env env ?t = Some t'" "ring_inv (sd_ring t')" "holds (contents (sd_ring t')) (tl its)"
      "length (sr_buf (sd_ring t')) = length (sr_buf (ts_ring s))" "sd_acked t' = front_acks its"
    using sender_turn_items [OF env stack, of ?t its] inv(1) its(1) by auto
  let ?r = "sd_ring t'"
  show ?thesis
  proof (cases "\<exists>fd cid rest. its = Closing fd cid # rest")
    case False
    then have f: "front_acks its = []" "closings (tl its) = closings its"
      by (cases its rule: closings.cases; simp)+
    have q: "queue_holds ?r (ts_heap s) (tl its)"
      using t'(2,4) inv(2) its(2,3) f(2) by (intro queue_okI(1) [OF _ _ t'(3)]) auto
    then have "server_ok (s\<lparr>ts_ring := ?r\<rparr>)" using ok by (auto simp: server_ok_def queue_ok_def)
    then show ?thesis using t'(1,5) f(1) q by (simp add: send_step_def)
  next
    case True
    then obtain fd cid rest where i: "its = Closing fd cid # rest" by blast
    then have u: "unat (of_nat cid :: u64) = cid" using its(1) by (simp add: unat_of_nat)
    obtain c where c: "ts_heap s cid = Some c" "cc_closing c" "\<not> cc_close_acked c"
      using its(3) [of cid] i by (auto simp: unacked_def)
    let ?c = "c\<lparr>cc_close_acked := True\<rparr>"
    let ?h = "(ts_heap s)(cid \<mapsto> ?c)"
    have "unacked ?h k \<longleftrightarrow> unacked (ts_heap s) k \<and> k \<noteq> cid" for k using c by (auto simp: unacked_def)
    then have q: "queue_holds ?r ?h (tl its)"
      using t'(2,4) inv(2) its(2) its(3) [symmetric] i by (intro queue_okI(1) [OF _ _ t'(3)]) auto
    have refs: "refs_ok (ts_heap s) (ts_conns s) (ts_pending s)" using ok by (simp add: server_ok_def)
    moreover have "refs_ok ?h (ts_conns s) (ts_pending s)"
    proof (rule refs_okI)
      show "\<exists>ca. ?h k = Some ca \<and> cc_fd ca = f" if "ts_conns s f = Some k" for f k using refs_okD(1) [OF refs that] c by auto
    qed (use refs_okD(2-4) [OF refs] c in \<open>auto simp: conn_ok_def split: if_splits\<close>)
    moreover obtain fl where "buffers_free (ts_poller s) fl" "buffers_ok ?h fl (ts_next s)"
      using ok buffers_ok_update [of "ts_heap s" _ _ cid c ?c] c(1) by (auto simp: server_ok_def)
    ultimately have "server_ok (s\<lparr>ts_ring := ?r, ts_heap := ?h\<rparr>)" using ok q by (auto simp: server_ok_def queue_ok_def)
    then show ?thesis using t'(1,5) i c(1) u q by (simp add: send_step_def)
  qed
qed

lemma send_step_ok:
  assumes "accepting env" "zc_accepting zc_env" and "length stack = FRAME_LEN" and "server_ok s"
  shows "\<exists>s' t'. send_step stack zc_env env (s, t) = Some (s', t') \<and> server_ok s'"
proof -
  obtain its where "queue_holds (ts_ring s) (ts_heap s) its" using assms(4) by (auto simp: server_ok_def queue_ok_def)
  from send_step_items [OF assms this] show ?thesis by blast
qed

section \<open>Runs of both threads\<close>

text \<open>
  The steps: the start of a turn of the event loop, one accepted connection, one completed receive, the end of the
  turn, and one turn of the send thread.  A receive that ends a connection is taken while the ring has room for
  the close notice; without it the notice would be cut off.
\<close>

inductive system_step :: "tcp_server \<times> sender \<Rightarrow> tcp_server \<times> sender \<Rightarrow> bool" where
  begin_turn: "system_step (s, t) (start_tick s, t)"
| accept: "ts_next s < 2 ^ 64 \<Longrightarrow> accept_callback fd s = Some s' \<Longrightarrow> system_step (s, t) (s', t)"
| recv: "length (env_junk env) = FRAME_LEN \<Longrightarrow> (n \<le> 0 \<longrightarrow> FRAME_LEN \<le> ring_room (ts_ring s)) \<Longrightarrow>
    recv_callback env bufs fd n s = Some s' \<Longrightarrow> system_step (s, t) (s', t)"
| drain: "drainPendingClose s = Some s' \<Longrightarrow> system_step (s, t) (s', t)"
| report: "system_step (s, t) (logSummary s, t)"
| send: "accepting env \<Longrightarrow> zc_accepting zc_env \<Longrightarrow> length stack = FRAME_LEN \<Longrightarrow>
    send_step stack zc_env env (s, t) = Some (s', t') \<Longrightarrow> system_step (s, t) (s', t')"

lemma server_ok_turns [simp]: "server_ok (start_tick s) = server_ok s" "server_ok (logSummary s) = server_ok s"
  by (auto simp: start_tick_def logSummary_def watch_sender_def server_ok_def Let_def count_io_def split: option.splits)

lemma system_step_ok: "system_step st st' \<Longrightarrow> server_ok (fst st) \<Longrightarrow> server_ok (fst st')"
proof (induction rule: system_step.induct)
  case (accept s fd s' t)
  then show ?case using accept_callback_ok [of s fd] by auto
next
  case (recv env n s bufs fd s' t)
  then show ?case using recv_callback_ok [of s env n bufs fd s'] by auto
next
  case (drain s s' t)
  then show ?case using drainPendingClose_ok [of s] by auto
next
  case (send env zc_env stack s t s' t')
  then show ?case using send_step_ok [of env zc_env stack s t] by auto
qed simp_all

lemma system_reachable_ok: "system_step\<^sup>*\<^sup>* st st' \<Longrightarrow> server_ok (fst st) \<Longrightarrow> server_ok (fst st')"
  by (induction rule: rtranclp_induct) (auto dest: system_step_ok)

lemma all_buffers: "set (map of_nat [0..<64] :: u32 list) = {..<MAX_BUFFERS}" "card {..<MAX_BUFFERS} = 64"
proof -
  show eq: "set (map of_nat [0..<64] :: u32 list) = {..<MAX_BUFFERS}"
  proof (rule set_eqI)
    fix x :: u32
    show "x \<in> set (map of_nat [0..<64]) \<longleftrightarrow> x \<in> {..<MAX_BUFFERS}"
      by (auto simp: word_less_nat_alt unat_of_nat image_iff intro!: bexI [of _ "unat x"])
  qed
  have "distinct (map of_nat [0..<64] :: u32 list)" by (rule buffer_stack.free_distinct [OF new_poller_free])
  from distinct_card [OF this] show "card {..<MAX_BUFFERS} = 64" unfolding eq by simp
qed

lemma new_server_ok: "server_ok (new_TcpServer fd e parser (new_ring RING_SIZE) rs io sh)"
proof -
  have b: "buffers_ok Map.empty (map of_nat [0..<64]) 0" using all_buffers(1) by (simp add: buffers_ok_def)
  have "queue_ok (new_ring RING_SIZE) Map.empty"
    using fresh_ring by (intro queue_okI(2) [of _ "[]"]) (auto simp: unacked_def new_ring_def)
  then show ?thesis using new_poller_free b by (auto simp: server_ok_def new_TcpServer_def refs_ok_def)
qed

lemma server_ok_buffers:
  assumes "server_ok s"
  shows "\<exists>fl. buffers_free (ts_poller s) fl \<and> length fl + card (dom (ts_heap s)) = 64 \<and>
    (\<forall>cid c. ts_heap s cid = Some c \<longrightarrow> cc_buf_idx c \<notin> set fl)"
    and "ts_heap s a = Some c \<Longrightarrow> ts_heap s b = Some d \<Longrightarrow> cc_buf_idx c = cc_buf_idx d \<Longrightarrow> a = b"
proof -
  let ?b = "\<lambda>cid. cc_buf_idx (the (ts_heap s cid))"
  obtain fl where fl: "buffers_free (ts_poller s) fl" and b: "buffers_ok (ts_heap s) fl (ts_next s)"
    using assms by (auto simp: server_ok_def)
  have "card (?b ` dom (ts_heap s) \<union> set fl) = card (dom (ts_heap s)) + length fl"
    using b distinct_card [OF buffer_stack.free_distinct [OF fl]]
    by (subst card_Un_disjoint) (auto simp: buffers_ok_def card_image)
  then have "length fl + card (dom (ts_heap s)) = 64" using b all_buffers(2) by (simp add: buffers_ok_def)
  moreover have "cc_buf_idx c \<notin> set fl" if "ts_heap s cid = Some c" for cid c
    using buffers_ok_delete(3) [OF b that] .
  ultimately show "\<exists>fl. buffers_free (ts_poller s) fl \<and> length fl + card (dom (ts_heap s)) = 64 \<and>
    (\<forall>cid c. ts_heap s cid = Some c \<longrightarrow> cc_buf_idx c \<notin> set fl)" using fl by blast
  assume "ts_heap s a = Some c" "ts_heap s b = Some d" "cc_buf_idx c = cc_buf_idx d"
  moreover have "inj_on ?b (dom (ts_heap s))" using b by (simp add: buffers_ok_def)
  ultimately show "a = b" using inj_onD [of ?b "dom (ts_heap s)" a b] by auto
qed

text \<open>Enough turns of the send thread acknowledge every close, and then the server lets go of every closing connection.\<close>

fun send_steps :: "u8 list \<Rightarrow> (nat \<Rightarrow> nat \<Rightarrow> zc_outcome) \<Rightarrow> (nat \<Rightarrow> nat \<Rightarrow> send_outcome) \<Rightarrow> nat \<Rightarrow>
    tcp_server \<times> sender \<Rightarrow> (tcp_server \<times> sender) option" where
  "send_steps stack zc_env env 0 st = Some st"
| "send_steps stack zc_env env (Suc n) st = do { st1 \<leftarrow> send_step stack zc_env env st; send_steps stack zc_env env n st1 }"

lemma send_steps_items:
  assumes "accepting env" "zc_accepting zc_env" and "length stack = FRAME_LEN" and "server_ok s"
    and "queue_holds (ts_ring s) (ts_heap s) its"
  shows "\<exists>s' t'. send_steps stack zc_env env (length its) (s, t) = Some (s', t') \<and> server_ok s' \<and>
    queue_holds (ts_ring s') (ts_heap s') []"
  using assms(4-)
proof (induction its arbitrary: s t)
  case (Cons it its)
  from send_step_items [OF assms(1-3) Cons.prems, of t] obtain s1 t1 where
    "send_step stack zc_env env (s, t) = Some (s1, t1)" "server_ok s1" "queue_holds (ts_ring s1) (ts_heap s1) its" by auto
  then show ?case using Cons.IH by simp
qed simp

lemma drain_pending_all:
  "server_ok (s\<lparr>ts_pending := cids\<rparr>) \<Longrightarrow> (\<And>cid c. cid \<in> set cids \<Longrightarrow> ts_heap s cid = Some c \<Longrightarrow> cc_close_acked c) \<Longrightarrow>
     \<exists>s'. drain_pending cids s = Some ([], s')"
proof (induction cids arbitrary: s)
  case (Cons cid cids)
  have refs: "refs_ok (ts_heap s) (ts_conns s) (cid # cids)" using Cons.prems(1) by (simp add: server_ok_def)
  then obtain c where c: "ts_heap s cid = Some c" using refs_okD(3) by fastforce
  then have a: "cc_close_acked c" using Cons.prems(2) [of cid c] by simp
  from reclaim_ok [where pre = "[]" and cids = cids, OF _ c a] Cons.prems(1) obtain s1 where
    s1: "reclaim cid c s = Some s1" "server_ok (s1\<lparr>ts_pending := cids\<rparr>)" by auto
  then have "ts_heap s1 = (ts_heap s)(cid := None)" by (auto simp: reclaim_def bind_eq_Some_conv)
  then have "cc_close_acked d" if "k \<in> set cids" "ts_heap s1 k = Some d" for k d
    using that Cons.prems(2) [of k d] by (auto split: if_splits)
  from Cons.IH [OF s1(2) this] show ?case using c a s1(1) by simp
qed simp

lemma closes_finish:
  assumes "accepting env" "zc_accepting zc_env" and "length stack = FRAME_LEN" and "server_ok s"
  shows "\<exists>n s' t' s''. send_steps stack zc_env env n (s, t) = Some (s', t') \<and> contents (ts_ring s') = [] \<and>
    drainPendingClose s' = Some s'' \<and> ts_pending s'' = [] \<and> (\<forall>cid c. ts_heap s'' cid = Some c \<longrightarrow> \<not> cc_closing c)"
proof -
  obtain its where "queue_holds (ts_ring s) (ts_heap s) its" using assms(4) by (auto simp: server_ok_def queue_ok_def)
  from send_steps_items [OF assms this] obtain s' t' where s': "send_steps stack zc_env env (length its) (s, t) = Some (s', t')"
    "server_ok s'" "queue_holds (ts_ring s') (ts_heap s') []" by blast
  have refs: "refs_ok (ts_heap s') (ts_conns s') (ts_pending s')" using s'(2) by (simp add: server_ok_def)
  have "cc_close_acked c" if "cid \<in> set (ts_pending s')" "ts_heap s' cid = Some c" for cid c
    using that s'(3) refs_okD(3) [OF refs, of cid] by (auto simp: queue_holds_def unacked_def)
  then obtain s1 where s1: "drain_pending (ts_pending s') s' = Some ([], s1)"
    using drain_pending_all [where s = s' and cids = "ts_pending s'"] s'(2) by auto
  have d: "drainPendingClose s' = Some (s1\<lparr>ts_pending := []\<rparr>)" using s1 by (simp add: drainPendingClose_def)
  then have "server_ok (s1\<lparr>ts_pending := []\<rparr>)" using drainPendingClose_ok [OF s'(2)] by auto
  then have "refs_ok (ts_heap s1) (ts_conns s1) []" by (simp add: server_ok_def)
  then have "\<not> cc_closing c" if "ts_heap s1 cid = Some c" for cid c using that refs_okD(3) by fastforce
  then show ?thesis using s'(1,3) d by (fastforce simp: queue_holds_def)
qed

section \<open>Properties\<close>


lemma step_accept:
  "accept_callback fd s = Some s' \<Longrightarrow> ts_next s < 2 ^ 64 \<Longrightarrow> system_step\<^sup>*\<^sup>* (s, t) (s', t)"
  using system_step.accept by blast




section \<open>A descriptor that comes back too early\<close>

text \<open>
  The send thread closes a descriptor before the server forgets it.  When the kernel hands the same number
  to the next connection in between, the pass over the pending closes erases the new connection from the
  table: its object and buffer stay allocated, and what the client sends is ignored.
\<close>

definition quiet_env :: io_env where
  "quiet_env = \<lparr>env_send = (\<lambda>_. Again), env_ring = (\<lambda>_ r. r), env_junk = replicate 48 0,
     env_event = \<lparr>ev_type = BOOK, ev_locate = 0, ev_order_ref = 0, ev_new_order_ref = 0, ev_side = BUY, ev_price = 0, ev_shares = 0,
       ev_user_id = 0\<rparr>\<rparr>"

definition quiet_sender :: sender where
  "quiet_sender = \<lparr>sd_ring = new_ring 1, sd_zc_ok = False, sd_metrics = None, sd_heartbeat = None,
     sd_ring_status_head = None, sd_net = (\<lambda>_. []), sd_closed = [], sd_acked = []\<rparr>"

definition reuse_run :: "tcp_server option" where
  "reuse_run = do {
     let s0 = new_TcpServer 3 (new_engine_owned 1 None) Map.empty (new_ring 256) None None None;
     s1 \<leftarrow> accept_callback 7 s0;
     s2 \<leftarrow> recv_callback quiet_env (\<lambda>_. []) 7 0 s1;
     (s3, t3) \<leftarrow> send_step (replicate 48 0) (\<lambda>k n. ZcSent n) (\<lambda>k n. KSent n) (s2, quiet_sender);
     s4 \<leftarrow> accept_callback 7 s3;
     drainPendingClose s4
   }"

definition lost_connection :: "tcp_server option \<Rightarrow> bool" where
  "lost_connection r \<longleftrightarrow> (case r of None \<Rightarrow> False | Some s \<Rightarrow>
     ts_conns s 7 = None \<and> ts_pending s = [] \<and> (case ts_heap s 1 of None \<Rightarrow> False | Some c \<Rightarrow> cc_fd c = 7 \<and> \<not> cc_closing c))"

theorem reused_descriptor_is_lost: "lost_connection reuse_run"
  by code_simp

end
