(* ===== verification/Market_Feed.thy ===== *)
theory Market_Feed
  imports Tcp_Server Matching_Theorems
begin

text \<open>
  From bytes on a connection to the priority queues: framing, parsing and dispatch of
  \<^verbatim>\<open>src/tcp_server.cpp\<close> and \<^verbatim>\<open>src/itch_parser.cpp\<close> composed with the refinement of the request handlers.
\<close>

section \<open>What a message asks for\<close>

text \<open>The answer to a book query.\<close>

definition spec_book :: "u64 \<Rightarrow> (side \<Rightarrow> order list) \<Rightarrow> response" where
  "spec_book l Q = RSP_BOOK l (best_price (Q BUY)) (best_volume (Q BUY)) (best_price (Q SELL)) (best_volume (Q SELL))"

definition spec_event :: "nat \<Rightarrow> u64 \<Rightarrow> itch_event \<Rightarrow> (side \<Rightarrow> order list) \<Rightarrow> response list \<times> (side \<Rightarrow> order list)" where
  "spec_event free seq ev Q =
     (let l = ucast (ev_locate ev); ref = ev_order_ref ev in
      case ev_type ev of
        ADD \<Rightarrow> spec_add free l ref (ev_side ev) (ev_price ev) (ev_shares ev) ref DAY seq Q
      | DELETE \<Rightarrow> spec_cancel l ref ref Q
      | CANCEL \<Rightarrow> spec_cancel_shares l ref (ev_shares ev) ref Q
      | REPLACE \<Rightarrow> (case find_ref ref Q of
            None \<Rightarrow> ([RSP_ERROR ORDER_NOT_FOUND], Q)
          | Some r \<Rightarrow> spec_replace free l ref (ev_new_order_ref ev) (side_of r) (ev_price ev) (ev_shares ev) ref seq Q)
      | BOOK \<Rightarrow> ([spec_book l Q], Q))"

text \<open>What the feed guarantees of a message: references of new orders are new, and an order is named with its book.\<close>

definition event_ok :: "engine \<Rightarrow> itch_event \<Rightarrow> bool" where
  "event_ok e ev =
     (let l = ucast (ev_locate ev); ref = ev_order_ref ev in
      case ev_type ev of
        ADD \<Rightarrow> map_abs (shared_index e) ref = None \<and> map_room (shared_index e) ref
      | DELETE \<Rightarrow> routed e l ref
      | CANCEL \<Rightarrow> routed e l ref
      | REPLACE \<Rightarrow> routed e l ref \<and> (ev_new_order_ref ev = ref \<or> map_abs (shared_index e) (ev_new_order_ref ev) = None) \<and>
          map_room (shared_index e) (ev_new_order_ref ev)
      | BOOK \<Rightarrow> True)"

section \<open>Dispatch\<close>

lemma locate_in_range: "ucast (l :: u16) < kMaxLocate"
  using unsigned_less [of l, where 'a = nat]
  by (simp add: kMaxLocate_def word_less_nat_alt unsigned_ucast_eq take_bit_eq_mod)

lemma evolves_ok: "evolves e fl l Q True e' \<Longrightarrow> all_indexed e fl \<Longrightarrow> engine_ok e' \<and> engine_view e' = (engine_view e)(l := Q)"
  by (auto simp: evolves_def engine_ok_def)

lemma getBook_refines:
  assumes "engine_rep e R fl" and "l < kMaxLocate"
  shows "fst (getBook l e) = spec_book l (engine_view e l)" and "book_at k (snd (getBook l e)) = book_at k e"
proof -
  have v: "engine_view e l s = queue_of s (book_at l e)" if "s \<noteq> INVALID" for s using that by (simp add: engine_view_def book_view_def)
  have "spec_book l (engine_view e l) = RSP_BOOK l 0 0 0 0" if "books e l = None"
    using that by (simp add: spec_book_def v best_price_def best_volume_def queue_of_def levels_of_def book_at_def new_OrderBook_shared_def)
  then show "fst (getBook l e) = spec_book l (engine_view e l)"
    using assms(2) getTopOfBook_rep [OF engine_repD [OF assms(1), of l]] v
    by (auto simp: getBook_def Let_def spec_book_def split: option.split)
  show "book_at k (snd (getBook l e)) = book_at k e"
    by (auto simp: getBook_def Let_def engine_simps split: option.split)
qed

lemma found_side:
  assumes "engine_rep e R fl" and "x \<in> set (own (R l))"
  shows "side_of (ob_storage (book_at l e) ! unat x) \<noteq> INVALID"
proof -
  obtain s where s: "s \<noteq> INVALID" "x \<in> set (concat (R l s))" using own_cases [OF assms(2)] .
  then show ?thesis using side_rep_bound(2) [OF book_rep_side [OF engine_repD [OF assms(1)]], of s x] by simp
qed

lemma dispatch_replace:
  assumes rep: "engine_rep e R fl" and idx: "all_indexed e fl" and type: "ev_type ev = REPLACE" and ok: "event_ok e ev"
    and spec: "spec_event (length fl) (next_sequence e) ev (engine_view e (ucast (ev_locate ev))) = (rs, Q)"
  shows "\<exists>e'. dispatch_event ev out e = Some (out @ rs, e') \<and> evolves e fl (ucast (ev_locate ev)) Q True e'"
proof -
  let ?l = "ucast (ev_locate ev) :: u64" and ?ref = "ev_order_ref ev"
  let ?e = "touch ?l e"
  have at: "book_at k ?e = book_at k e" for k by (simp add: engine_simps)
  have rep': "engine_rep ?e R fl" and idx': "all_indexed ?e fl" and view: "engine_view ?e = engine_view e"
    using rep idx engine_rep_cong [of ?e e] all_indexed_cong [of ?e e] engine_view_cong [of ?e e] at by auto
  have bf: "book_for ?l e = (Some (book_at ?l e), ?e)" using locate_in_range [of "ev_locate ev"] by (simp add: book_for_eq)
  have rt: "routed e ?l ?ref" using ok type by (simp add: event_ok_def Let_def)
  show ?thesis
  proof (cases "map_abs (shared_index e) ?ref")
    case None
    then have "find_ref ?ref (engine_view e ?l) = None" using lookup_missing [OF rep idx] by blast
    then have "rs = [RSP_ERROR ORDER_NOT_FOUND]" "Q = engine_view e ?l" using spec type by (auto simp: spec_event_def Let_def)
    then show ?thesis using None type bf find_index [OF rep] evolves_same [OF rep, of ?e] at
      by (auto simp: dispatch_event_def findOrder_def Let_def)
  next
    case (Some x)
    note found = lookup_found [OF rep idx rt Some]
    let ?o = "ob_storage (book_at ?l e) ! unat x"
    have x: "pool_at (ob_pool (book_at ?l e)) x = Some ?o"
      using found(1) own_bound(1) [OF engine_repD [OF rep, of ?l]] by (simp add: pool_at_def arr_get_def)
    have "spec_replace (length fl) ?l ?ref (ev_new_order_ref ev) (side_of ?o) (ev_price ev) (ev_shares ev) ?ref (next_sequence ?e)
        (engine_view ?e ?l) = (rs, Q)"
      using spec type found(3) view by (simp add: spec_event_def Let_def engine_simps)
    from processReplace_refines [OF rep' idx' _ found_side [OF rep found(1)] _ this, of out] obtain e' where
      "processReplace ?l ?ref (ev_new_order_ref ev) (side_of ?o) (ev_price ev) (ev_shares ev) ?ref out ?e = Some (out @ rs, e')"
      and ev: "evolves ?e fl ?l Q (map_room (shared_index ?e) (ev_new_order_ref ev)) e'"
      using ok type rt view by (auto simp: event_ok_def Let_def engine_simps routed_def)
    moreover have "evolves e fl ?l Q True e'" using ev ok type view idx' by (auto simp: evolves_def event_ok_def Let_def engine_simps)
    ultimately show ?thesis using type bf find_index [OF rep] Some x by (auto simp: dispatch_event_def findOrder_def Let_def)
  qed
qed

lemma dispatch_refines:
  assumes ok: "engine_ok e" and ev: "event_ok e ev"
    and spec: "spec_event (free_slots e) (next_sequence e) ev (engine_view e (ucast (ev_locate ev))) = (rs, Q)"
  shows "\<exists>e'. dispatch_event ev out e = Some (out @ rs, e') \<and> engine_ok e' \<and>
    engine_view e' = (engine_view e)(ucast (ev_locate ev) := Q)"
proof -
  let ?l = "ucast (ev_locate ev) :: u64"
  obtain R fl where rep: "engine_rep e R fl" and idx: "all_indexed e fl" using ok by (auto simp: engine_ok_def)
  note spec' = spec [unfolded engine_free_slots [OF rep]]
  have "\<exists>e'. dispatch_event ev out e = Some (out @ rs, e') \<and> evolves e fl ?l Q True e'"
  proof (cases "ev_type ev")
    case ADD
    then show ?thesis using processAdd_refines [OF rep, of "ev_order_ref ev" ?l "ev_side ev" "ev_price ev" "ev_shares ev" "ev_order_ref ev" DAY rs Q out]
      ev spec'
      by (simp add: event_ok_def Let_def spec_event_def dispatch_event_def Let_def)
  next
    case DELETE
    then show ?thesis using processCancel_refines [OF rep idx, of ?l "ev_order_ref ev" "ev_order_ref ev" rs Q out] ev spec'
      by (simp add: event_ok_def Let_def spec_event_def dispatch_event_def Let_def)
  next
    case CANCEL
    then show ?thesis using processCancelShares_refines [OF rep idx, of ?l "ev_order_ref ev" "ev_shares ev" "ev_order_ref ev" rs Q out] ev spec'
      by (simp add: event_ok_def Let_def spec_event_def dispatch_event_def Let_def)
  next
    case REPLACE
    then show ?thesis using dispatch_replace [OF rep idx _ ev spec'] by simp
  next
    case BOOK
    then show ?thesis
      using getBook_refines [OF rep locate_in_range [of "ev_locate ev"]] evolves_same [OF rep, of "snd (getBook ?l e)" Q ?l] spec'
      by (auto simp: spec_event_def Let_def dispatch_event_def split: prod.split)
  qed
  then show ?thesis using evolves_ok [OF _ idx] by blast
qed

section \<open>Parsing\<close>

text \<open>The uninitialised part of the event object never reaches the engine.\<close>

lemma dispatch_delivered: "dispatch_event (delivered old ev) out e = dispatch_event ev out e"
  by (cases "ev_type ev") (simp_all add: dispatch_event_def Let_def split: prod.split option.split)

definition sendable :: "itch_event \<Rightarrow> bool" where
  "sendable ev \<longleftrightarrow> unat (ev_price ev) < 42949673 \<and> (ev_type ev = ADD \<longrightarrow> ev_side ev \<noteq> INVALID)"

lemma parse_wire:
  assumes "length hdr = 8" "length stock = 8" "sendable ev"
  shows "feed (wire hdr stock rest ev) old st = Some (True, delivered old ev, st)"
  using assms
  by (cases "ev_type ev"; cases "ev_side ev")
     (simp_all add: sendable_def feed_def buf_simps feed_add_def feed_delete_def feed_cancel_def feed_replace_def feed_book_def
        cents_round_trip)

lemma processItchMessage_wire:
  assumes "length hdr = 8" "length stock = 8" "sendable ev"
  shows "processItchMessage ev0 (wire hdr stock rest ev) (out, e, st) =
    map_option (\<lambda>(out', e'). (out', e', st)) (dispatch_event ev out e)"
  by (cases "dispatch_event ev out e")
     (auto simp: processItchMessage_def parse_wire [OF assms] dispatch_delivered simp del: wire.simps delivered.simps)

section \<open>Sessions\<close>

text \<open>The events of a session one after the other, and their wire form.\<close>

fun dispatch_all :: "itch_event list \<Rightarrow> response list \<times> engine \<Rightarrow> (response list \<times> engine) option" where
  "dispatch_all [] oe = Some oe"
| "dispatch_all (ev # evs) (out, e) = do { oe \<leftarrow> dispatch_event ev out e; dispatch_all evs oe }"

definition wires :: "u8 list \<Rightarrow> u8 list \<Rightarrow> itch_event list \<Rightarrow> u8 list list" where
  "wires hdr stock evs = map (wire hdr stock []) evs"

lemma length_wire:
  "length hdr = 8 \<Longrightarrow> length stock = 8 \<Longrightarrow> 1 \<le> length (wire hdr stock [] ev) \<and> length (wire hdr stock [] ev) \<le> MAX_BODY"
  by (cases "ev_type ev") (simp_all add: MAX_BODY_def)

lemma handle_wires:
  assumes "length hdr = 8" "length stock = 8" and "\<forall>ev \<in> set evs. sendable ev"
  shows "handle_all (processItchMessage ev0) (wires hdr stock evs) (out, e, st) =
    map_option (\<lambda>(out', e'). (out', e', st)) (dispatch_all evs (out, e))"
  using assms(3)
proof (induction evs arbitrary: out e)
  case (Cons ev evs)
  then have "processItchMessage ev0 (wire hdr stock [] ev) (out, e, st) =
      map_option (\<lambda>(out', e'). (out', e', st)) (dispatch_event ev out e)"
    using processItchMessage_wire [OF assms(1,2)] by simp
  with Cons show ?case by (cases "dispatch_event ev out e") (auto simp: wires_def simp del: wire.simps)
qed (simp add: wires_def)

text \<open>Every event of the session is one the feed may send when it arrives.\<close>

fun events_ok :: "itch_event list \<Rightarrow> response list \<times> engine \<Rightarrow> bool" where
  "events_ok [] oe \<longleftrightarrow> True"
| "events_ok (ev # evs) (out, e) \<longleftrightarrow> event_ok e ev \<and> (case dispatch_event ev out e of None \<Rightarrow> True | Some oe \<Rightarrow> events_ok evs oe)"

text \<open>The answers the specification gives to the events, each on the queues its predecessors left.\<close>

fun spec_answers :: "itch_event list \<Rightarrow> response list \<times> engine \<Rightarrow> response list" where
  "spec_answers [] oe = []"
| "spec_answers (ev # evs) (out, e) =
     fst (spec_event (free_slots e) (next_sequence e) ev (engine_view e (ucast (ev_locate ev)))) @
     (case dispatch_event ev out e of None \<Rightarrow> [] | Some oe \<Rightarrow> spec_answers evs oe)"

lemma dispatch_all_refines:
  assumes "engine_ok e" and "events_ok evs (out, e)"
  shows "\<exists>e'. dispatch_all evs (out, e) = Some (out @ spec_answers evs (out, e), e') \<and> engine_ok e'"
  using assms
proof (induction evs arbitrary: e out)
  case (Cons ev evs)
  obtain rs Q where sp: "spec_event (free_slots e) (next_sequence e) ev (engine_view e (ucast (ev_locate ev))) = (rs, Q)" by fastforce
  have ev: "event_ok e ev" using Cons.prems(2) by simp
  obtain e1 where e1: "dispatch_event ev out e = Some (out @ rs, e1)" "engine_ok e1"
    using dispatch_refines [OF Cons.prems(1) ev sp, of out] by auto
  moreover have "events_ok evs (out @ rs, e1)" using Cons.prems(2) e1(1) by simp
  ultimately show ?case using Cons.IH [of e1 "out @ rs"] sp by auto
qed simp

lemma chunks_messages:
  assumes "\<forall>m \<in> set ms. 1 \<le> length m \<and> length m \<le> MAX_BODY" and "concat chunks = concat (map framed ms)"
  shows "recv_chunks handle chunks (keep_rest [] c) s = map_option (\<lambda>s'. (keep_rest [] c, s')) (handle_all handle ms s)"
  using recv_chunks_frames [of "[]" handle chunks c s] frames_stream [OF assms(1)] assms(2) by (simp add: frames_short)

section \<open>Properties\<close>

text \<open>
  C32: an ITCH message does to the queues what it asks for.  On a well-formed engine, a message in wire format that the
  feed may send is answered exactly as its specification on the priority queues of its book says, for adding,
  deleting, reducing, replacing and the book query; the responses are appended, all other books are unchanged, the
  engine stays well formed, the parser's table is untouched, and the stale event object plays no role.
\<close>

theorem itch_message_refines:
  assumes "engine_ok e" and "event_ok e ev" and "sendable ev" and "length hdr = 8" "length stock = 8"
    and "spec_event (free_slots e) (next_sequence e) ev (engine_view e (ucast (ev_locate ev))) = (rs, Q)"
  shows "\<exists>e'. processItchMessage ev0 (wire hdr stock rest ev) (out, e, st) = Some (out @ rs, e', st) \<and> engine_ok e' \<and>
    engine_view e' = (engine_view e)(ucast (ev_locate ev) := Q)"
  using dispatch_refines [OF assms(1,2,6), of out] processItchMessage_wire [OF assms(4,5,3), of ev0 rest out e st] by auto

definition sell_six :: itch_event where
  "sell_six = \<lparr>ev_type = ADD, ev_locate = 1, ev_order_ref = 14, ev_new_order_ref = 0, ev_side = SELL,
     ev_price = 90, ev_shares = 6, ev_user_id = 0\<rparr>"

theorem itch_message_refines_witness:
  "\<exists>e'. processItchMessage sample_event (wire (replicate 8 0) (replicate 8 32) [] sell_six) ([], demo3, Map.empty) =
      Some ([RSP_TRADE 1 11 SIDE_BUY 100 5, RSP_TRADE 1 12 SIDE_BUY 100 1, RSP_FILLED 14], e', Map.empty) \<and> engine_ok e'"
proof -
  let ?S = "spec_event (free_slots demo3) (next_sequence demo3) sell_six (engine_view demo3 (ucast (ev_locate sell_six)))"
  have ev: "event_ok demo3 sell_six" "sendable sell_six" using demo3 by (simp_all add: event_ok_def sendable_def sell_six_def Let_def)
  have rs: "fst ?S = [RSP_TRADE 1 11 SIDE_BUY 100 5, RSP_TRADE 1 12 SIDE_BUY 100 1, RSP_FILLED 14]"
    by (simp add: spec_event_def sell_six_def demo3 demo_simps spec_add_def spec_accept_def engine_view_def book_view_def add_limit_def)
  have "?S = (fst ?S, snd ?S)" "length (replicate 8 (x :: u8)) = 8" for x by simp_all
  from itch_message_refines [OF demo_ok(3) ev this(2) this(2) this(1), of sample_event 0 32 "[]" "[]" Map.empty] show ?thesis
    unfolding rs by (auto simp del: wire.simps)
qed

text \<open>
  C33: a session on a TCP stream.  However the bytes of a sequence of framed messages are cut into received chunks, the
  connection answers with exactly the responses of the specification, in order, no fault occurs, nothing is left in
  the buffer and the engine is well formed at the end.
\<close>

theorem session_any_chunks:
  assumes "engine_ok e" and "events_ok evs ([], e)" and "\<forall>ev \<in> set evs. sendable ev" and "length hdr = 8" "length stock = 8"
    and "concat chunks = concat (map framed (wires hdr stock evs))"
  shows "\<exists>e'. recv_chunks (processItchMessage ev0) chunks (keep_rest [] c) ([], e, st) =
      Some (keep_rest [] c, spec_answers evs ([], e), e', st) \<and> engine_ok e'"
proof -
  have "\<forall>m \<in> set (wires hdr stock evs). 1 \<le> length m \<and> length m \<le> MAX_BODY"
    using length_wire [OF assms(4,5)] by (simp add: wires_def del: wire.simps)
  from chunks_messages [OF this assms(6), of "processItchMessage ev0" c "([], e, st)"]
  show ?thesis
    using handle_wires [OF assms(4,5,3), of ev0 "[]" e st] dispatch_all_refines [OF assms(1,2)] by auto
qed

definition ask_book :: itch_event where
  "ask_book = \<lparr>ev_type = BOOK, ev_locate = 1, ev_order_ref = 0, ev_new_order_ref = 0, ev_side = INVALID,
     ev_price = 0, ev_shares = 0, ev_user_id = 0\<rparr>"

theorem session_any_chunks_witness:
  "\<exists>e'. recv_chunks (processItchMessage sample_event) [[0], [3, 81], [0, 1]] (keep_rest [] idle_conn) ([], demo3, Map.empty) =
      Some (keep_rest [] idle_conn, [RSP_BOOK 1 100 9 120 7], e', Map.empty) \<and> engine_ok e'"
proof -
  have ev: "events_ok [ask_book] ([], demo3)" "\<forall>ev \<in> set [ask_book]. sendable ev"
    by (simp_all add: event_ok_def sendable_def ask_book_def split: option.split)
  have bytes: "concat [[0], [3, 81], [0, 1 :: u8]] = concat (map framed (wires (replicate 8 0) (replicate 8 32) [ask_book]))"
    by (simp add: wires_def ask_book_def framed_def be16_def)
  have rs: "spec_answers [ask_book] ([], demo3) = [RSP_BOOK 1 100 9 120 7]"
    by (simp add: spec_event_def ask_book_def spec_book_def demo3 engine_view_def book_view_def best_price_def best_volume_def
        split: option.split)
  have "length (replicate 8 (x :: u8)) = 8" for x by simp
  from session_any_chunks [OF demo_ok(3) ev this this bytes, of sample_event idle_conn Map.empty] show ?thesis unfolding rs .
qed

end
