(* ===== verification/Ouch_Protocol.thy ===== *)
theory Ouch_Protocol
  imports Bytes
begin

text \<open>
  \<^verbatim>\<open>include/ouch_protocol.h\<close> and \<^verbatim>\<open>src/ouch_protocol.cpp\<close>: the fixed-length messages of the trading
  connection.  An encoder gets the caller's buffer and returns the number of bytes and the buffer
  written; a write outside the buffer would give \<open>None\<close>.  A decoder returns its flag and the output
  parameter.
\<close>

definition kOuchMsgOrder :: u8 where "kOuchMsgOrder = 79"
definition kOuchMsgCancelReq :: u8 where "kOuchMsgCancelReq = 88"
definition kOuchMsgBookReq :: u8 where "kOuchMsgBookReq = 81"
definition kOuchMsgAck :: u8 where "kOuchMsgAck = 65"
definition kOuchMsgExec :: u8 where "kOuchMsgExec = 69"
definition kOuchMsgCancel :: u8 where "kOuchMsgCancel = 67"
definition kOuchMsgReject :: u8 where "kOuchMsgReject = 74"
definition kOuchMsgBook :: u8 where "kOuchMsgBook = 66"

definition kOuchOrderMsgLen :: nat where "kOuchOrderMsgLen = 49"
definition kOuchCancelReqLen :: nat where "kOuchCancelReqLen = 19"
definition kOuchBookReqLen :: nat where "kOuchBookReqLen = 13"
definition kOuchAckMsgLen :: nat where "kOuchAckMsgLen = 39"
definition kOuchExecMsgLen :: nat where "kOuchExecMsgLen = 42"
definition kOuchCancelMsgLen :: nat where "kOuchCancelMsgLen = 39"
definition kOuchRejectMsgLen :: nat where "kOuchRejectMsgLen = 36"
definition kOuchBookMsgLen :: nat where "kOuchBookMsgLen = 34"

lemmas ouch_consts =
  kOuchMsgOrder_def kOuchMsgCancelReq_def kOuchMsgBookReq_def kOuchMsgAck_def kOuchMsgExec_def kOuchMsgCancel_def
  kOuchMsgReject_def kOuchMsgBook_def kOuchOrderMsgLen_def kOuchCancelReqLen_def kOuchBookReqLen_def
  kOuchAckMsgLen_def kOuchExecMsgLen_def kOuchCancelMsgLen_def kOuchRejectMsgLen_def kOuchBookMsgLen_def

record ouch_enter =
  oe_order_id :: u64
  oe_side :: u8
  oe_shares :: u32
  oe_symbol_id :: u64
  oe_price :: u64
  oe_tif :: u8

section \<open>Helpers\<close>

definition rd_be32 :: "nat \<Rightarrow> u8 list \<Rightarrow> u32 option" where
  "rd_be32 p b = do {
     x0 \<leftarrow> byte_at p b;
     x1 \<leftarrow> byte_at (p + 1) b;
     x2 \<leftarrow> byte_at (p + 2) b;
     x3 \<leftarrow> byte_at (p + 3) b;
     Some (push_bit 24 (ucast x0) OR push_bit 16 (ucast x1) OR push_bit 8 (ucast x2) OR ucast x3)
   }"

definition wr_be32 :: "nat \<Rightarrow> u32 \<Rightarrow> u8 list \<Rightarrow> u8 list option" where
  "wr_be32 p v b = put_bytes p [ucast (drop_bit 24 v), ucast (drop_bit 16 v), ucast (drop_bit 8 v), ucast (v AND 0xFF)] b"

definition wr_be64 :: "nat \<Rightarrow> u64 \<Rightarrow> u8 list \<Rightarrow> u8 list option" where
  "wr_be64 p v b = put_bytes p (map (\<lambda>i. ucast (drop_bit (8 * i) v)) (rev [0..<8])) b"

definition rd_be64 :: "nat \<Rightarrow> u8 list \<Rightarrow> u64 option" where
  "rd_be64 p b = do {
     bs \<leftarrow> bytes_at p 8 b;
     Some (foldl (\<lambda>v x. push_bit 8 v OR ucast x) 0 bs)
   }"

definition checksum :: "nat \<Rightarrow> u8 list \<Rightarrow> u8 option" where
  "checksum n b = do {
     bs \<leftarrow> bytes_at 0 n b;
     Some (ucast (foldl (\<lambda>s x. s + ucast x) (0 :: u32) bs AND 0xFF))
   }"

definition put_token :: "nat \<Rightarrow> u64 \<Rightarrow> u8 list \<Rightarrow> u8 list option" where
  "put_token p oid b = put_bytes p (snprintf_bytes 15 (decimal_padded 14 (unat oid))) b"

text \<open>\<^verbatim>\<open>snprintf(book, sizeof(book), "%llu", n); memcpy(buf + p, book, strlen(book));\<close>\<close>

definition put_number :: "nat \<Rightarrow> u64 \<Rightarrow> u8 list \<Rightarrow> u8 list option" where
  "put_number p n b = put_bytes p (c_string (snprintf_bytes 11 (decimal (unat n)))) b"

text \<open>\<^verbatim>\<open>while (i < 11 && reason[i]) buf[24 + i] = reason[i]\<close>\<close>

definition put_reason :: "nat \<Rightarrow> u8 list \<Rightarrow> u8 list \<Rightarrow> u8 list option" where
  "put_reason p reason b = put_bytes p (take 11 (c_string reason)) b"

section \<open>Decoders\<close>

definition ouch_decode_enter :: "u8 list \<Rightarrow> ouch_enter \<Rightarrow> (bool \<times> ouch_enter) option" where
  "ouch_decode_enter buf ord =
     (if length buf < kOuchOrderMsgLen then Some (False, ord)
      else do {
        t \<leftarrow> byte_at 0 buf;
        if t \<noteq> kOuchMsgOrder then Some (False, ord)
        else do {
          c \<leftarrow> byte_at 48 buf;
          c' \<leftarrow> checksum (kOuchOrderMsgLen - 1) buf;
          if c \<noteq> c' then Some (False, ord)
          else do {
            tok \<leftarrow> bytes_at 1 14 buf;
            s \<leftarrow> byte_at 15 buf;
            sh \<leftarrow> rd_be32 16 buf;
            book \<leftarrow> bytes_at 20 10 buf;
            pr \<leftarrow> rd_be32 30 buf;
            tif \<leftarrow> byte_at 34 buf;
            Some (True, \<lparr>oe_order_id = strtoull (tok @ [0]), oe_side = s, oe_shares = sh,
                         oe_symbol_id = strtoull (book @ [0]), oe_price = ucast (pr div 100), oe_tif = tif\<rparr>)
          }
        }
      })"

definition ouch_decode_book_req :: "u8 list \<Rightarrow> u64 \<Rightarrow> (bool \<times> u64) option" where
  "ouch_decode_book_req buf locate =
     (if length buf < kOuchBookReqLen then Some (False, locate)
      else do {
        t \<leftarrow> byte_at 0 buf;
        if t \<noteq> kOuchMsgBookReq then Some (False, locate)
        else do {
          c \<leftarrow> byte_at 12 buf;
          c' \<leftarrow> checksum (kOuchBookReqLen - 1) buf;
          if c \<noteq> c' then Some (False, locate)
          else do {
            book \<leftarrow> bytes_at 1 10 buf;
            Some (True, strtoull (book @ [0]))
          }
        }
      })"

section \<open>Encoders\<close>

definition ouch_encode_book :: "u64 \<Rightarrow> u32 \<Rightarrow> u32 \<Rightarrow> u32 \<Rightarrow> u32 \<Rightarrow> u8 list \<Rightarrow> (nat \<times> u8 list) option" where
  "ouch_encode_book locate bid_price_cents bid_vol ask_price_cents ask_vol buf = do {
     b0 \<leftarrow> put_bytes 0 (replicate kOuchBookMsgLen 32) buf;
     b1 \<leftarrow> put_bytes 0 [kOuchMsgBook] b0;
     b2 \<leftarrow> put_number 1 locate b1;
     b3 \<leftarrow> wr_be32 11 (bid_price_cents * 100) b2;
     b4 \<leftarrow> wr_be32 15 bid_vol b3;
     b5 \<leftarrow> wr_be32 19 (ask_price_cents * 100) b4;
     b6 \<leftarrow> wr_be32 23 ask_vol b5;
     c \<leftarrow> checksum (kOuchBookMsgLen - 1) b6;
     b7 \<leftarrow> put_bytes 33 [c] b6;
     Some (kOuchBookMsgLen, b7)
   }"

definition ouch_encode_accepted :: "u64 \<Rightarrow> u64 \<Rightarrow> u8 \<Rightarrow> u32 \<Rightarrow> u64 \<Rightarrow> u8 list \<Rightarrow> (nat \<times> u8 list) option" where
  "ouch_encode_accepted ref oid sd shares symbol_id buf = do {
     b0 \<leftarrow> put_bytes 0 (replicate kOuchAckMsgLen 32) buf;
     b1 \<leftarrow> put_bytes 0 [kOuchMsgAck] b0;
     b2 \<leftarrow> wr_be64 1 ref b1;
     b3 \<leftarrow> put_token 9 oid b2;
     b4 \<leftarrow> put_bytes 23 [sd] b3;
     b5 \<leftarrow> wr_be32 24 shares b4;
     b6 \<leftarrow> put_number 28 symbol_id b5;
     c \<leftarrow> checksum (kOuchAckMsgLen - 1) b6;
     b7 \<leftarrow> put_bytes 38 [c] b6;
     Some (kOuchAckMsgLen, b7)
   }"

definition ouch_encode_executed ::
    "u64 \<Rightarrow> u64 \<Rightarrow> u8 \<Rightarrow> u32 \<Rightarrow> u64 \<Rightarrow> u32 \<Rightarrow> u64 \<Rightarrow> u8 list \<Rightarrow> (nat \<times> u8 list) option" where
  "ouch_encode_executed ref oid sd shares price_cents exec_qty exec_price_cents buf = do {
     b0 \<leftarrow> put_bytes 0 (replicate kOuchExecMsgLen 32) buf;
     b1 \<leftarrow> put_bytes 0 [kOuchMsgExec] b0;
     b2 \<leftarrow> wr_be64 1 ref b1;
     b3 \<leftarrow> put_token 9 oid b2;
     b4 \<leftarrow> put_bytes 23 [sd] b3;
     b5 \<leftarrow> wr_be32 24 shares b4;
     b6 \<leftarrow> wr_be32 28 (ucast (price_cents * 100)) b5;
     b7 \<leftarrow> wr_be32 32 exec_qty b6;
     b8 \<leftarrow> wr_be32 36 (ucast (exec_price_cents * 100)) b7;
     b9 \<leftarrow> put_bytes 40 [84] b8;
     c \<leftarrow> checksum (kOuchExecMsgLen - 1) b9;
     b10 \<leftarrow> put_bytes 41 [c] b9;
     Some (kOuchExecMsgLen, b10)
   }"

definition ouch_encode_canceled :: "u64 \<Rightarrow> u64 \<Rightarrow> u8 \<Rightarrow> u32 \<Rightarrow> u64 \<Rightarrow> u8 list \<Rightarrow> (nat \<times> u8 list) option" where
  "ouch_encode_canceled ref oid sd canceled_qty symbol_id buf = do {
     b0 \<leftarrow> put_bytes 0 (replicate kOuchCancelMsgLen 32) buf;
     b1 \<leftarrow> put_bytes 0 [kOuchMsgCancel] b0;
     b2 \<leftarrow> wr_be64 1 ref b1;
     b3 \<leftarrow> put_token 9 oid b2;
     b4 \<leftarrow> put_bytes 23 [sd] b3;
     b5 \<leftarrow> wr_be32 24 canceled_qty b4;
     b6 \<leftarrow> put_number 28 symbol_id b5;
     c \<leftarrow> checksum (kOuchCancelMsgLen - 1) b6;
     b7 \<leftarrow> put_bytes 38 [c] b6;
     Some (kOuchCancelMsgLen, b7)
   }"

definition ouch_encode_rejected :: "u64 \<Rightarrow> u64 \<Rightarrow> u8 \<Rightarrow> u8 list option \<Rightarrow> u8 list \<Rightarrow> (nat \<times> u8 list) option" where
  "ouch_encode_rejected ref oid sd reason buf = do {
     b0 \<leftarrow> put_bytes 0 (replicate kOuchRejectMsgLen 32) buf;
     b1 \<leftarrow> put_bytes 0 [kOuchMsgReject] b0;
     b2 \<leftarrow> wr_be64 1 ref b1;
     b3 \<leftarrow> put_token 9 oid b2;
     b4 \<leftarrow> put_bytes 23 [sd] b3;
     b5 \<leftarrow> (case reason of None \<Rightarrow> Some b4 | Some r \<Rightarrow> put_reason 24 r b4);
     c \<leftarrow> checksum (kOuchRejectMsgLen - 1) b5;
     b6 \<leftarrow> put_bytes 35 [c] b5;
     Some (kOuchRejectMsgLen, b6)
   }"

section \<open>Reference layout\<close>

text \<open>A body closed by the sum of its bytes; the fields as the trading client reads them.\<close>

definition sealed :: "u8 list \<Rightarrow> u8 list" where
  "sealed body = body @ [sum_list body]"

definition token :: "u64 \<Rightarrow> u8 list" where
  "token oid = take 14 (decimal_padded 14 (unat oid))"

definition padded :: "nat \<Rightarrow> u8 list \<Rightarrow> u8 list" where
  "padded n txt = take n txt @ replicate (n - length txt) 32"

definition enter_body :: "ouch_enter \<Rightarrow> u8 list \<Rightarrow> u8 list" where
  "enter_body en rest =
     79 # token (oe_order_id en) @ oe_side en # be32 (oe_shares en) @
       padded 10 (decimal (unat (oe_symbol_id en))) @ be32 (ucast (oe_price en) * 100) @ oe_tif en # rest"

definition book_req_body :: "u64 \<Rightarrow> u8 \<Rightarrow> u8 list" where
  "book_req_body locate filler = 81 # padded 10 (decimal (unat locate)) @ [filler]"

definition book_body :: "u64 \<Rightarrow> u32 \<Rightarrow> u32 \<Rightarrow> u32 \<Rightarrow> u32 \<Rightarrow> u8 list" where
  "book_body locate bp bv ap av =
     66 # padded 10 (decimal (unat locate)) @ be32 (bp * 100) @ be32 bv @ be32 (ap * 100) @ be32 av @ replicate 6 32"

definition report_head :: "u8 \<Rightarrow> u64 \<Rightarrow> u64 \<Rightarrow> u8 \<Rightarrow> u8 list" where
  "report_head t ref oid sd = t # be64 ref @ token oid @ [sd]"

definition accepted_body :: "u8 \<Rightarrow> u64 \<Rightarrow> u64 \<Rightarrow> u8 \<Rightarrow> u32 \<Rightarrow> u64 \<Rightarrow> u8 list" where
  "accepted_body t ref oid sd n symbol_id = report_head t ref oid sd @ be32 n @ padded 10 (decimal (unat symbol_id))"

definition executed_body :: "u64 \<Rightarrow> u64 \<Rightarrow> u8 \<Rightarrow> u32 \<Rightarrow> u64 \<Rightarrow> u32 \<Rightarrow> u64 \<Rightarrow> u8 list" where
  "executed_body ref oid sd n pr qty epr =
     report_head 69 ref oid sd @ be32 n @ be32 (ucast (pr * 100)) @ be32 qty @ be32 (ucast (epr * 100)) @ [84]"

definition rejected_body :: "u64 \<Rightarrow> u64 \<Rightarrow> u8 \<Rightarrow> u8 list \<Rightarrow> u8 list" where
  "rejected_body ref oid sd reason = report_head 74 ref oid sd @ padded 11 (c_string reason)"

section \<open>Lemmas\<close>

lemma rd_be32_bytes [buf_simps]: "rd_be32 p m = map_option join_be (bytes_at p 4 m)"
proof -
  have "push_bit 24 (ucast a) OR push_bit 16 (ucast b) OR push_bit 8 (ucast c) OR ucast d = (join_be [a, b, c, d] :: u32)"
    for a b c d :: u8 by (simp add: join_be_def push_bit_or or.assoc)
  then show ?thesis
    by (auto simp: rd_be32_def eval_nat_numeral bytes_at_unfold byte_at_def)
qed

lemma rd_be64_bytes [buf_simps]: "rd_be64 p m = map_option join_be (bytes_at p 8 m)"
  by (cases "bytes_at p 8 m") (simp_all add: rd_be64_def join_be_def)

lemma low_byte: "ucast (w AND 0xFF :: u32) = (ucast w :: u8)"
proof -
  have "(0xFF :: u32) = mask 8" by (simp add: mask_eq_exp_minus_1)
  then have "w AND 0xFF = take_bit 8 w" by (simp only: take_bit_eq_mask)
  then show ?thesis by (auto intro!: bit_word_eqI simp: bit_simps)
qed

lemma wr_be32_put: "wr_be32 p v b = put_bytes p (be32 v) b"
  by (simp add: wr_be32_def be32_def low_byte)

lemma wr_be64_put: "wr_be64 p v b = put_bytes p (be64 v) b"
  by (simp add: wr_be64_def be64_def upt_rec)

lemma ucast_add_8: "(ucast (a + b :: u32) :: u8) = ucast a + ucast b"
  by (simp add: word_unat_eq_iff unsigned_ucast_eq take_bit_eq_mod unat_word_ariths mod_simps mod_mod_cancel)

lemma ucast_up_down: "ucast (ucast (x :: u8) :: u32) = x"
  by (rule bit_word_eqI) (simp add: bit_simps)

lemma checksum_sum: "n \<le> length b \<Longrightarrow> checksum n b = Some (sum_list (take n b))"
proof -
  have "ucast (foldl (\<lambda>s x. s + ucast x) (a :: u32) bs) = (ucast a + sum_list bs :: u8)" for a bs
    by (induction bs arbitrary: a) (simp_all add: ucast_add_8 ucast_up_down add.assoc)
  moreover assume "n \<le> length b"
  ultimately show ?thesis by (simp add: checksum_def bytes_at_def low_byte)
qed

text \<open>The encoders write block after block.\<close>

lemma put_bytes_skip [buf_simps]:
  "length xs \<le> i \<Longrightarrow> put_bytes i bs (xs @ ys) = map_option ((@) xs) (put_bytes (i - length xs) bs ys)"
  by (auto simp: put_bytes_def)

lemma put_bytes_Cons [buf_simps]:
  "0 < i \<Longrightarrow> put_bytes i bs (x # xs) = map_option ((#) x) (put_bytes (i - 1) bs xs)"
  "put_bytes 0 [b] (x # xs) = Some (b # xs)"
  by (cases i; auto simp: put_bytes_def)+

lemma put_bytes_here [buf_simps]:
  "length bs \<le> length old \<Longrightarrow> put_bytes 0 bs (old @ ys) = Some (bs @ drop (length bs) old @ ys)"
  by (simp add: put_bytes_def)

lemma length_token [simp]: "length (token oid) = 14"
  by (simp add: token_def decimal_padded_def)

lemma put_token_put: "put_token p oid b = put_bytes p (token oid @ [0]) b"
  by (simp add: put_token_def snprintf_bytes_def token_def)

lemma c_string_snprintf: "0 \<notin> set txt \<Longrightarrow> c_string (snprintf_bytes n txt) = take (n - 1) txt"
proof -
  assume "0 \<notin> set txt"
  then have "\<forall>b \<in> set (take (n - 1) txt). b \<noteq> 0" by (auto dest: in_set_takeD)
  then show ?thesis by (simp add: c_string_def snprintf_bytes_def takeWhile_append2)
qed

lemma put_number_put: "put_number p n b = put_bytes p (take 10 (decimal (unat n))) b"
proof -
  have "0 \<notin> set (decimal (unat n))" using decimal_digits [of "unat n"] digit_not by auto
  then show ?thesis by (simp add: put_number_def c_string_snprintf)
qed

lemma length_padded [simp]: "length (padded n txt) = n"
  by (simp add: padded_def)

lemma padded_put: "take n txt @ replicate (n - min (length txt) n) 32 @ ys = padded n txt @ ys"
  by (simp add: padded_def min_def)

lemmas ouch_puts = put_token_put put_number_put wr_be32_put wr_be64_put put_reason_def

lemma memset_blocks: "n = k + m \<Longrightarrow> replicate n x = replicate k x @ replicate m x"
  by (simp add: replicate_add)

lemma put_blanks: "n \<le> length buf \<Longrightarrow> put_bytes 0 (replicate n x) buf = Some (replicate n x @ drop n buf)"
  by (simp add: put_bytes_def)

lemma seal:
  assumes "length body = n"
  shows "checksum n (body @ x # rest) = Some (sum_list body)" "put_bytes n [c] (body @ x # rest) = Some (body @ c # rest)"
  using assms by (simp_all add: checksum_sum buf_simps)

lemma accepted_layout:
  assumes "39 \<le> length buf"
  shows "ouch_encode_accepted ref oid sd n symbol_id buf =
    Some (39, sealed (accepted_body 65 ref oid sd n symbol_id) @ drop 39 buf)"
proof -
  have blocks: "put_bytes 0 (replicate 39 32) buf = Some (32 # replicate 8 32 @ replicate 15 32 @ replicate 4 32 @ replicate 10 32 @ 32 # drop 39 buf)"
    unfolding put_blanks [OF assms] by (simp add: eval_nat_numeral)
  have body: "length (accepted_body 65 ref oid sd n symbol_id) = 38"
    by (simp add: accepted_body_def report_head_def)
  show ?thesis
    using seal(1) [OF body]
    by (simp add: ouch_encode_accepted_def ouch_consts blocks ouch_puts buf_simps accepted_body_def report_head_def sealed_def padded_put)
qed

lemma canceled_layout:
  assumes "39 \<le> length buf"
  shows "ouch_encode_canceled ref oid sd n symbol_id buf =
    Some (39, sealed (accepted_body 67 ref oid sd n symbol_id) @ drop 39 buf)"
proof -
  have blocks: "put_bytes 0 (replicate 39 32) buf = Some (32 # replicate 8 32 @ replicate 15 32 @ replicate 4 32 @ replicate 10 32 @ 32 # drop 39 buf)"
    unfolding put_blanks [OF assms] by (simp add: eval_nat_numeral)
  have body: "length (accepted_body 67 ref oid sd n symbol_id) = 38"
    by (simp add: accepted_body_def report_head_def)
  show ?thesis
    using seal(1) [OF body]
    by (simp add: ouch_encode_canceled_def ouch_consts blocks ouch_puts buf_simps accepted_body_def report_head_def sealed_def padded_put)
qed

lemma executed_layout:
  assumes "42 \<le> length buf"
  shows "ouch_encode_executed ref oid sd n pr qty epr buf =
    Some (42, sealed (executed_body ref oid sd n pr qty epr) @ drop 42 buf)"
proof -
  have blocks: "put_bytes 0 (replicate 42 32) buf = Some (32 # replicate 8 32 @ replicate 15 32 @ replicate 4 32 @ replicate 4 32 @ replicate 4 32 @ replicate 4 32 @ [32] @ 32 # drop 42 buf)"
    unfolding put_blanks [OF assms] by (simp add: eval_nat_numeral)
  have body: "length (executed_body ref oid sd n pr qty epr) = 41"
    by (simp add: executed_body_def report_head_def)
  show ?thesis
    using seal(1) [OF body]
    by (simp add: ouch_encode_executed_def ouch_consts blocks ouch_puts buf_simps executed_body_def report_head_def sealed_def padded_put)
qed

lemma rejected_layout:
  assumes "36 \<le> length buf"
  shows "ouch_encode_rejected ref oid sd (Some reason) buf =
    Some (36, sealed (rejected_body ref oid sd reason) @ drop 36 buf)"
proof -
  have blocks: "put_bytes 0 (replicate 36 32) buf = Some (32 # replicate 8 32 @ replicate 15 32 @ replicate 11 32 @ 32 # drop 36 buf)"
    unfolding put_blanks [OF assms] by (simp add: eval_nat_numeral)
  have body: "length (rejected_body ref oid sd reason) = 35"
    by (simp add: rejected_body_def report_head_def)
  show ?thesis
    using seal(1) [OF body]
    by (simp add: ouch_encode_rejected_def ouch_consts blocks ouch_puts buf_simps rejected_body_def report_head_def sealed_def padded_put)
qed

lemma book_layout:
  assumes "34 \<le> length buf"
  shows "ouch_encode_book l bp bv ap av buf =
    Some (34, sealed (book_body l bp bv ap av) @ drop 34 buf)"
proof -
  have blocks: "put_bytes 0 (replicate 34 32) buf = Some (32 # replicate 10 32 @ replicate 4 32 @ replicate 4 32 @ replicate 4 32 @ replicate 4 32 @ replicate 6 32 @ 32 # drop 34 buf)"
    unfolding put_blanks [OF assms] by (simp add: eval_nat_numeral)
  have body: "length (book_body l bp bv ap av) = 33"
    by (simp add: book_body_def report_head_def)
  show ?thesis
    using seal(1) [OF body]
    by (simp add: ouch_encode_book_def ouch_consts blocks ouch_puts buf_simps book_body_def report_head_def sealed_def padded_put)
qed

section \<open>Reading the fields back\<close>

lemma strtoull_token: "unat oid < 10 ^ 14 \<Longrightarrow> strtoull (token oid @ [0]) = oid"
  using strtoull_padded [of "unat oid" "[0]" 14] length_decimal_padded [of "unat oid" 14]
  by (simp add: token_def is_digit_def word_le_nat_alt)

lemma strtoull_field: "unat n < 10 ^ 10 \<Longrightarrow> strtoull (padded 10 (decimal (unat n)) @ [0]) = n"
proof -
  assume n: "unat n < 10 ^ 10"
  then have "length (decimal (unat n)) \<le> 10" by (intro length_decimal) simp_all
  then have "padded 10 (decimal (unat n)) @ [0] = decimal (unat n) @ (replicate (10 - length (decimal (unat n))) 32 @ [0])"
    by (simp add: padded_def)
  moreover have "\<not> is_digit (hd (replicate k 32 @ [0]))" for k by (cases k) (simp_all add: is_digit_def word_le_nat_alt)
  ultimately show ?thesis using n strtoull_decimal [of "unat n"] by simp
qed

lemma length_sealed [simp]: "length (sealed b) = Suc (length b)"
  by (simp add: sealed_def)

lemma checksum_sealed: "length b = n \<Longrightarrow> checksum n (sealed b @ rest) = Some (sum_list b)"
  by (simp add: checksum_sum sealed_def)

lemma byte_at_sealed: "length b = n \<Longrightarrow> byte_at n (sealed b @ rest) = Some (sum_list b)"
  by (simp add: sealed_def buf_simps)

lemma hundred_u32: "unat (p :: u64) < 42949673 \<Longrightarrow> ucast ((ucast p * 100 :: u32) div 100) = p"
proof -
  assume p: "unat p < 42949673"
  have c: "unat (ucast p :: u32) = unat p" using p by (simp add: unsigned_ucast_eq take_bit_eq_mod)
  then have "unat ((ucast p * 100 :: u32) div 100) = unat p" using p by (simp add: unat_div unat_word_ariths)
  then show ?thesis using p by (simp add: word_unat_eq_iff unsigned_ucast_eq take_bit_eq_mod)
qed

lemma sum_list_update_word: "i < length bs \<Longrightarrow> sum_list (bs[i := x]) = sum_list bs - bs ! i + (x :: u8)"
  by (induction bs arbitrary: i) (auto split: nat.splits simp: algebra_simps)

lemma decode_enter_eq:
  "ouch_decode_enter m old =
     Some (if length m < 49 \<or> m ! 0 \<noteq> 79 \<or> m ! 48 \<noteq> sum_list (take 48 m) then (False, old)
           else (True, \<lparr>oe_order_id = strtoull (take 14 (drop 1 m) @ [0]), oe_side = m ! 15,
             oe_shares = join_be (take 4 (drop 16 m)), oe_symbol_id = strtoull (take 10 (drop 20 m) @ [0]),
             oe_price = ucast (join_be (take 4 (drop 30 m)) div 100 :: u32), oe_tif = m ! 34\<rparr>))"
proof (cases "length m < 49")
  case False
  then have "byte_at i m = Some (m ! i)" if "i < 49" for i using that by (simp add: byte_at_def)
  moreover have "checksum 48 m = Some (sum_list (take 48 m))" using False by (simp add: checksum_sum)
  ultimately show ?thesis using False by (simp add: ouch_decode_enter_def ouch_consts buf_simps bytes_at_def)
qed (simp add: ouch_decode_enter_def ouch_consts)

lemma decode_sealed_enter:
  assumes "unat (oe_order_id en) < 10 ^ 14" and "unat (oe_symbol_id en) < 10 ^ 10"
    and "unat (oe_price en) < 42949673" and "length rest = 13"
  shows "ouch_decode_enter (sealed (enter_body en rest) @ tail) old = Some (True, en)"
proof -
  let ?b = "enter_body en rest"
  let ?m = "sealed ?b @ tail"
  have len: "length ?b = 48" using assms by (simp add: enter_body_def)
  have m: "?m = ?b @ sum_list ?b # tail" by (simp add: sealed_def)
  have fields: "byte_at 0 ?m = Some 79" "bytes_at 1 14 ?m = Some (token (oe_order_id en))"
    "byte_at 15 ?m = Some (oe_side en)" "rd_be32 16 ?m = Some (oe_shares en)"
    "bytes_at 20 10 ?m = Some (padded 10 (decimal (unat (oe_symbol_id en))))"
    "rd_be32 30 ?m = Some (ucast (oe_price en) * 100)" "byte_at 34 ?m = Some (oe_tif en)"
    unfolding m by (simp_all add: enter_body_def buf_simps)
  show ?thesis
    using fields checksum_sealed [OF len, of tail] byte_at_sealed [OF len, of tail] len assms
    by (simp add: ouch_decode_enter_def ouch_consts strtoull_token strtoull_field hundred_u32)
qed

section \<open>Properties\<close>

text \<open>
  C21: an order entry survives the wire.  An Enter Order message laid out as documented, closed by its
  checksum, decodes to exactly the order it was made from, when the order id has at most 14 digits, the
  symbol id at most 10, and the price in hundredths of a cent fits 32 bits.
\<close>

theorem ouch_enter_round_trip:
  assumes "unat (oe_order_id en) < 10 ^ 14" and "unat (oe_symbol_id en) < 10 ^ 10"
    and "unat (oe_price en) < 42949673" and "length rest = 13"
  shows "ouch_decode_enter (sealed (enter_body en rest) @ tail) old = Some (True, en)"
  using assms by (rule decode_sealed_enter)

theorem ouch_enter_round_trip_witness:
  "ouch_decode_enter (sealed (enter_body \<lparr>oe_order_id = 77, oe_side = 66, oe_shares = 100, oe_symbol_id = 7,
       oe_price = 12345, oe_tif = 68\<rparr> (replicate 13 0)))
     \<lparr>oe_order_id = 0, oe_side = 0, oe_shares = 0, oe_symbol_id = 0, oe_price = 0, oe_tif = 0\<rparr> =
   Some (True, \<lparr>oe_order_id = 77, oe_side = 66, oe_shares = 100, oe_symbol_id = 7, oe_price = 12345, oe_tif = 68\<rparr>)"
  using ouch_enter_round_trip [of "\<lparr>oe_order_id = 77, oe_side = 66, oe_shares = 100, oe_symbol_id = 7,
      oe_price = 12345, oe_tif = 68\<rparr>" "replicate 13 0" "[]"] by simp

text \<open>
  C22: the checksum detects every single corrupted byte.  When one byte of an accepted Enter Order message
  is changed, the decoder refuses the message and leaves the caller's order untouched.
\<close>

theorem ouch_enter_corruption:
  assumes "ouch_decode_enter m old = Some (True, en)" and "i < 49" and "x \<noteq> m ! i"
  shows "ouch_decode_enter (m[i := x]) old = Some (False, old)"
proof -
  have len: "49 \<le> length m" and sum: "m ! 48 = sum_list (take 48 m)"
    using assms(1) by (auto simp: decode_enter_eq split: if_splits)
  have "sum_list (take 48 (m[i := x])) \<noteq> m[i := x] ! 48"
  proof (cases "i < 48")
    case True
    then have "sum_list (take 48 (m[i := x])) = m ! 48 - m ! i + x"
      using len sum by (simp add: take_update_swap sum_list_update_word)
    moreover have "m ! 48 - m ! i + x \<noteq> m ! 48" using assms(3) by (simp add: diff_add_eq diff_eq_eq)
    ultimately show ?thesis using True by simp
  next
    case False
    then have "i = 48" using assms(2) by simp
    then show ?thesis using len sum assms(3) by simp
  qed
  then show ?thesis by (auto simp: decode_enter_eq)
qed

theorem ouch_enter_corruption_witness:
  "ouch_decode_enter ((sealed (enter_body \<lparr>oe_order_id = 77, oe_side = 66, oe_shares = 100, oe_symbol_id = 7,
       oe_price = 12345, oe_tif = 68\<rparr> (replicate 13 0)))[15 := 83])
     \<lparr>oe_order_id = 0, oe_side = 0, oe_shares = 0, oe_symbol_id = 0, oe_price = 0, oe_tif = 0\<rparr> =
   Some (False, \<lparr>oe_order_id = 0, oe_side = 0, oe_shares = 0, oe_symbol_id = 0, oe_price = 0, oe_tif = 0\<rparr>)"
proof (rule ouch_enter_corruption)
  let ?e = "\<lparr>oe_order_id = 77, oe_side = 66, oe_shares = 100, oe_symbol_id = 7, oe_price = 12345, oe_tif = 68\<rparr>"
  show "ouch_decode_enter (sealed (enter_body ?e (replicate 13 0)))
      \<lparr>oe_order_id = 0, oe_side = 0, oe_shares = 0, oe_symbol_id = 0, oe_price = 0, oe_tif = 0\<rparr> = Some (True, ?e)"
    using decode_sealed_enter [of ?e "replicate 13 0" "[]"] by simp
  show "(83 :: u8) \<noteq> sealed (enter_body ?e (replicate 13 0)) ! 15"
    by (simp add: sealed_def enter_body_def nth_append nth_Cons')
qed simp



text \<open>
  C24: the client reads back what the exchange reported.  From an Accepted and from an Executed message the
  documented offsets give the reference, the order id (up to 14 digits), the side, the quantities, the
  symbol id (up to 10 digits) and the execution price in hundredths of a cent, and the checksum of the body
  is its last byte.
\<close>

theorem ouch_reports_readable:
  assumes "unat oid < 10 ^ 14" and "unat symbol_id < 10 ^ 10" and "42 \<le> length buf"
  shows "(\<exists>m. ouch_encode_accepted ref oid sd n symbol_id buf = Some (39, m) \<and> rd_be64 1 m = Some ref \<and>
      map_option (\<lambda>t. strtoull (t @ [0])) (bytes_at 9 14 m) = Some oid \<and> byte_at 23 m = Some sd \<and>
      rd_be32 24 m = Some n \<and> map_option (\<lambda>t. strtoull (t @ [0])) (bytes_at 28 10 m) = Some symbol_id \<and>
      checksum 38 m = byte_at 38 m) \<and>
    (\<exists>m. ouch_encode_executed ref oid sd n pr qty epr buf = Some (42, m) \<and> rd_be64 1 m = Some ref \<and>
      map_option (\<lambda>t. strtoull (t @ [0])) (bytes_at 9 14 m) = Some oid \<and> byte_at 23 m = Some sd \<and>
      rd_be32 24 m = Some n \<and> rd_be32 28 m = Some (ucast (pr * 100)) \<and> rd_be32 32 m = Some qty \<and>
      rd_be32 36 m = Some (ucast (epr * 100)) \<and> checksum 41 m = byte_at 41 m)"
proof -
  let ?a = "accepted_body 65 ref oid sd n symbol_id" and ?e = "executed_body ref oid sd n pr qty epr"
  have len: "length ?a = 38" "length ?e = 41" by (simp_all add: accepted_body_def executed_body_def report_head_def)
  have sums: "checksum 38 (sealed ?a @ r) = byte_at 38 (sealed ?a @ r)" "checksum 41 (sealed ?e @ r) = byte_at 41 (sealed ?e @ r)" for r
    using checksum_sealed byte_at_sealed len by metis+
  have m: "sealed ?a @ r = ?a @ sum_list ?a # r" "sealed ?e @ r = ?e @ sum_list ?e # r" for r by (simp_all add: sealed_def)
  have a: "rd_be64 1 (sealed ?a @ r) = Some ref" "bytes_at 9 14 (sealed ?a @ r) = Some (token oid)"
    "byte_at 23 (sealed ?a @ r) = Some sd" "rd_be32 24 (sealed ?a @ r) = Some n"
    "bytes_at 28 10 (sealed ?a @ r) = Some (padded 10 (decimal (unat symbol_id)))" for r
    unfolding m by (simp_all add: accepted_body_def report_head_def buf_simps)
  have e: "rd_be64 1 (sealed ?e @ r) = Some ref" "bytes_at 9 14 (sealed ?e @ r) = Some (token oid)"
    "byte_at 23 (sealed ?e @ r) = Some sd" "rd_be32 24 (sealed ?e @ r) = Some n"
    "rd_be32 28 (sealed ?e @ r) = Some (ucast (pr * 100))" "rd_be32 32 (sealed ?e @ r) = Some qty"
    "rd_be32 36 (sealed ?e @ r) = Some (ucast (epr * 100))" for r
    unfolding m by (simp_all add: executed_body_def report_head_def buf_simps)
  have t: "strtoull (token oid @ [0]) = oid" "strtoull (padded 10 (decimal (unat symbol_id)) @ [0]) = symbol_id"
    using assms by (simp_all add: strtoull_token strtoull_field)
  show ?thesis using accepted_layout [of buf] executed_layout [of buf] assms(3) sums a e t by simp
qed

theorem ouch_reports_readable_witness:
  "\<exists>m. ouch_encode_executed 1 77 66 100 12345 60 12300 (replicate 64 0) = Some (42, m) \<and> rd_be32 32 m = Some 60 \<and>
    rd_be32 36 m = Some 1230000"
  using ouch_reports_readable [of 77 7 "replicate 64 0" 1 66 100 12345 60 12300] by auto

end
