(* ===== verification/Tcp_Trade_Server.thy ===== *)
theory Tcp_Trade_Server
  imports Matching_Theorems Ouch_Protocol
begin

text \<open>
  \<^verbatim>\<open>src/tcp_trade_server.cpp\<close>: the order entry port.  A client's bytes arrive in chunks, and the end of
  the list of chunks is the end of the connection.  \<open>tr_sent\<close> collects the messages handed to \<^verbatim>\<open>send\<close>, whose
  result the code ignores.  \<open>stack\<close> is what the 64 byte report buffer held before, \<open>ord0\<close> the uninitialised
  \<^verbatim>\<open>OuchEnter\<close>; the engine lock makes every call of the engine one step.
\<close>

section \<open>The server object\<close>

record trade_server =
  tr_engine :: engine
  id_to_ref :: "u64 \<rightharpoonup> u64"
  order_locate :: "u64 \<rightharpoonup> u64"
  next_ref :: u64
  tr_sent :: "u8 list list"

definition new_TcpTradeServer :: "engine \<Rightarrow> trade_server" where
  "new_TcpTradeServer e = \<lparr>tr_engine = e, id_to_ref = Map.empty, order_locate = Map.empty, next_ref = 1, tr_sent = []\<rparr>"

definition ref_for :: "u64 \<Rightarrow> trade_server \<Rightarrow> u64 \<times> trade_server" where
  "ref_for oid s =
     (case id_to_ref s oid of
        Some r \<Rightarrow> (r, s)
      | None \<Rightarrow> (next_ref s, s\<lparr>id_to_ref := (id_to_ref s)(oid \<mapsto> next_ref s), next_ref := next_ref s + 1\<rparr>))"

text \<open>Encoding a report into the buffer and sending its first bytes; the buffer is used again for the next one.\<close>

definition send_report :: "(u8 list \<Rightarrow> (nat \<times> u8 list) option) \<Rightarrow> u8 list \<times> trade_server \<Rightarrow> (u8 list \<times> trade_server) option" where
  "send_report encode bs = (case bs of (buf, s) \<Rightarrow> do {
     (n, buf1) \<leftarrow> encode buf;
     msg \<leftarrow> bytes_at 0 n buf1;
     Some (buf1, s\<lparr>tr_sent := tr_sent s @ [msg]\<rparr>)
   })"

section \<open>Orders\<close>

definition tif_of :: "u8 \<Rightarrow> order_tif" where
  "tif_of c = (if c = 68 then DAY else if c = 73 then IOC else if c = 70 then FOK else IOC)"

definition FOKNOFILL :: "u8 list" where "FOKNOFILL = [70, 79, 75, 78, 79, 70, 73, 76, 76, 0]"

fun report_trades :: "u64 \<Rightarrow> ouch_enter \<Rightarrow> u32 \<Rightarrow> response list \<Rightarrow> u8 list \<times> trade_server \<Rightarrow> (u8 list \<times> trade_server) option" where
  "report_trades ref ord price_cents [] bs = Some bs"
| "report_trades ref ord price_cents (RSP_TRADE l r sd pr q # rs) bs = do {
     bs1 \<leftarrow> send_report (ouch_encode_executed ref (oe_order_id ord) (oe_side ord) (oe_shares ord) (ucast price_cents) q (ucast pr)) bs;
     report_trades ref ord price_cents rs bs1
   }"
| "report_trades ref ord price_cents (_ # rs) bs = report_trades ref ord price_cents rs bs"

definition is_trade :: "response \<Rightarrow> bool" where
  "is_trade r = (rsp_type r = 0x81)"

definition handleEnter :: "u8 list \<Rightarrow> ouch_enter \<Rightarrow> trade_server \<Rightarrow> trade_server option" where
  "handleEnter stack ord s0 = (case ref_for (oe_order_id ord) s0 of (ref, s1) \<Rightarrow> do {
     let oid = oe_order_id ord;
     let locate = oe_symbol_id ord;
     let s2 = s1\<lparr>order_locate := (order_locate s1)(oid \<mapsto> locate)\<rparr>;
     let sd = (if oe_side ord = 83 then SELL else BUY);
     let price_cents = ucast (oe_price ord);
     let tif = tif_of (oe_tif ord);
     (out, e) \<leftarrow> processAdd locate oid sd price_cents (oe_shares ord) oid tif [] (tr_engine s2);
     let s3 = s2\<lparr>tr_engine := e\<rparr>;
     if tif = FOK \<and> RSP_ERROR FOK_NO_FULL_FILL \<in> set out
     then map_option snd (send_report (ouch_encode_rejected ref oid (oe_side ord) (Some FOKNOFILL)) (stack, s3))
     else do {
       bs1 \<leftarrow> send_report (ouch_encode_accepted ref oid (oe_side ord) (oe_shares ord) locate) (stack, s3);
       bs2 \<leftarrow> report_trades ref ord price_cents out bs1;
       if \<not> list_ex is_trade out \<and> tif \<noteq> DAY
       then map_option snd (send_report (ouch_encode_executed ref oid (oe_side ord) (oe_shares ord) (ucast price_cents) 0 0) bs2)
       else Some (snd bs2)
     }
   })"

section \<open>Cancels\<close>

text \<open>The parameter \<^verbatim>\<open>shares\<close> is not used.\<close>

fun report_cancels :: "u8 list \<Rightarrow> u64 \<Rightarrow> u64 \<Rightarrow> u64 \<Rightarrow> response list \<Rightarrow> trade_server \<Rightarrow> trade_server option" where
  "report_cancels stack ref oid locate [] s = Some s"
| "report_cancels stack ref oid locate (RSP_CANCELLED _ # rs) s = do {
     bs \<leftarrow> send_report (ouch_encode_canceled ref oid 66 0 locate) (stack, s);
     report_cancels stack ref oid locate rs (snd bs)
   }"
| "report_cancels stack ref oid locate (_ # rs) s = report_cancels stack ref oid locate rs s"

definition handleCancel :: "u8 list \<Rightarrow> u64 \<Rightarrow> u32 \<Rightarrow> trade_server \<Rightarrow> trade_server option" where
  "handleCancel stack oid shares s0 = (case ref_for oid s0 of (ref, s1) \<Rightarrow>
     (case order_locate s1 oid of
        None \<Rightarrow> Some s1
      | Some locate \<Rightarrow> do {
          (out, e) \<leftarrow> processCancel locate oid oid [] (tr_engine s1);
          report_cancels stack ref oid locate out (s1\<lparr>tr_engine := e\<rparr>)
        }))"

section \<open>A client\<close>

definition msg_len :: "u8 \<Rightarrow> nat option" where
  "msg_len t = (if t = kOuchMsgOrder then Some kOuchOrderMsgLen else if t = kOuchMsgCancelReq then Some kOuchCancelReqLen
     else if t = kOuchMsgBookReq then Some kOuchBookReqLen else None)"

definition handle_message :: "u8 list \<Rightarrow> ouch_enter \<Rightarrow> u8 list \<Rightarrow> trade_server \<Rightarrow> trade_server option" where
  "handle_message stack ord0 m s = do {
     t \<leftarrow> byte_at 0 m;
     if t = kOuchMsgOrder then do {
       (ok, ord) \<leftarrow> ouch_decode_enter m ord0;
       (if ok then handleEnter stack ord s else Some s)
     }
     else if t = kOuchMsgBookReq then do {
       (ok, locate) \<leftarrow> ouch_decode_book_req m 0;
       if ok then
         (case getBook locate (tr_engine s) of
            (RSP_BOOK l bp bv ap av, e) \<Rightarrow>
              map_option snd (send_report (ouch_encode_book locate bp bv ap av) (stack, s\<lparr>tr_engine := e\<rparr>))
          | _ \<Rightarrow> None)
       else Some s
     }
     else do {
       tok \<leftarrow> bytes_at 1 14 m;
       handleCancel stack (strtoull (tok @ [0])) 0 s
     }
   }"

text \<open>\<^verbatim>\<open>recv\<close> delivers at least one byte of what has arrived, and nothing at the end of the connection.\<close>

fun recv :: "nat \<Rightarrow> u8 list list \<Rightarrow> u8 list \<times> u8 list list" where
  "recv n [] = ([], [])"
| "recv n (c # cs) = (if c = [] then recv n cs else (take n c, drop n c # cs))"

lemma recv_concat: "recv n cs = (d, cs') \<Longrightarrow> concat cs = d @ concat cs' \<and> length d \<le> n \<and> (d = [] \<longrightarrow> n = 0 \<or> concat cs = [])"
  by (induction n cs rule: recv.induct) (auto split: if_splits)

function recv_exact :: "nat \<Rightarrow> u8 list list \<Rightarrow> (u8 list \<times> u8 list list) option" where
  "recv_exact n cs =
     (if n = 0 then Some ([], cs)
      else case recv n cs of (d, cs1) \<Rightarrow>
        if d = [] then None
        else do { (rest, cs2) \<leftarrow> recv_exact (n - length d) cs1; Some (d @ rest, cs2) })"
  by pat_completeness auto
termination by (relation "measure fst") auto

declare recv_exact.simps [simp del]

lemma recv_exact_concat:
  "if n \<le> length (concat cs) then \<exists>cs'. recv_exact n cs = Some (take n (concat cs), cs') \<and> concat cs' = drop n (concat cs)
   else recv_exact n cs = None"
proof (induction n cs rule: recv_exact.induct)
  case (1 n cs)
  show ?case
  proof (cases "n = 0")
    case True
    then show ?thesis by (simp add: recv_exact.simps)
  next
    case False
    obtain d cs1 where r: "recv n cs = (d, cs1)" by fastforce
    note rc = recv_concat [OF r]
    show ?thesis
    proof (cases "d = []")
      case True
      then have "length (concat cs) = 0" using rc False by (metis length_0_conv)
      moreover have "recv_exact n cs = None" using True False r by (subst recv_exact.simps) simp
      ultimately show ?thesis using False by (simp del: length_concat concat_eq_Nil_conv)
    next
      case ne: False
      have ih: "if n \<le> length (concat cs) then \<exists>cs'. recv_exact (n - length d) cs1 = Some (take (n - length d) (concat cs1), cs') \<and>
            concat cs' = drop (n - length d) (concat cs1) else recv_exact (n - length d) cs1 = None"
        using 1 [OF False r [symmetric] ne] rc by auto
      have e: "recv_exact n cs = map_option (\<lambda>(rest, cs2). (d @ rest, cs2)) (recv_exact (n - length d) cs1)"
        using False ne r by (subst recv_exact.simps) (cases "recv_exact (n - length d) cs1", auto)
      show ?thesis using ih rc unfolding e by (auto split: if_splits)
    qed
  qed
qed

lemma recv_exact_length: "recv_exact n cs = Some (d, cs') \<Longrightarrow> length (concat cs') \<le> length (concat cs)"
  using recv_exact_concat [of n cs] by (auto split: if_splits)

text \<open>\<^verbatim>\<open>handleClient\<close>; \<open>running k\<close> is the flag as the \<open>k\<close>-th round reads it.\<close>

function handleClient :: "(nat \<Rightarrow> bool) \<Rightarrow> nat \<Rightarrow> u8 list \<Rightarrow> ouch_enter \<Rightarrow> u8 list list \<Rightarrow> trade_server \<Rightarrow> trade_server option" where
  "handleClient running k stack ord0 cs s =
     (if \<not> running k then Some s
      else case recv 1 cs of (first, cs1) \<Rightarrow>
        if first = [] then Some s
        else case msg_len (hd first) of
          None \<Rightarrow> Some s
        | Some mlen \<Rightarrow>
            (case recv_exact (mlen - 1) cs1 of
               None \<Rightarrow> Some s
             | Some (rest, cs2) \<Rightarrow> do {
                 s1 \<leftarrow> handle_message stack ord0 (first @ rest) s;
                 handleClient running (k + 1) stack ord0 cs2 s1
               }))"
  by pat_completeness auto
termination
proof (relation "measure (\<lambda>(_, _, _, _, cs, _). length (concat cs))", goal_cases)
  case (2 running k stack ord0 cs s first cs1 mlen p rest cs2 s1)
  then have "concat cs = first @ concat cs1" "first \<noteq> []" "length (concat cs2) \<le> length (concat cs1)"
    using recv_concat [of 1 cs first cs1] recv_exact_length [of "mlen - 1" cs1 rest cs2] by auto
  then show ?case by (cases first) (auto simp del: length_concat)
qed simp

declare handleClient.simps [simp del]

end
