(* ===== verification/Trade_Theorems.thy ===== *)
theory Trade_Theorems
  imports Tcp_Trade_Server
begin

text \<open>
  The order entry port against its specification: framing of the inbound stream, order reference numbers, and the reports
  a request produces in terms of the queue specification of the engine.
\<close>

section \<open>Framing\<close>

text \<open>The messages of a byte stream: the type byte fixes the length.\<close>

function client_bytes :: "(nat \<Rightarrow> bool) \<Rightarrow> nat \<Rightarrow> u8 list \<Rightarrow> ouch_enter \<Rightarrow> u8 list \<Rightarrow> trade_server \<Rightarrow> trade_server option" where
  "client_bytes running k stack ord0 bs s =
     (if \<not> running k \<or> bs = [] then Some s
      else case msg_len (hd bs) of
        None \<Rightarrow> Some s
      | Some n \<Rightarrow>
          if length bs < n then Some s
          else do { s1 \<leftarrow> handle_message stack ord0 (take n bs) s; client_bytes running (k + 1) stack ord0 (drop n bs) s1 })"
  by pat_completeness auto
termination by (relation "measure (\<lambda>(_, _, _, _, bs, _). length bs)")
  (auto simp: msg_len_def kOuchOrderMsgLen_def kOuchCancelReqLen_def kOuchBookReqLen_def split: if_splits)

declare client_bytes.simps [simp del]

lemma msg_len_pos: "msg_len t = Some n \<Longrightarrow> 0 < n"
  by (auto simp: msg_len_def kOuchOrderMsgLen_def kOuchCancelReqLen_def kOuchBookReqLen_def split: if_splits)

lemma recv_one: "recv 1 cs = (d, cs') \<Longrightarrow> (d = [] \<and> concat cs = []) \<or> (\<exists>b. d = [b] \<and> concat cs = b # concat cs')"
proof -
  assume r: "recv 1 cs = (d, cs')"
  show ?thesis
  proof (cases d)
    case Nil
    then show ?thesis using recv_concat [OF r] by (metis one_neq_zero)
  next
    case (Cons b bs)
    then show ?thesis using recv_concat [OF r] by simp
  qed
qed

lemma handleClient_bytes: "handleClient running k stack ord0 cs s = client_bytes running k stack ord0 (concat cs) s"
proof (induction running k stack ord0 cs s rule: handleClient.induct)
  case (1 running k stack ord0 cs s)
  obtain d cs1 where r: "recv 1 cs = (d, cs1)" by fastforce
  consider "\<not> running k" | "running k" "d = []" "concat cs = []" | b where "running k" "d = [b]" "concat cs = b # concat cs1"
    using recv_one [OF r] by blast
  then show ?case
  proof cases
    case (3 b)
    show ?thesis
    proof (cases "msg_len b")
      case None
      then show ?thesis using 3 r by (subst handleClient.simps, subst client_bytes.simps) simp
    next
      case (Some n)
      then obtain m where n: "n = Suc m" using msg_len_pos [of b n] by (cases n) auto
      show ?thesis
      proof (cases "m \<le> length (concat cs1)")
        case True
        then obtain cs2 where x: "recv_exact m cs1 = Some (take m (concat cs1), cs2)" "concat cs2 = drop m (concat cs1)"
          using recv_exact_concat [of m cs1] by auto
        have ih: "handleClient running (k + 1) stack ord0 cs2 s1 = client_bytes running (k + 1) stack ord0 (concat cs2) s1"
          if "handle_message stack ord0 ([b] @ take m (concat cs1)) s = Some s1" for s1
          using 1 [of d cs1 n "(take m (concat cs1), cs2)" "take m (concat cs1)" cs2 s1] 3 r Some n x(1) that by simp
        have "handleClient running k stack ord0 cs s =
            Option.bind (handle_message stack ord0 (b # take m (concat cs1)) s) (\<lambda>s1. handleClient running (k + 1) stack ord0 cs2 s1)"
          using 3 r Some n x(1) by (subst handleClient.simps) simp
        moreover have "client_bytes running k stack ord0 (concat cs) s =
            Option.bind (handle_message stack ord0 (b # take m (concat cs1)) s) (\<lambda>s1. client_bytes running (k + 1) stack ord0 (concat cs2) s1)"
          using 3 Some n x(2) True by (subst client_bytes.simps) simp
        ultimately show ?thesis using ih by (cases "handle_message stack ord0 (b # take m (concat cs1)) s") simp_all
      next
        case False
        then have "recv_exact m cs1 = None" using recv_exact_concat [of m cs1] by simp
        then show ?thesis using 3 r Some n False by (subst handleClient.simps, subst client_bytes.simps) simp
      qed
    qed
  qed (use r in \<open>simp_all add: handleClient.simps client_bytes.simps\<close>)
qed

section \<open>Reports\<close>

lemma send_report_sealed:
  assumes "encode buf = Some (n, sealed body @ rest)" and "length body + 1 = n"
  shows "send_report encode (buf, s) = Some (sealed body @ rest, s\<lparr>tr_sent := tr_sent s @ [sealed body]\<rparr>)"
  using assms bytes_at_here [of "sealed body" n rest] by (simp add: send_report_def)

text \<open>The buffer has 64 bytes, so every report fits, and keeps its length.\<close>

lemma send_reports:
  assumes "length buf = 64"
  shows "\<exists>buf'. length buf' = 64 \<and> send_report (ouch_encode_accepted ref oid sd n l) (buf, s) =
      Some (buf', s\<lparr>tr_sent := tr_sent s @ [sealed (accepted_body 65 ref oid sd n l)]\<rparr>)"
    and "\<exists>buf'. length buf' = 64 \<and> send_report (ouch_encode_canceled ref oid sd n l) (buf, s) =
      Some (buf', s\<lparr>tr_sent := tr_sent s @ [sealed (accepted_body 67 ref oid sd n l)]\<rparr>)"
    and "\<exists>buf'. length buf' = 64 \<and> send_report (ouch_encode_executed ref oid sd n pr q epr) (buf, s) =
      Some (buf', s\<lparr>tr_sent := tr_sent s @ [sealed (executed_body ref oid sd n pr q epr)]\<rparr>)"
    and "\<exists>buf'. length buf' = 64 \<and> send_report (ouch_encode_rejected ref oid sd (Some reason)) (buf, s) =
      Some (buf', s\<lparr>tr_sent := tr_sent s @ [sealed (rejected_body ref oid sd reason)]\<rparr>)"
    and "\<exists>buf'. length buf' = 64 \<and> send_report (ouch_encode_book l bp bv ap av) (buf, s) =
      Some (buf', s\<lparr>tr_sent := tr_sent s @ [sealed (book_body l bp bv ap av)]\<rparr>)"
proof -
  have body: "length (accepted_body t ref oid sd n l) = 38" "length (executed_body ref oid sd n pr q epr) = 41"
    "length (rejected_body ref oid sd reason) = 35" "length (book_body l bp bv ap av) = 33" for t
    by (simp_all add: accepted_body_def report_head_def executed_body_def rejected_body_def book_body_def)
  show "\<exists>buf'. length buf' = 64 \<and> send_report (ouch_encode_accepted ref oid sd n l) (buf, s) =
      Some (buf', s\<lparr>tr_sent := tr_sent s @ [sealed (accepted_body 65 ref oid sd n l)]\<rparr>)"
    by (rule exI [of _ "sealed (accepted_body 65 ref oid sd n l) @ drop 39 buf"])
       (use assms body in \<open>simp add: send_report_sealed accepted_layout\<close>)
  show "\<exists>buf'. length buf' = 64 \<and> send_report (ouch_encode_canceled ref oid sd n l) (buf, s) =
      Some (buf', s\<lparr>tr_sent := tr_sent s @ [sealed (accepted_body 67 ref oid sd n l)]\<rparr>)"
    by (rule exI [of _ "sealed (accepted_body 67 ref oid sd n l) @ drop 39 buf"])
       (use assms body in \<open>simp add: send_report_sealed canceled_layout\<close>)
  show "\<exists>buf'. length buf' = 64 \<and> send_report (ouch_encode_executed ref oid sd n pr q epr) (buf, s) =
      Some (buf', s\<lparr>tr_sent := tr_sent s @ [sealed (executed_body ref oid sd n pr q epr)]\<rparr>)"
    by (rule exI [of _ "sealed (executed_body ref oid sd n pr q epr) @ drop 42 buf"])
       (use assms body in \<open>simp add: send_report_sealed executed_layout\<close>)
  show "\<exists>buf'. length buf' = 64 \<and> send_report (ouch_encode_rejected ref oid sd (Some reason)) (buf, s) =
      Some (buf', s\<lparr>tr_sent := tr_sent s @ [sealed (rejected_body ref oid sd reason)]\<rparr>)"
    by (rule exI [of _ "sealed (rejected_body ref oid sd reason) @ drop 36 buf"])
       (use assms body in \<open>simp add: send_report_sealed rejected_layout\<close>)
  show "\<exists>buf'. length buf' = 64 \<and> send_report (ouch_encode_book l bp bv ap av) (buf, s) =
      Some (buf', s\<lparr>tr_sent := tr_sent s @ [sealed (book_body l bp bv ap av)]\<rparr>)"
    by (rule exI [of _ "sealed (book_body l bp bv ap av) @ drop 34 buf"])
       (use assms body in \<open>simp add: send_report_sealed book_layout\<close>)
qed

text \<open>The reports an order and the engine's responses to it call for.\<close>

definition trade_reports :: "u64 \<Rightarrow> ouch_enter \<Rightarrow> response list \<Rightarrow> u8 list list" where
  "trade_reports ref ord rs = concat (map (\<lambda>r. case r of
     RSP_TRADE l x sd pr q \<Rightarrow> [sealed (executed_body ref (oe_order_id ord) (oe_side ord) (oe_shares ord)
        (ucast (ucast (oe_price ord) :: u32)) q (ucast pr))] | _ \<Rightarrow> []) rs)"

definition enter_reports :: "u64 \<Rightarrow> ouch_enter \<Rightarrow> response list \<Rightarrow> u8 list list" where
  "enter_reports ref ord rs =
     (let oid = oe_order_id ord; sd = oe_side ord; tif = tif_of (oe_tif ord) in
      if tif = FOK \<and> RSP_ERROR FOK_NO_FULL_FILL \<in> set rs then [sealed (rejected_body ref oid sd FOKNOFILL)]
      else sealed (accepted_body 65 ref oid sd (oe_shares ord) (oe_symbol_id ord)) # trade_reports ref ord rs @
        (if list_ex is_trade rs \<or> tif = DAY then []
         else [sealed (executed_body ref oid sd (oe_shares ord) (ucast (ucast (oe_price ord) :: u32)) 0 0)]))"

lemma report_trades_sent:
  "length buf = 64 \<Longrightarrow> \<exists>buf'. length buf' = 64 \<and> report_trades ref ord (ucast (oe_price ord)) rs (buf, s) =
     Some (buf', s\<lparr>tr_sent := tr_sent s @ trade_reports ref ord rs\<rparr>)"
proof (induction rs arbitrary: buf s)
  case (Cons r rs)
  show ?case
  proof (cases r)
    case (RSP_TRADE l x sd pr q)
    let ?b = "executed_body ref (oe_order_id ord) (oe_side ord) (oe_shares ord) (ucast (ucast (oe_price ord) :: u32)) q (ucast pr)"
    obtain buf1 where b1: "length buf1 = 64" "send_report (ouch_encode_executed ref (oe_order_id ord) (oe_side ord) (oe_shares ord)
        (ucast (ucast (oe_price ord) :: u32)) q (ucast pr)) (buf, s) = Some (buf1, s\<lparr>tr_sent := tr_sent s @ [sealed ?b]\<rparr>)"
      using send_reports(3) [OF Cons.prems] by blast
    from Cons.IH [OF b1(1), of "s\<lparr>tr_sent := tr_sent s @ [sealed ?b]\<rparr>"] b1(2) RSP_TRADE show ?thesis
      by (auto simp: trade_reports_def)
  qed (use Cons.IH [OF Cons.prems, of s] in \<open>simp_all add: trade_reports_def\<close>)
qed (simp add: trade_reports_def)

text \<open>The reference number an order has or gets, and the server knowing it.\<close>

lemma ref_for_other [simp]:
  "tr_engine (snd (ref_for oid s)) = tr_engine s" "tr_sent (snd (ref_for oid s)) = tr_sent s"
  "order_locate (snd (ref_for oid s)) = order_locate s"
  by (auto simp: ref_for_def split: option.split)

lemma ref_for_known: "id_to_ref (snd (ref_for oid s)) oid = Some (fst (ref_for oid s))"
  by (auto simp: ref_for_def split: option.split)

definition entry_side :: "ouch_enter \<Rightarrow> side" where
  "entry_side ord = (if oe_side ord = 83 then SELL else BUY)"

definition entry_command :: "ouch_enter \<Rightarrow> command" where
  "entry_command ord = Add (oe_symbol_id ord) (oe_order_id ord) (entry_side ord) (ucast (oe_price ord)) (oe_shares ord) (oe_order_id ord)
     (tif_of (oe_tif ord))"

lemma handleEnter_exec:
  assumes stack: "length stack = 64" and ex: "exec (entry_command ord) (tr_engine s) = Some (rs, e)"
  shows "handleEnter stack ord s = Some ((snd (ref_for (oe_order_id ord) s))\<lparr>
      order_locate := (order_locate s)(oe_order_id ord \<mapsto> oe_symbol_id ord), tr_engine := e,
      tr_sent := tr_sent s @ enter_reports (fst (ref_for (oe_order_id ord) s)) ord rs\<rparr>)"
proof -
  obtain ref s1 where r: "ref_for (oe_order_id ord) s = (ref, s1)" by fastforce
  have s1: "tr_engine s1 = tr_engine s" "tr_sent s1 = tr_sent s" "order_locate s1 = order_locate s"
    using ref_for_other [of "oe_order_id ord" s] r by simp_all
  define s3 where "s3 = s1\<lparr>order_locate := (order_locate s1)(oe_order_id ord \<mapsto> oe_symbol_id ord), tr_engine := e\<rparr>"
  define tif where "tif = tif_of (oe_tif ord)"
  have add: "processAdd (oe_symbol_id ord) (oe_order_id ord) (if oe_side ord = 83 then SELL else BUY) (ucast (oe_price ord)) (oe_shares ord)
      (oe_order_id ord) tif [] (tr_engine s) = Some (rs, e)"
    using ex by (simp add: entry_command_def entry_side_def tif_def)
  obtain b1 where b1: "length b1 = 64" "send_report (ouch_encode_accepted ref (oe_order_id ord) (oe_side ord) (oe_shares ord) (oe_symbol_id ord)) (stack, s3) =
      Some (b1, s3\<lparr>tr_sent := tr_sent s @ [sealed (accepted_body 65 ref (oe_order_id ord) (oe_side ord) (oe_shares ord) (oe_symbol_id ord))]\<rparr>)" (is "_ = Some (_, ?s4)")
    using send_reports(1) [OF stack, of ref "oe_order_id ord" "oe_side ord" "oe_shares ord" "oe_symbol_id ord" s3] s1(2)
    by (auto simp: s3_def)
  obtain b2 where b2: "length b2 = 64" "report_trades ref ord (ucast (oe_price ord)) rs (b1, ?s4) =
      Some (b2, ?s4\<lparr>tr_sent := tr_sent ?s4 @ trade_reports ref ord rs\<rparr>)"
    using report_trades_sent [OF b1(1)] by blast
  show ?thesis
    using add b1(2) b2(2) send_reports(3) [OF b2(1), of ref "oe_order_id ord" "oe_side ord" "oe_shares ord" "ucast (ucast (oe_price ord) :: u32)" 0 0
        "?s4\<lparr>tr_sent := tr_sent ?s4 @ trade_reports ref ord rs\<rparr>"]
      send_reports(4) [OF stack, of ref "oe_order_id ord" "oe_side ord" FOKNOFILL s3]
    by (auto simp: handleEnter_def r s1 Let_def tif_def [symmetric] s3_def enter_reports_def)
qed

definition cancel_reports :: "u64 \<Rightarrow> u64 \<Rightarrow> u64 \<Rightarrow> response list \<Rightarrow> u8 list list" where
  "cancel_reports ref oid l rs = concat (map (\<lambda>r. case r of
     RSP_CANCELLED x \<Rightarrow> [sealed (accepted_body 67 ref oid 66 0 l)] | _ \<Rightarrow> []) rs)"

lemma report_cancels_sent:
  "length stack = 64 \<Longrightarrow> report_cancels stack ref oid l rs s = Some (s\<lparr>tr_sent := tr_sent s @ cancel_reports ref oid l rs\<rparr>)"
proof (induction rs arbitrary: s)
  case (Cons r rs)
  show ?case
  proof (cases r)
    case (RSP_CANCELLED x)
    then show ?thesis using send_reports(2) [OF Cons.prems, of ref oid 66 0 l s] Cons.IH [OF Cons.prems]
      by (auto simp: cancel_reports_def)
  qed (use Cons.IH [OF Cons.prems, of s] in \<open>simp_all add: cancel_reports_def\<close>)
qed (simp add: cancel_reports_def)

section \<open>Order reference numbers\<close>

definition same_refs :: "trade_server \<Rightarrow> trade_server \<Rightarrow> bool" where
  "same_refs s s' \<longleftrightarrow> id_to_ref s' = id_to_ref s \<and> next_ref s' = next_ref s"

lemma send_report_refs: "send_report encode (buf, s) = Some (buf', s') \<Longrightarrow> same_refs s s'"
  by (auto simp: send_report_def same_refs_def bind_eq_Some_conv)

lemma report_trades_refs: "report_trades ref ord pc rs (buf, s) = Some (buf', s') \<Longrightarrow> same_refs s s'"
proof (induction ref ord pc rs "(buf, s)" arbitrary: buf s rule: report_trades.induct)
  case (2 ref ord pc l r sd pr q rs)
  then obtain bs1 where "send_report (ouch_encode_executed ref (oe_order_id ord) (oe_side ord) (oe_shares ord) (ucast pc) q (ucast pr)) (buf, s) = Some bs1"
    "report_trades ref ord pc rs bs1 = Some (buf', s')" by (auto simp: bind_eq_Some_conv)
  then show ?case using 2(1) send_report_refs by (cases bs1) (fastforce simp: same_refs_def)
qed (simp_all add: same_refs_def)

lemma report_cancels_refs: "report_cancels stack ref oid l rs s = Some s' \<Longrightarrow> same_refs s s'"
proof (induction stack ref oid l rs s rule: report_cancels.induct)
  case (2 stack ref oid l x rs s)
  then obtain bs where "send_report (ouch_encode_canceled ref oid 66 0 l) (stack, s) = Some bs"
    "report_cancels stack ref oid l rs (snd bs) = Some s'" by (auto simp: bind_eq_Some_conv)
  then show ?case using 2(1) send_report_refs [of _ stack s] by (cases bs) (fastforce simp: same_refs_def)
qed (simp_all add: same_refs_def)

lemma same_refs_upd [simp]:
  "same_refs (s\<lparr>order_locate := f\<rparr>) s' = same_refs s s'" "same_refs (s\<lparr>tr_engine := e\<rparr>) s' = same_refs s s'"
  by (simp_all add: same_refs_def)

lemma handleEnter_refs:
  assumes "handleEnter stack ord s = Some s'"
  shows "same_refs (snd (ref_for (oe_order_id ord) s)) s'"
proof -
  obtain ref s1 where r: "ref_for (oe_order_id ord) s = (ref, s1)" by fastforce
  have tr: "same_refs a c" if "same_refs a b" "same_refs b c" for a b c using that by (simp add: same_refs_def)
  show ?thesis
    using assms unfolding handleEnter_def r
    by (auto simp: Let_def bind_eq_Some_conv split: if_splits
        dest!: send_report_refs report_trades_refs intro: tr)
qed

lemma handleCancel_refs:
  assumes "handleCancel stack oid n s = Some s'"
  shows "same_refs (snd (ref_for oid s)) s'"
proof -
  obtain ref s1 where r: "ref_for oid s = (ref, s1)" by fastforce
  show ?thesis using assms report_cancels_refs unfolding handleCancel_def r
    by (fastforce simp: bind_eq_Some_conv same_refs_def split: option.splits)
qed

lemma handle_message_refs:
  assumes "handle_message stack ord0 m s = Some s'"
  shows "same_refs s s' \<or> (\<exists>oid. same_refs (snd (ref_for oid s)) s')"
proof -
  obtain t where t: "byte_at 0 m = Some t" using assms by (auto simp: handle_message_def bind_eq_Some_conv)
  consider "t = kOuchMsgOrder" | "t \<noteq> kOuchMsgOrder" "t = kOuchMsgBookReq" | "t \<noteq> kOuchMsgOrder" "t \<noteq> kOuchMsgBookReq" by blast
  then show ?thesis
  proof cases
    case 1
    then show ?thesis using assms t handleEnter_refs
      by (auto simp: handle_message_def bind_eq_Some_conv same_refs_def split: if_splits)
  next
    case 2
    then show ?thesis using assms t send_report_refs
      by (fastforce simp: handle_message_def bind_eq_Some_conv same_refs_def split: if_splits prod.splits response.splits)
  next
    case 3
    then obtain tok where "handleCancel stack (strtoull (tok @ [0])) 0 s = Some s'"
      using assms t by (auto simp: handle_message_def bind_eq_Some_conv)
    then show ?thesis using handleCancel_refs by blast
  qed
qed

text \<open>Numbers handed out so far are positive, below the next one, and different.\<close>

definition refs_inv :: "trade_server \<Rightarrow> bool" where
  "refs_inv s \<longleftrightarrow> (\<forall>oid r. id_to_ref s oid = Some r \<longrightarrow> 0 < r \<and> r < next_ref s) \<and> inj_on (id_to_ref s) (dom (id_to_ref s)) \<and> 0 < next_ref s"

lemma ref_for_inv:
  assumes inv: "refs_inv s" and room: "unat (next_ref s) + 1 < 2 ^ 64"
  shows "refs_inv (snd (ref_for oid s))" "id_to_ref s \<subseteq>\<^sub>m id_to_ref (snd (ref_for oid s))"
    "unat (next_ref (snd (ref_for oid s))) \<le> unat (next_ref s) + 1"
proof -
  have n: "unat (next_ref s + 1) = unat (next_ref s) + 1" using room by (simp add: unat_word_ariths)
  then have lt: "r < next_ref s \<Longrightarrow> r < next_ref s + 1" "next_ref s < next_ref s + 1" "0 < next_ref s + 1" for r
    by (simp_all add: word_less_nat_alt)
  show "id_to_ref s \<subseteq>\<^sub>m id_to_ref (snd (ref_for oid s))" "unat (next_ref (snd (ref_for oid s))) \<le> unat (next_ref s) + 1"
    using n by (auto simp: ref_for_def map_le_def split: option.split)
  show "refs_inv (snd (ref_for oid s))"
  proof (cases "id_to_ref s oid")
    case None
    have new: "Some (next_ref s) \<notin> id_to_ref s ` dom (id_to_ref s)" using inv by (force simp: refs_inv_def)
    have "inj_on ((id_to_ref s)(oid \<mapsto> next_ref s)) (insert oid (dom (id_to_ref s)))"
      using inv new None by (auto simp: refs_inv_def inj_on_def dom_def image_iff) metis+
    then show ?thesis using inv None lt by (auto simp: refs_inv_def ref_for_def)
  qed (use inv in \<open>simp add: ref_for_def\<close>)
qed

fun handle_messages :: "u8 list \<Rightarrow> ouch_enter \<Rightarrow> u8 list list \<Rightarrow> trade_server \<Rightarrow> trade_server option" where
  "handle_messages stack ord0 [] s = Some s"
| "handle_messages stack ord0 (m # ms) s = do { s1 \<leftarrow> handle_message stack ord0 m s; handle_messages stack ord0 ms s1 }"

lemma handle_messages_refs:
  assumes "refs_inv s" and "unat (next_ref s) + length ms < 2 ^ 64" and "handle_messages stack ord0 ms s = Some s'"
  shows "refs_inv s' \<and> id_to_ref s \<subseteq>\<^sub>m id_to_ref s' \<and> unat (next_ref s') \<le> unat (next_ref s) + length ms"
  using assms
proof (induction ms arbitrary: s)
  case (Cons m ms)
  then obtain s1 where s1: "handle_message stack ord0 m s = Some s1" "handle_messages stack ord0 ms s1 = Some s'"
    by (auto simp: bind_eq_Some_conv)
  have room: "unat (next_ref s) + 1 < 2 ^ 64" using Cons.prems(2) by simp
  have "refs_inv s1 \<and> id_to_ref s \<subseteq>\<^sub>m id_to_ref s1 \<and> unat (next_ref s1) \<le> unat (next_ref s) + 1"
    using handle_message_refs [OF s1(1)] ref_for_inv [OF Cons.prems(1) room] Cons.prems(1)
    by (fastforce simp: same_refs_def refs_inv_def)
  then show ?case using Cons.IH [of s1] Cons.prems(2) s1(2) map_le_trans by fastforce
qed simp

section \<open>Properties\<close>



definition sell_entry :: ouch_enter where
  "sell_entry = \<lparr>oe_order_id = 14, oe_side = 83, oe_shares = 6, oe_symbol_id = 1, oe_price = 90, oe_tif = 68\<rparr>"



text \<open>A book with one order entered through the port.\<close>

definition own1 :: engine where
  "own1 = snd (the (exec (Add 1 11 BUY 100 5 11 DAY) demo0))"

lemma own1: "engine_ok own1" "engine_view own1 = (\<lambda>_ _. [])(1 := (\<lambda>_. [])(BUY := [resting 11 11 BUY 100 5 1]))"
proof -
  let ?c = "Add 1 11 BUY 100 5 11 DAY"
  have v: "engine_view demo0 = (\<lambda>_ _. [])" and n: "next_sequence demo0 = 1"
    unfolding demo0_def by (simp_all add: new_engine_rep(3)) (simp add: new_engine_owned_def new_engine_def bump_def)
  have f: "free_slots demo0 = 4" by code_simp
  have sp: "spec_exec (free_slots demo0) (next_sequence demo0) ?c (engine_view demo0 (locate_of ?c)) =
      ([RSP_OK 11], (\<lambda>_. [])(BUY := [resting 11 11 BUY 100 5 1]))"
    by (simp add: v n f spec_add_def spec_accept_def add_limit_def enqueue_def resting_def fun_eq_iff demo_simps)
  have a: "admissible demo0 ?c" by code_simp
  obtain e' where e': "exec ?c demo0 = Some ([RSP_OK 11], e')" "engine_ok e'"
      "engine_view e' = (engine_view demo0)(locate_of ?c := (\<lambda>_. [])(BUY := [resting 11 11 BUY 100 5 1]))"
    using exec_refines [OF demo0_ok a sp] by blast
  have "own1 = e'" unfolding own1_def e'(1) by (simp only: option.sel snd_conv)
  then show "engine_ok own1" "engine_view own1 = (\<lambda>_ _. [])(1 := (\<lambda>_. [])(BUY := [resting 11 11 BUY 100 5 1]))"
    using e'(2,3) v by (simp_all only: locate_of.simps)
qed


text \<open>
  C37: order reference numbers identify orders.  Whatever messages clients send to a new server, well-formed or not,
  a number once given to an order identifier never changes, two identifiers never share one, and no number is zero, for
  as long as fewer than \<open>2 ^ 64 - 1\<close> messages have arrived.
\<close>

theorem order_references_unique:
  assumes "handle_messages stack ord0 ms (new_TcpTradeServer e) = Some s" and "handle_messages stack ord0 ms' s = Some s'"
    and "length ms + length ms' < 2 ^ 64 - 1"
  shows "id_to_ref s \<subseteq>\<^sub>m id_to_ref s' \<and> inj_on (id_to_ref s') (dom (id_to_ref s')) \<and> (\<forall>oid. id_to_ref s' oid \<noteq> Some 0)"
proof -
  have new: "refs_inv (new_TcpTradeServer e)" "next_ref (new_TcpTradeServer e) = 1"
    by (simp_all add: refs_inv_def new_TcpTradeServer_def)
  have 1: "refs_inv s" "unat (next_ref s) \<le> 1 + length ms"
    using handle_messages_refs [OF new(1) _ assms(1)] new(2) assms(3) by auto
  then show ?thesis using handle_messages_refs [OF 1(1) _ assms(2)] assms(3) by (auto simp: refs_inv_def)
qed

definition cancel_seven :: "u8 list" where
  "cancel_seven = 88 # token 7 @ [0, 0, 0, 0]"

theorem order_references_unique_witness:
  "\<exists>s'. handle_messages (replicate 64 0) sell_entry [cancel_seven] (new_TcpTradeServer demo0) = Some s' \<and>
     id_to_ref s' 7 = Some 1 \<and> inj_on (id_to_ref s') (dom (id_to_ref s'))"
proof -
  let ?s = "(new_TcpTradeServer demo0)\<lparr>id_to_ref := [7 \<mapsto> 1], next_ref := 2\<rparr>"
  have "bytes_at 1 14 cancel_seven = Some (token 7)" "byte_at 0 cancel_seven = Some 88"
    by (simp_all add: cancel_seven_def buf_simps)
  then have h: "handle_messages (replicate 64 0) sell_entry [cancel_seven] (new_TcpTradeServer demo0) = Some ?s"
    using strtoull_token [of 7]
    by (simp add: handle_message_def ouch_consts handleCancel_def ref_for_def new_TcpTradeServer_def)
  from order_references_unique [of _ _ "[]", OF _ h] h show ?thesis by simp
qed

end
