(* ===== verification/Engine_Log.thy ===== *)
theory Engine_Log
  imports Matching_Theorems
begin

text \<open>
  What the handlers write besides the books: the entries they append to the write-ahead log and the
  sequence numbers they give out.
\<close>

section \<open>Matching neither logs nor numbers\<close>

definition log_of :: "engine \<Rightarrow> wal_writer option \<times> u64" where
  "log_of e = (wal e, next_sequence e)"

lemma log_fields [simp]:
  "log_of (put_book l b e) = log_of e" "log_of (touch l e) = log_of e" "log_of (set_pool_used b e) = log_of e"
  "log_of (bump f e) = log_of e" "log_of (snd (fail_with c out e)) = log_of e"
  by (simp_all add: log_of_def put_book_def touch_def set_pool_used_def bump_def fail_with_def)

lemma log_fail: "fail_with c out e = (out', e') \<Longrightarrow> log_of e' = log_of e"
  using log_fields(5) [of c out e] by simp

lemma log_record [simp]:
  fixes e :: engine
  shows
  "log_of (record_buy_trade a b q e) = log_of e" "log_of (record_sell_trade a b q e) = log_of e"
  by (auto simp: log_of_def record_buy_trade_def record_sell_trade_def bump_def Let_def split: option.split prod.split)

lemma log_fill:
  fixes e :: engine
  assumes "(if s = BUY then buy_fill else sell_fill) l x b ord out e = Some (b', ord', out', e')"
  shows "log_of e' = log_of e"
proof (cases "s = BUY")
  case True
  then show ?thesis using assms by (fastforce simp: buy_fill_def Let_def split: bind_splits)
next
  case False
  then show ?thesis using assms by (fastforce simp: sell_fill_def Let_def split: bind_splits)
qed

lemma log_match:
  fixes e :: engine
  shows "matchBuyOrder l b ord out e = Some res \<Longrightarrow> log_of (snd (snd (snd res))) = log_of e"
    and "matchSellOrder l b ord out e = Some res \<Longrightarrow> log_of (snd (snd (snd res))) = log_of e"
proof -
  note fill = log_fill [of BUY, simplified]
  assume m: "matchBuyOrder l b ord out e = Some res"
  show "log_of (snd (snd (snd res))) = log_of e"
  proof (rule matchBuyOrder.raw_induct [OF _ m], goal_cases)
    case (1 f l b ord out e res)
    then show ?case by (auto split: if_splits bind_splits option.splits prod.splits dest!: fill)
  qed
next
  note fill = log_fill [of SELL, simplified]
  assume m: "matchSellOrder l b ord out e = Some res"
  show "log_of (snd (snd (snd res))) = log_of e"
  proof (rule matchSellOrder.raw_induct [OF _ m], goal_cases)
    case (1 f l b ord out e res)
    then show ?case by (auto split: if_splits bind_splits option.splits prod.splits dest!: fill)
  qed
qed

lemma log_match_order:
  fixes e :: engine
  shows "match_order s l b ord out e = Some (b', ord', out', e') \<Longrightarrow> log_of e' = log_of e"
  using log_match [of l b ord out e "(b', ord', out', e')"] by (auto simp: match_order_def split: if_splits side.splits)

lemma log_rest_order: "rest_order l ref ord b out e = Some (out', e') \<Longrightarrow> log_of e' = log_of e"
  by (auto simp: rest_order_def Let_def fail_with_def split: bind_splits if_splits)

lemma log_accept:
  assumes "accept_order l tif ord b out e = Some (out', e')"
  shows "log_of e' = log_of e"
proof -
  obtain b2 o1 out1 e3 where m: "match_order (side_of ord) l b ord out e = Some (b2, o1, out1, e3)"
    using assms by (cases "match_order (side_of ord) l b ord out e") (auto simp: accept_order_def)
  note w = log_match_order [OF m]
  show ?thesis using assms w unfolding accept_order_def m
    by (auto simp: Let_def fail_with_def split: if_splits dest!: log_rest_order)
qed

section \<open>What a request logs\<close>

fun logged :: "engine \<Rightarrow> command \<Rightarrow> wal_entry list" where
  "logged e (Add l ref s pr q uid tif) =
     (if l \<ge> kMaxLocate \<or> s = INVALID \<or> (tif = DAY \<and> pr = 0) \<or> q = 0 \<or> uid = 0 \<or> ref = 0 \<or>
        (tif = FOK \<and> fillable_qty s (add_limit s pr tif) (engine_view e l (opp s)) < q) then []
      else [\<lparr>we_type = 0x01, we_side = (if s = BUY then 0x01 else 0x02), we_locate = ucast l,
        we_price = add_limit s pr tif, we_quantity = q, we_user_id = uid, we_order_id = ref,
        we_wal_seq = next_sequence e + 1\<rparr>])"
| "logged e (Cancel l ref uid) =
     (if l \<ge> kMaxLocate then []
      else [\<lparr>we_type = 0x02, we_side = 0, we_locate = ucast l, we_price = 0, we_quantity = 0,
        we_user_id = uid, we_order_id = ref, we_wal_seq = next_sequence e\<rparr>])"
| "logged e (CancelShares l ref n uid) =
     (if l \<ge> kMaxLocate then []
      else [\<lparr>we_type = 0x03, we_side = 0, we_locate = ucast l, we_price = 0, we_quantity = n,
        we_user_id = uid, we_order_id = ref, we_wal_seq = next_sequence e\<rparr>])"
| "logged e (Replace l old new s pr q uid) =
     (if l \<ge> kMaxLocate then []
      else [\<lparr>we_type = 0x04, we_side = 0, we_locate = ucast l, we_price = pr, we_quantity = q,
        we_user_id = uid, we_order_id = new, we_wal_seq = next_sequence e\<rparr>])"

lemma appends_one: "appends [en] = wal_append en"
  by (simp add: appends_def fun_eq_iff)

lemma wal_appends: "map_option (appends []) w = w"
  by (cases w) (simp_all add: appends_def)

text \<open>The requests that take a sequence number.\<close>

fun numbered :: "engine \<Rightarrow> command \<Rightarrow> bool" where
  "numbered e (Add l ref s pr q uid tif) \<longleftrightarrow> logged e (Add l ref s pr q uid tif) \<noteq> []"
| "numbered e (Replace l old new s pr q uid) \<longleftrightarrow> \<not> kMaxLocate \<le> l \<and>
     (case find_ref old (engine_view e l) of None \<Rightarrow> False | Some r \<Rightarrow> user_id r = uid)"
| "numbered e _ \<longleftrightarrow> False"

lemma log_touch: "log_of (wal_log en (touch l (bump f e))) = (map_option (appends [en]) (wal e), next_sequence e)"
  by (simp add: wal_log_def log_of_def appends_one touch_def put_book_def bump_def)

lemma log_number: "log_of (wal_log en ((touch l (bump f e))\<lparr>next_sequence := n\<rparr>)) = (map_option (appends [en]) (wal e), n)"
  "log_of ((wal_log en (touch l (bump f e)))\<lparr>next_sequence := n\<rparr>) = (map_option (appends [en]) (wal e), n)"
  by (simp_all add: wal_log_def log_of_def appends_one touch_def put_book_def bump_def)

lemma exec_log:
  assumes ok: "engine_ok e" and adm: "admissible e c" and ex: "exec c e = Some (rs, e')"
  shows "log_of e' = (map_option (appends (logged e c)) (wal e), next_sequence e + of_bool (numbered e c))"
proof -
  obtain R fl where rep: "engine_rep e R fl" and idx: "all_indexed e fl" using ok by (auto simp: engine_ok_def)
  have same: "log_of e = (map_option (appends []) (wal e), next_sequence e)" by (simp add: log_of_def wal_appends)
  show ?thesis
  proof (cases c)
    case (Add l ref s pr q uid tif)
    have "canFullFill (book_at l e) s lim q = Some (fillable_qty s lim (engine_view e l (opp s)) \<ge> q)" if "s \<noteq> INVALID" for lim
      using that availableQty_rep [OF engine_repD [OF rep, of l] that, of lim]
      by (simp add: canFullFill_def fillable_qty_def engine_view_def book_view_def)
    then show ?thesis using ex
      by (auto simp: Add processAdd_unfold book_for_eq same log_number engine_simps split: if_splits dest!: log_accept log_fail)
  next
    case (Cancel l ref uid)
    then show ?thesis using ex
      by (auto simp: processCancel_def book_for_eq Let_def same log_touch engine_simps split: if_splits bind_splits dest!: log_fail)
  next
    case (CancelShares l ref n uid)
    then show ?thesis using ex
      by (auto simp: processCancelShares_def book_for_eq Let_def same log_touch engine_simps
          split: if_splits bind_splits option.splits dest!: log_fail)
  next
    case (Replace l old new s pr q uid)
    show ?thesis
    proof (cases "kMaxLocate \<le> l")
      case True
      then show ?thesis using ex Replace by (auto simp: processReplace_def book_for_eq same dest!: log_fail)
    next
      case l: False
      have fd: "findOrder old (book_at l e) = Some (map_abs (shared_index e) old)"
        using find_index [OF rep, of l old] by (simp add: findOrder_def)
      show ?thesis
      proof (cases "map_abs (shared_index e) old")
        case None
        then show ?thesis using ex Replace l fd lookup_missing [OF rep idx None, of l]
          by (auto simp: processReplace_def book_for_eq Let_def log_touch engine_simps dest!: log_fail)
      next
        case (Some x)
        have "routed e l old" using adm Replace by simp
        note lk = lookup_found [OF rep idx this Some]
        show ?thesis using ex Replace l fd Some lk(3) pool_at_own [OF rep lk(1)]
          by (auto simp: processReplace_def book_for_eq Let_def log_touch log_number engine_simps
              split: if_splits bind_splits dest!: log_fail log_match_order log_rest_order)
      qed
    qed
  qed
qed

end
