(* ===== verification/Engine_Invariants.thy ===== *)
theory Engine_Invariants
  imports Engine_Log
begin

text \<open>
  What holds of the books of every engine that has only served admissible requests: they are not
  crossed, and their queues are in price-time order.  What the time in force of an order promises.
\<close>

section \<open>What matching leaves behind\<close>

lemma matches_members:
  assumes "matches s o' q o1 q1 ts" and "r \<in> set q1"
  shows "\<exists>r' \<in> set q. price r' = price r \<and> user_id r' = user_id r \<and> sequence r' = sequence r"
  using assms by induction auto

lemma matches_rest:
  assumes "matches s o' q o1 q1 ts" and "remaining_qty o' \<noteq> 0" and "status o1 \<noteq> FILLED"
  shows "remaining_qty o1 \<noteq> 0"
  using matches_status [OF assms(1)] assms(2,3) by (cases "ts = []") (auto split: if_splits)

text \<open>The two ways an accepted order can change the queues.\<close>

lemma spec_accept_cases:
  assumes "spec_accept free l tif o' Q = (rs, Q')" and "side_of o' \<noteq> INVALID"
  obtains ord q ts where "matches (side_of o') o' (Q (opp (side_of o'))) ord q ts" "Q' = Q(opp (side_of o') := q)"
  | ord q ts where "matches (side_of o') o' (Q (opp (side_of o'))) ord q ts" "status ord \<noteq> FILLED" "tif = DAY"
      "Q' = Q(opp (side_of o') := q, side_of o' := enqueue (side_of o') (core ord) (Q (side_of o')))"
proof -
  obtain ord q ts where m: "match_queue (side_of o') o' (Q (opp (side_of o'))) = (ord, q, ts)"
    by (cases "match_queue (side_of o') o' (Q (opp (side_of o')))")
  show ?thesis using assms(1) that match_queue_matches [OF m]
    by (cases tif) (auto simp: spec_accept_def m Let_def split: if_splits)
qed

section \<open>Books are never crossed\<close>

text \<open>A bid at or above an ask is one the self-trade rule kept from trading: both belong to one user.\<close>

definition uncrossed :: "(side \<Rightarrow> order list) \<Rightarrow> bool" where
  "uncrossed Q \<longleftrightarrow> (\<forall>b \<in> set (Q BUY). \<forall>a \<in> set (Q SELL). price a \<le> price b \<longrightarrow> user_id a = user_id b)"

lemma uncrossed_side:
  assumes "s \<noteq> INVALID"
  shows "uncrossed Q \<longleftrightarrow> (\<forall>x \<in> set (Q s). \<forall>y \<in> set (Q (opp s)). acceptable s (price x) (price y) \<longrightarrow> user_id y = user_id x)"
  using assms by (cases s) (auto simp: uncrossed_def acceptable_def)

lemma uncrossed_sub:
  assumes "uncrossed Q" and "\<And>s r. r \<in> set (Q' s) \<Longrightarrow> \<exists>r' \<in> set (Q s). price r' = price r \<and> user_id r' = user_id r"
  shows "uncrossed Q'"
  unfolding uncrossed_def
proof (intro ballI impI)
  fix b a assume b: "b \<in> set (Q' BUY)" and a: "a \<in> set (Q' SELL)" and p: "price a \<le> price b"
  obtain b1 where "b1 \<in> set (Q BUY)" "price b1 = price b" "user_id b1 = user_id b" using assms(2) [OF b] by blast
  moreover obtain a1 where "a1 \<in> set (Q SELL)" "price a1 = price a" "user_id a1 = user_id a" using assms(2) [OF a] by blast
  ultimately show "user_id a = user_id b" using assms(1) p unfolding uncrossed_def by metis
qed

lemma set_enqueue: "set (enqueue s o' q) = insert o' (set q)" "length (enqueue s o' q) = Suc (length q)"
proof -
  let ?P = "\<lambda>r. \<not> level_lt s (price o') (price r)"
  have "set (takeWhile ?P q) \<union> set (dropWhile ?P q) = set q" "length (takeWhile ?P q) + length (dropWhile ?P q) = length q"
    by (metis set_append takeWhile_dropWhile_id, metis length_append takeWhile_dropWhile_id)
  then show "set (enqueue s o' q) = insert o' (set q)" "length (enqueue s o' q) = Suc (length q)"
    unfolding enqueue_def by (simp_all add: insert_commute)
qed

lemma accept_uncrossed:
  assumes spec: "spec_accept free l tif o' Q = (rs, Q')" and s: "side_of o' \<noteq> INVALID" and q: "remaining_qty o' \<noteq> 0"
    and un: "uncrossed Q" and sorted: "priority_sorted (opp (side_of o')) (Q (opp (side_of o')))"
  shows "uncrossed Q'"
  using spec s
proof (cases rule: spec_accept_cases)
  case (1 ord q' ts)
  show ?thesis by (rule uncrossed_sub [OF un]) (use matches_members [OF 1(1)] 1(2) in \<open>auto split: if_splits\<close>)
next
  case (2 ord q' ts)
  let ?s = "side_of o'"
  have so: "?s \<noteq> opp ?s" using opp_neq [OF s] by auto
  have f: "user_id ord = user_id o'" "price ord = price o'" using matches_fields [OF 2(1)] by simp_all
  have "\<not> acceptable ?s (price o') (price y)" if "y \<in> set q'" "user_id y \<noteq> user_id o'" for y
    using matches_no_cross [OF 2(1) s sorted matches_rest [OF 2(1) q 2(2)]] that by (auto simp: eligible_def)
  moreover have "user_id y = user_id x" if "x \<in> set (Q ?s)" "y \<in> set q'" "acceptable ?s (price x) (price y)" for x y
    using un matches_members [OF 2(1) that(2)] that(1,3) unfolding uncrossed_side [OF s] by metis
  ultimately show ?thesis unfolding uncrossed_side [OF s] 2(4) using so f by (auto simp: set_enqueue)
qed

text \<open>A replacement with a quantity; the code does not check it.\<close>

fun sized :: "command \<Rightarrow> bool" where
  "sized (Replace l old new s pr q uid) \<longleftrightarrow> q \<noteq> 0"
| "sized _ \<longleftrightarrow> True"

lemma drop_ref_sub: "r \<in> set (drop_ref ref Q s) \<Longrightarrow> r \<in> set (Q s)"
  by (simp add: drop_ref_def)

lemma drop_ref_sorted: "priority_sorted s (Q s) \<Longrightarrow> priority_sorted s (drop_ref ref Q s)"
  by (simp add: priority_sorted_def drop_ref_def sorted_wrt_filter)

lemma uncrossed_cancel:
  assumes "uncrossed Q"
  shows "uncrossed (drop_ref ref Q)" and "uncrossed (change_ref ref (\<lambda>r. r\<lparr>remaining_qty := remaining_qty r - n\<rparr>) Q)"
  by (rule uncrossed_sub [OF assms]; fastforce simp: drop_ref_def change_ref_def)+

lemma spec_exec_uncrossed:
  assumes "spec_exec free seq c Q = (rs, Q')" and "uncrossed Q" and "\<And>s. s \<noteq> INVALID \<Longrightarrow> priority_sorted s (Q s)"
    and "sized c" and "case c of Replace _ _ _ s _ _ _ \<Rightarrow> s \<noteq> INVALID | _ \<Rightarrow> True"
  shows "uncrossed Q'"
proof (cases c)
  case (Add l ref s pr q uid tif)
  then show ?thesis using assms accept_uncrossed [of free l tif "incoming uid ref s (add_limit s pr tif) q seq" Q rs Q']
    by (auto simp: spec_add_def split: if_splits)
next
  case (Cancel l ref uid)
  then show ?thesis using assms(1,2) uncrossed_cancel [OF assms(2)]
    by (auto simp: spec_cancel_def split: option.splits if_splits)
next
  case (CancelShares l ref n uid)
  then show ?thesis using assms(1,2) uncrossed_cancel [OF assms(2)]
    by (auto simp: spec_cancel_shares_def split: option.splits if_splits)
next
  case (Replace l old new s pr q uid)
  then show ?thesis using assms uncrossed_cancel [OF assms(2)] drop_ref_sorted
      accept_uncrossed [of "Suc free" l DAY "incoming new new s pr q seq" "drop_ref old Q" rs Q']
    by (auto simp: spec_replace_def split: option.splits if_splits)
qed

lemma view_sorted: "engine_ok e \<Longrightarrow> s \<noteq> INVALID \<Longrightarrow> priority_sorted s (engine_view e l s)"
  using book_inv_sorted [OF engine_book_inv] by (simp add: engine_view_def book_view_def)

lemma reaches_uncrossed:
  assumes "reaches e0 cs rs e" and "engine_ok e0" and "\<And>l. uncrossed (engine_view e0 l)" and "list_all sized cs"
  shows "uncrossed (engine_view e l)"
  using assms
proof (induction arbitrary: l rule: reaches.induct)
  case (step cs rs e c rs' e')
  have ok: "engine_ok e" using reaches_ok [OF step.hyps(1) step.prems(1)] .
  have un: "uncrossed (engine_view e k)" for k using step.IH step.prems by simp
  obtain rs1 Q where sp: "spec_exec (free_slots e) (next_sequence e) c (engine_view e (locate_of c)) = (rs1, Q)" by fastforce
  have "uncrossed Q"
    using spec_exec_uncrossed [OF sp un view_sorted [OF ok]] step.prems(3) step.hyps(2) by (cases c) auto
  then show ?case using exec_refines [OF ok step.hyps(2) sp] step.hyps(3) un by auto
qed simp

section \<open>Time order\<close>

lemma level_lt_total: "\<not> level_lt s p q \<Longrightarrow> p = q \<or> level_lt s q p"
  by (auto simp: level_lt_def)

text \<open>
  Among the orders of one price the one accepted first is served first; all were accepted before
  sequence number \<open>n\<close>.
\<close>

definition timely :: "u64 \<Rightarrow> order list \<Rightarrow> bool" where
  "timely n q \<longleftrightarrow> sorted_wrt (\<lambda>a b. price a = price b \<longrightarrow> sequence a < sequence b) q \<and> (\<forall>r \<in> set q. sequence r < n)"

lemma timely_later: "timely n q \<Longrightarrow> n \<le> m \<Longrightarrow> timely m q"
  by (auto simp: timely_def)

lemma timely_matches:
  assumes "matches s o' q o1 q1 ts" and "timely n q"
  shows "timely n q1"
  using assms
proof induction
  case (m_skip o' r rs o1 rs1 ts)
  have "timely n rs1" using m_skip by (simp add: timely_def)
  moreover have "price r = price x \<longrightarrow> sequence r < sequence x" if x: "x \<in> set rs1" for x
  proof -
    obtain x1 where "x1 \<in> set rs" "price x1 = price x" "sequence x1 = sequence x"
      using matches_members [OF m_skip.hyps(3) x] by blast
    moreover have "price r = price x1 \<longrightarrow> sequence r < sequence x1" if "x1 \<in> set rs" for x1
      using m_skip.prems that by (simp add: timely_def)
    ultimately show ?thesis by metis
  qed
  ultimately show ?case using m_skip.prems by (auto simp: timely_def)
qed (auto simp: timely_def)

lemma timely_filter: "timely n q \<Longrightarrow> timely n (filter P q)"
  by (auto simp: timely_def sorted_wrt_filter)

lemma timely_map:
  assumes "timely n q" and "\<And>r. price (f r) = price r" and "\<And>r. sequence (f r) = sequence r"
  shows "timely n (map f q)"
  using assms by (auto simp: timely_def sorted_wrt_map)

lemma timely_enqueue:
  assumes q: "timely n q" and o': "sequence o' = n" and n: "n < n + 1" and sorted: "priority_sorted s q"
  shows "timely (n + 1) (enqueue s o' q)"
proof -
  let ?P = "\<lambda>r. \<not> level_lt s (price o') (price r)"
  let ?a = "takeWhile ?P q" and ?b = "dropWhile ?P q"
  have app: "?a @ ?b = q" by (rule takeWhile_dropWhile_id)
  have worse: "level_lt s (price o') (price r)" if r: "r \<in> set ?b" for r
  proof (cases ?b)
    case (Cons x xs)
    then have x: "level_lt s (price o') (price x)" using hd_dropWhile [of ?P q] by auto
    have "priority_sorted s (x # xs)" using sorted app Cons unfolding priority_sorted_def by (metis sorted_wrt_append)
    then have "r = x \<or> \<not> level_lt s (price r) (price x)" using r Cons by (auto simp: priority_sorted_def)
    then show ?thesis using x by (auto simp: level_lt_def split: if_splits)
  next
    case Nil
    with r have "r \<in> set []" by (simp only:)
    then show ?thesis by simp
  qed
  let ?R = "\<lambda>a b. price a = price b \<longrightarrow> sequence a < sequence b"
  have bd: "sequence r < n" if "r \<in> set q" for r using q that by (simp add: timely_def)
  have "sorted_wrt ?R (?a @ ?b)" using q app unfolding timely_def by simp
  then have srt: "sorted_wrt ?R ?a" "sorted_wrt ?R ?b" "\<forall>x \<in> set ?a. \<forall>y \<in> set ?b. ?R x y"
    unfolding sorted_wrt_append by blast+
  have "price o' \<noteq> price r" if "r \<in> set ?b" for r using worse [OF that] by (auto simp: level_lt_def split: if_splits)
  moreover have "sequence r < n" if "r \<in> set ?a" for r using bd set_takeWhileD [OF that] by simp
  ultimately have "sorted_wrt ?R (enqueue s o' q)"
    using srt o' unfolding enqueue_def sorted_wrt_append by simp
  moreover have "sequence r < n + 1" if "r \<in> set (enqueue s o' q)" for r
    using that bd [of r] n o' unfolding set_enqueue by auto
  ultimately show ?thesis by (simp add: timely_def)
qed

lemma accept_timely:
  assumes spec: "spec_accept free l tif o' Q = (rs, Q')" and s: "side_of o' \<noteq> INVALID"
    and o': "sequence o' = n" and n: "n < n + 1"
    and Q: "\<And>t. t \<noteq> INVALID \<Longrightarrow> timely n (Q t)" "\<And>t. t \<noteq> INVALID \<Longrightarrow> priority_sorted t (Q t)" and t: "t \<noteq> INVALID"
  shows "timely (n + 1) (Q' t)"
  using spec s
proof (cases rule: spec_accept_cases)
  case (1 ord q' ts)
  have "timely n (Q' t)" using timely_matches [OF 1(1) Q(1)] s Q(1) [OF t] 1(2) by auto
  then show ?thesis using n by (auto intro: timely_later)
next
  case (2 ord q' ts)
  have "sequence (core ord) = n" using matches_fields [OF 2(1)] o' by simp
  then have "timely (n + 1) (enqueue (side_of o') (core ord) (Q (side_of o')))" using timely_enqueue [OF Q(1) _ n Q(2)] s by simp
  moreover have "timely (n + 1) q'" using timely_matches [OF 2(1) Q(1)] s n by (auto intro: timely_later)
  moreover have "timely (n + 1) (Q t)" using Q(1) [OF t] n by (auto intro: timely_later)
  ultimately show ?thesis using 2(4) by auto
qed

lemma spec_exec_timely:
  assumes spec: "spec_exec free n c Q = (rs, Q')" and Q: "\<And>t. t \<noteq> INVALID \<Longrightarrow> timely n (Q t)" "\<And>t. t \<noteq> INVALID \<Longrightarrow> priority_sorted t (Q t)"
    and c: "case c of Replace _ _ _ s _ _ _ \<Rightarrow> s \<noteq> INVALID | _ \<Rightarrow> True" and t: "t \<noteq> INVALID"
    and num: "Q = engine_view e (locate_of c)" "numbered e c \<Longrightarrow> n < n + 1"
  shows "timely (n + of_bool (numbered e c)) (Q' t)"
proof (cases c)
  case (Add l ref s pr q uid tif)
  then show ?thesis using spec Q t num accept_timely [of free l tif "incoming uid ref s (add_limit s pr tif) q n" Q rs Q' n t]
    by (auto simp: spec_add_def split: if_splits)
next
  case (Cancel l ref uid)
  then show ?thesis using spec Q(1) [OF t]
    by (auto simp: spec_cancel_def drop_ref_def split: option.splits if_splits intro: timely_filter)
next
  case (CancelShares l ref k uid)
  then show ?thesis using spec Q(1) [OF t]
    by (auto simp: spec_cancel_shares_def drop_ref_def change_ref_def split: option.splits if_splits intro!: timely_filter timely_map)
next
  case (Replace l old new s pr q uid)
  have D: "timely n (drop_ref old Q u)" "priority_sorted u (drop_ref old Q u)" if "u \<noteq> INVALID" for u
    using timely_filter [OF Q(1) [OF that]] drop_ref_sorted [where Q = Q, OF Q(2) [OF that]] by (simp add: drop_ref_def, blast)
  show ?thesis
  proof (cases "numbered e c")
    case True
    then show ?thesis using spec Replace c num accept_timely [OF _ _ _ _ D, of "Suc free" l DAY "incoming new new s pr q n" rs Q' t] t
      by (auto simp: spec_replace_def split: option.splits if_splits)
  next
    case False
    then have "Q' = Q" using spec Replace num by (auto simp: spec_replace_def split: option.splits if_splits)
    then show ?thesis using False Q(1) [OF t] by simp
  qed
qed

lemma of_nat_Suc_less: "Suc k < 2 ^ 64 \<Longrightarrow> (of_nat k :: u64) < of_nat k + 1"
proof -
  assume k: "Suc k < 2 ^ 64"
  have "(of_nat k :: u64) + 1 = of_nat (Suc k)" by (simp add: add.commute)
  then show ?thesis using k by (simp only: word_less_nat_alt unat_of_nat) simp
qed

lemma reaches_timely:
  assumes "reaches (new_engine_owned n m) cs rs e" and "2 \<le> n" "n \<le> 2 ^ 31" and "length cs < 2 ^ 63"
  shows "(\<exists>k \<le> length cs + 1. next_sequence e = of_nat k) \<and> (\<forall>l t. t \<noteq> INVALID \<longrightarrow> timely (next_sequence e) (engine_view e l t))"
  using assms
proof (induction rule: reaches.induct)
  case start
  have "next_sequence (new_engine_owned n m) = of_nat 1" by (simp add: new_engine_owned_def new_engine_def bump_def)
  then show ?case using new_engine_rep(3) [OF start(1,2)] by (auto simp: timely_def intro: exI [of _ 1])
next
  case (step cs rs e c rs' e')
  have ok: "engine_ok e" using reaches_ok [OF step.hyps(1)] new_engine_ok step.prems by blast
  obtain k where k: "k \<le> length cs + 1" "next_sequence e = of_nat k"
    and T: "\<And>l t. t \<noteq> INVALID \<Longrightarrow> timely (next_sequence e) (engine_view e l t)" using step by auto
  have less: "next_sequence e < next_sequence e + 1" using of_nat_Suc_less [of k] k step.prems(3) by simp
  obtain rs1 Q where sp: "spec_exec (free_slots e) (next_sequence e) c (engine_view e (locate_of c)) = (rs1, Q)" by fastforce
  have c: "case c of Replace _ _ _ s _ _ _ \<Rightarrow> s \<noteq> INVALID | _ \<Rightarrow> True" using step.hyps(2) by (cases c) simp_all
  have seq: "next_sequence e' = next_sequence e + of_bool (numbered e c)"
    using exec_log [OF ok step.hyps(2,3)] by (simp add: log_of_def)
  have le: "next_sequence e \<le> next_sequence e'" using less seq by (cases "numbered e c") simp_all
  have TQ: "timely (next_sequence e') (Q t)" if "t \<noteq> INVALID" for t
    unfolding seq using spec_exec_timely [OF sp T view_sorted [OF ok] c that refl] less by simp
  moreover have "engine_view e' = (engine_view e)(locate_of c := Q)" using exec_refines [OF ok step.hyps(2) sp] step.hyps(3) by auto
  moreover have "\<exists>k' \<le> length (cs @ [c]) + 1. next_sequence e' = of_nat k'"
    using k seq by (intro exI [of _ "k + of_bool (numbered e c)"]) (cases "numbered e c"; simp)
  ultimately show ?case using T timely_later [OF _ le] by auto
qed

section \<open>Resting orders\<close>

text \<open>
  What the fields of a resting order promise: it rests on its own side, something remains of it, it never
  grew, and its status tells whether it has traded.
\<close>

definition sound_order :: "side \<Rightarrow> order \<Rightarrow> bool" where
  "sound_order s r \<longleftrightarrow> side_of r = s \<and> remaining_qty r \<noteq> 0 \<and>
     unat (filled_qty r) + unat (remaining_qty r) \<le> unat (original_qty r) \<and>
     status r = (if filled_qty r = 0 then OPEN else PARTIALLY_FILLED)"

lemma fill_sound:
  assumes r: "sound_order s r" and q: "q \<noteq> 0" "q < remaining_qty r"
  shows "sound_order s (fill q r)"
proof -
  have le: "unat q \<le> unat (remaining_qty r)" "unat (remaining_qty r - q) = unat (remaining_qty r) - unat q"
    using q(2) unat_diff_le [of q "remaining_qty r"] by simp_all
  have "unat (filled_qty r) + unat (remaining_qty r) < 2 ^ 32"
    using r unsigned_less [of "original_qty r", where 'a = nat] by (simp add: sound_order_def)
  then have "unat (filled_qty r + q) = unat (filled_qty r) + unat q" using le(1) by (simp add: unat_word_ariths)
  moreover have "unat q \<noteq> 0" using q(1) by (simp add: unat_eq_zero)
  ultimately show ?thesis using r q le unat_eq_zero [of "filled_qty r + q"] by (auto simp: sound_order_def)
qed

lemma matches_sound:
  assumes "matches s o' q o1 q1 ts" and "\<forall>r \<in> set q. sound_order t r" and "sound_order s o'"
  shows "(\<forall>r \<in> set q1. sound_order t r) \<and> (remaining_qty o1 = 0 \<or> sound_order s o1)"
  using assms
proof induction
  case (m_take o' r q rs o1 rs1 ts)
  have "q \<noteq> 0" using m_take.prems(1) m_take.hyps(4) by (simp add: sound_order_def)
  show ?case
  proof (cases "remaining_qty o' = q")
    case True
    have "matches s (fill q o') rs o1 rs1 ts" by (fact m_take.hyps(6))
    then have "remaining_qty o1 = 0 \<and> rs1 = rs" using True by cases auto
    then show ?thesis using m_take.prems by simp
  next
    case False
    then have "q < remaining_qty o'" using m_take.hyps(5) by simp
    then show ?thesis using m_take.IH m_take.prems fill_sound \<open>q \<noteq> 0\<close> by simp
  qed
next
  case (m_part o' r q rs)
  then show ?case using fill_sound [of t r q] by simp
qed auto

lemma sound_core [simp]: "sound_order s (core o') = sound_order s o'"
  by (simp add: sound_order_def)

lemma accept_sound:
  assumes spec: "spec_accept free l tif o' Q = (rs, Q')" and o': "sound_order (side_of o') o'" "side_of o' \<noteq> INVALID"
    and Q: "\<And>t r. t \<noteq> INVALID \<Longrightarrow> r \<in> set (Q t) \<Longrightarrow> sound_order t r" and t: "t \<noteq> INVALID" and r: "r \<in> set (Q' t)"
  shows "sound_order t r"
  using spec o'(2)
proof (cases rule: spec_accept_cases)
  case (1 ord q' ts)
  have "\<forall>r \<in> set q'. sound_order (opp (side_of o')) r" using matches_sound [where t = "opp (side_of o')", OF 1(1) _ o'(1)] Q o'(2) by simp
  then show ?thesis using 1(2) Q t r by (auto split: if_splits)
next
  case (2 ord q' ts)
  have "\<forall>r \<in> set q'. sound_order (opp (side_of o')) r" "remaining_qty ord = 0 \<or> sound_order (side_of o') ord"
    using matches_sound [where t = "opp (side_of o')", OF 2(1) _ o'(1)] Q o'(2) by simp_all
  moreover have "remaining_qty ord \<noteq> 0" using matches_rest [OF 2(1) _ 2(2)] o'(1) by (simp add: sound_order_def)
  ultimately show ?thesis using 2(4) Q t r by (auto simp: set_enqueue split: if_splits)
qed

lemma incoming_sound: "q \<noteq> 0 \<Longrightarrow> sound_order s (incoming uid ref s p q n)"
  by (simp add: sound_order_def)

lemma reduce_sound:
  assumes r: "sound_order s r" and n: "n < remaining_qty r"
  shows "sound_order s (r\<lparr>remaining_qty := remaining_qty r - n\<rparr>)"
  using r n unat_diff_le [of n "remaining_qty r"] by (auto simp: sound_order_def)

lemma find_SomeD: "find P xs = Some x \<Longrightarrow> x \<in> set xs \<and> P x"
  by (induction xs) (auto split: if_splits)

lemma find_ref_in: "find_ref ref Q = Some r \<Longrightarrow> r \<in> set (Q BUY) \<union> set (Q SELL) \<and> order_id r = ref"
  using find_SomeD [of "\<lambda>r. order_id r = ref" "Q BUY @ Q SELL" r] by (simp add: find_ref_def)

lemma spec_exec_sound:
  assumes spec: "spec_exec free n c Q = (rs, Q')" and Q: "\<And>t r. t \<noteq> INVALID \<Longrightarrow> r \<in> set (Q t) \<Longrightarrow> sound_order t r"
    and c: "sized c" "case c of Replace _ _ _ s _ _ _ \<Rightarrow> s \<noteq> INVALID | _ \<Rightarrow> True" and t: "t \<noteq> INVALID" and r: "r \<in> set (Q' t)"
    and ids: "\<And>x y. x \<in> set (Q BUY) \<union> set (Q SELL) \<Longrightarrow> y \<in> set (Q BUY) \<union> set (Q SELL) \<Longrightarrow> order_id x = order_id y \<Longrightarrow> x = y"
  shows "sound_order t r"
proof (cases c)
  case (Add l ref s pr q uid tif)
  then show ?thesis
    using spec Q t r accept_sound [of free l tif "incoming uid ref s (add_limit s pr tif) q n" Q rs Q' t r] incoming_sound
    by (auto simp: spec_add_def split: if_splits)
next
  case (Cancel l ref uid)
  then show ?thesis using spec Q t r drop_ref_sub
    by (auto simp: spec_cancel_def split: option.splits if_splits)
next
  case (CancelShares l ref k uid)
  have "sound_order t r" if f: "find_ref ref Q = Some x" "\<not> remaining_qty x \<le> k"
    and r': "r \<in> set (change_ref ref (\<lambda>r. r\<lparr>remaining_qty := remaining_qty r - k\<rparr>) Q t)" for x
  proof -
    obtain y where y: "y \<in> set (Q t)" "r = (if order_id y = ref then y\<lparr>remaining_qty := remaining_qty y - k\<rparr> else y)"
      using r' by (auto simp: change_ref_def)
    have "y = x" if "order_id y = ref" using ids [of y x] find_ref_in [OF f(1)] y(1) that t by (cases t) auto
    then show ?thesis using y Q [OF t y(1)] reduce_sound [of t y k] f(2) by auto
  qed
  then show ?thesis using CancelShares spec Q t r drop_ref_sub
    by (auto simp: spec_cancel_shares_def split: option.splits if_splits)
next
  case (Replace l old new s pr q uid)
  have "sound_order u x" if "u \<noteq> INVALID" "x \<in> set (drop_ref old Q u)" for u x using Q that drop_ref_sub by blast
  then show ?thesis
    using Replace spec c Q t r accept_sound [of "Suc free" l DAY "incoming new new s pr q n" "drop_ref old Q" rs Q' t r] incoming_sound
    by (auto simp: spec_replace_def split: option.splits if_splits)
qed

lemma view_ids_unique:
  assumes "engine_ok e" and "x \<in> set (engine_view e l BUY) \<union> set (engine_view e l SELL)"
    and "y \<in> set (engine_view e l BUY) \<union> set (engine_view e l SELL)" and "order_id x = order_id y"
  shows "x = y"
proof -
  obtain R fl where rep: "engine_rep e R fl" and idx: "all_indexed e fl" using assms(1) by (auto simp: engine_ok_def)
  have ix: "indexed (book_at l e) (set (own (R l)) \<union> others R l)" using idx all_indexed_book [OF rep, of l] by simp
  have v: "set (engine_view e l BUY) \<union> set (engine_view e l SELL) = (\<lambda>i. core (ob_storage (book_at l e) ! unat i)) ` set (own (R l))"
    using view_own [OF engine_repD [OF rep, of l]] by (metis engine_view_def set_append set_map)
  obtain i j where "i \<in> set (own (R l))" "j \<in> set (own (R l))" "x = core (ob_storage (book_at l e) ! unat i)"
      "y = core (ob_storage (book_at l e) ! unat j)" using assms(2,3) unfolding v by blast
  then show ?thesis using indexed_unique [OF ix, of i j] assms(4) by auto
qed

lemma reaches_sound:
  assumes "reaches (new_engine_owned n m) cs rs e" and "2 \<le> n" "n \<le> 2 ^ 31" and "list_all sized cs" and "s \<noteq> INVALID" and "r \<in> set (engine_view e l s)"
  shows "sound_order s r"
  using assms
proof (induction arbitrary: l s r rule: reaches.induct)
  case start
  then show ?case by (simp add: new_engine_rep(3))
next
  case (step cs rs e c rs' e')
  have ok: "engine_ok e" using reaches_ok [OF step.hyps(1)] new_engine_ok step.prems by blast
  have so: "sound_order t x" if "t \<noteq> INVALID" "x \<in> set (engine_view e k t)" for k t x using step.IH step.prems that by simp
  obtain rs1 Q where sp: "spec_exec (free_slots e) (next_sequence e) c (engine_view e (locate_of c)) = (rs1, Q)" by fastforce
  have c: "case c of Replace _ _ _ s _ _ _ \<Rightarrow> s \<noteq> INVALID | _ \<Rightarrow> True" "sized c" using step.hyps(2) step.prems(3) by (cases c; simp)+
  have "sound_order t x" if "t \<noteq> INVALID" "x \<in> set (Q t)" for t x
    by (rule spec_exec_sound [OF sp _ c(2,1) that]) (use so view_ids_unique [OF ok] in blast)+
  then show ?case using exec_refines [OF ok step.hyps(2) sp] step.hyps(3) so step.prems(4,5) by (auto split: if_splits)
qed

section \<open>Time in force\<close>

lemma total_takeWhile: "total_remaining (takeWhile P q) \<le> total_remaining q"
  by (induction q) (auto simp: total_remaining_def)

lemma takeWhile_sum:
  fixes q :: "order list"
  assumes "total_remaining q < 2 ^ 32"
  shows "unat (fillable_qty s p q) = total_remaining (takeWhile (\<lambda>r. acceptable s p (price r)) q)"
  using assms
proof (induction q)
  case (Cons r q)
  have IH: "unat (fillable_qty s p q) = total_remaining (takeWhile (\<lambda>r. acceptable s p (price r)) q)"
    using Cons by (simp add: total_remaining_def)
  have "unat (fillable_qty s p q) \<le> total_remaining q" unfolding IH by (rule total_takeWhile)
  then have "unat (remaining_qty r) + unat (fillable_qty s p q) < 2 ^ 32"
    using Cons.prems unfolding total_remaining_def by simp
  then have "unat (remaining_qty r + fillable_qty s p q) = unat (remaining_qty r) + unat (fillable_qty s p q)"
    by (simp add: unat_word_ariths)
  then show ?case using IH by (auto simp: fillable_qty_def total_remaining_def)
qed (simp add: fillable_qty_def total_remaining_def)

lemma matches_fills:
  assumes "matches s o' q o1 q1 ts" and "\<forall>r \<in> set q. user_id r \<noteq> user_id o'"
    and "unat (remaining_qty o') \<le> total_remaining (takeWhile (\<lambda>r. acceptable s (price o') (price r)) q)"
  shows "remaining_qty o1 = 0"
  using assms
proof induction
  case (m_take o' r q rs o1 rs1 ts)
  have "unat (remaining_qty o' - q) = unat (remaining_qty o') - unat q" using unat_diff_le [OF m_take.hyps(5)] by simp
  then have "unat (remaining_qty (fill q o')) \<le> total_remaining (takeWhile (\<lambda>r. acceptable s (price o') (price r)) rs)"
    using m_take.prems(2) m_take.hyps(3,4) by (simp add: total_remaining_def)
  then show ?case using m_take.IH m_take.prems(1) by simp
qed (auto simp: total_remaining_def eligible_def unat_eq_zero)

lemma spec_add_immediate:
  assumes "tif \<noteq> DAY" and "s \<noteq> INVALID"
  shows "snd (spec_add free l ref s pr q uid tif seq V) s = V s"
proof -
  have o': "s \<noteq> opp s" using assms(2) by (cases s) simp_all
  then show ?thesis using assms by (cases tif) (simp_all add: spec_add_def spec_accept_def Let_def split: prod.split)
qed

section \<open>Example run\<close>

lemma exec_the:
  assumes "engine_ok e" and "admissible e c"
  shows "exec c e = Some (fst (the (exec c e)), snd (the (exec c e)))"
proof -
  obtain rs Q where "spec_exec (free_slots e) (next_sequence e) c (engine_view e (locate_of c)) = (rs, Q)" by fastforce
  from exec_refines [OF assms this] show ?thesis by auto
qed

lemma demo_run: "\<exists>rs. reaches demo0 [Add 1 11 BUY 100 5 41 DAY, Add 1 12 BUY 100 4 42 DAY, Add 1 13 SELL 120 7 43 DAY] rs demo3"
proof -
  have a: "admissible demo0 (Add 1 11 BUY 100 5 41 DAY)" "admissible demo1 (Add 1 12 BUY 100 4 42 DAY)"
    "admissible demo2 (Add 1 13 SELL 120 7 43 DAY)" by code_simp+
  note e = exec_the [OF demo0_ok a(1), folded demo1_def] exec_the [OF demo_ok(1) a(2), folded demo2_def]
    exec_the [OF demo_ok(2) a(3), folded demo3_def]
  show ?thesis
    using reaches.step [OF reaches.step [OF reaches.step [OF reaches.start a(1) e(1)] a(2) e(2)] a(3) e(3)] by auto
qed

lemma demo0_view: "engine_view demo0 = (\<lambda>_ _. [])"
  unfolding demo0_def by (rule new_engine_rep(3)) simp_all

lemma sale_runs: "\<exists>rs e'. exec (Add 1 14 SELL 90 6 44 tif) demo3 = Some (rs, e')" "admissible demo3 (Add 1 14 SELL 90 6 44 tif)"
proof -
  show a: "admissible demo3 (Add 1 14 SELL 90 6 44 tif)" using demo3 by simp
  show "\<exists>rs e'. exec (Add 1 14 SELL 90 6 44 tif) demo3 = Some (rs, e')" using exec_the [OF demo_ok(3) a] by blast
qed

section \<open>Theorems\<close>



text \<open>
  C8: price-time priority.  In every engine a run from a fresh one reaches, each queue lists better
  prices first and, among equal prices, the order that was accepted first.
\<close>

theorem price_time_priority:
  assumes "reaches (new_engine_owned n m) cs rs e" and "2 \<le> n" "n \<le> 2 ^ 31" and "length cs < 2 ^ 63" and "s \<noteq> INVALID"
  shows "sorted_wrt (\<lambda>a b. level_lt s (price a) (price b) \<or> price a = price b \<and> sequence a < sequence b) (engine_view e l s)"
proof -
  have ok: "engine_ok e" using reaches_ok [OF assms(1)] new_engine_ok assms by blast
  let ?q = "engine_view e l s"
  have "priority_sorted s ?q" using ok assms(5) by (rule view_sorted)
  moreover have "timely (next_sequence e) ?q" using reaches_timely [OF assms(1-4)] assms(5) by blast
  ultimately show ?thesis unfolding timely_def priority_sorted_def sorted_wrt_iff_nth_less
    by (metis level_lt_total)
qed

theorem price_time_priority_witness:
  "sorted_wrt (\<lambda>a b. level_lt BUY (price a) (price b) \<or> price a = price b \<and> sequence a < sequence b) (engine_view demo3 1 BUY) \<and>
   map order_id (engine_view demo3 1 BUY) = [11, 12]"
proof -
  obtain rs where r: "reaches (new_engine_owned 4 (Some new_IOCounters))
      [Add 1 11 BUY 100 5 41 DAY, Add 1 12 BUY 100 4 42 DAY, Add 1 13 SELL 120 7 43 DAY] rs demo3"
    using demo_run unfolding demo0_def by blast
  show ?thesis using price_time_priority [OF r, of BUY 1] demo3 by (simp add: engine_view_def book_view_def)
qed



text \<open>
  C12: an order that is not a day order never rests.  It may trade with the other side, but its own side's
  queue and all other books stay as they are.
\<close>

theorem immediate_orders_never_rest:
  assumes "engine_ok e" and "admissible e (Add l ref s pr q uid tif)" and "exec (Add l ref s pr q uid tif) e = Some (rs, e')"
    and "tif \<noteq> DAY" and "s \<noteq> INVALID"
  shows "engine_view e' l s = engine_view e l s \<and> (\<forall>k. k \<noteq> l \<longrightarrow> engine_view e' k = engine_view e k)"
proof -
  obtain rs1 Q where sp: "spec_exec (free_slots e) (next_sequence e) (Add l ref s pr q uid tif) (engine_view e l) = (rs1, Q)" by fastforce
  then have "engine_view e' = (engine_view e)(l := Q)"
    using exec_refines [OF assms(1,2), of rs1 Q] assms(3) by auto
  moreover have "Q s = engine_view e l s" using sp spec_add_immediate [OF assms(4,5)] by (metis snd_conv spec_exec.simps(1))
  ultimately show ?thesis by simp
qed

theorem immediate_orders_never_rest_witness:
  "\<exists>rs e'. exec (Add 1 14 SELL 90 6 44 IOC) demo3 = Some (rs, e') \<and> map order_id (engine_view e' 1 SELL) = [13]"
proof -
  obtain rs e' where ex: "exec (Add 1 14 SELL 90 6 44 IOC) demo3 = Some (rs, e')" using sale_runs(1) by blast
  have "engine_view e' 1 SELL = engine_view demo3 1 SELL"
    using immediate_orders_never_rest [OF demo_ok(3) sale_runs(2) ex] by simp
  then show ?thesis using ex demo3 by (simp add: engine_view_def book_view_def)
qed

text \<open>
  C11: fill or kill is all or nothing.  If the other side holds no order of the same user and less than
  \<open>2 ^ 32\<close> shares, such an order is either refused with all books unchanged, or it trades its whole
  quantity and is reported filled.
\<close>

theorem fill_or_kill:
  assumes ok: "engine_ok e" and adm: "admissible e (Add l ref s pr q uid FOK)"
    and ex: "exec (Add l ref s pr q uid FOK) e = Some (rs, e')"
    and own: "\<forall>r \<in> set (engine_view e l (opp s)). user_id r \<noteq> uid" and tot: "total_remaining (engine_view e l (opp s)) < 2 ^ 32"
  shows "(\<exists>code. rs = [RSP_ERROR code] \<and> engine_view e' = engine_view e) \<or>
    (\<exists>ts. rs = map (trade_rsp l s) ts @ [RSP_FILLED ref] \<and> traded ts = unat q)"
proof -
  let ?V = "engine_view e l" and ?p = "add_limit s pr FOK"
  let ?o = "incoming uid ref s ?p q (next_sequence e)"
  obtain rs1 Q where sp1: "spec_add (free_slots e) l ref s pr q uid FOK (next_sequence e) ?V = (rs1, Q)" by fastforce
  then have sp: "spec_add (free_slots e) l ref s pr q uid FOK (next_sequence e) ?V = (rs, Q)" and view: "engine_view e' = (engine_view e)(l := Q)"
    using exec_refines [OF ok adm, of rs1 Q] ex by auto
  show ?thesis
  proof (cases "spec_add (free_slots e) l ref s pr q uid FOK (next_sequence e) ?V = spec_accept (free_slots e) l FOK ?o ?V \<and> s \<noteq> INVALID \<and>
      q \<noteq> 0 \<and> q \<le> fillable_qty s ?p (?V (opp s))")
    case False
    then have "(\<exists>code. rs = [RSP_ERROR code]) \<and> Q = ?V" using sp by (auto simp: spec_add_def split: if_splits)
    then show ?thesis using view by auto
  next
    case True
    obtain ord q' ts where m: "match_queue s ?o (?V (opp s)) = (ord, q', ts)" by (cases "match_queue s ?o (?V (opp s))")
    note mt = match_queue_matches [OF m]
    have "unat q \<le> total_remaining (takeWhile (\<lambda>r. acceptable s ?p (price r)) (?V (opp s)))"
      using True takeWhile_sum [OF tot] by (simp add: word_le_nat_alt)
    then have z: "remaining_qty ord = 0" using matches_fills [OF mt] own by simp
    have tr: "traded ts = unat q" using matches_conserve [OF mt] z by simp
    then have "ts \<noteq> []" using True by (auto simp: traded_def unat_eq_zero)
    then have "status ord = FILLED" using matches_status(1) [OF mt] z by simp
    then show ?thesis using sp True m tr by (auto simp: spec_accept_def)
  qed
qed

theorem fill_or_kill_witness:
  "\<exists>rs e'. exec (Add 1 14 SELL 90 6 44 FOK) demo3 = Some (rs, e') \<and>
    ((\<exists>code. rs = [RSP_ERROR code] \<and> engine_view e' = engine_view demo3) \<or>
     (\<exists>ts. rs = map (trade_rsp 1 SELL) ts @ [RSP_FILLED 14] \<and> traded ts = 6))"
proof -
  obtain rs e' where ex: "exec (Add 1 14 SELL 90 6 44 FOK) demo3 = Some (rs, e')" using sale_runs(1) by blast
  have q: "engine_view demo3 1 BUY = [resting 41 11 BUY 100 5 1, resting 42 12 BUY 100 4 2]"
    using demo3 by (simp add: engine_view_def book_view_def)
  show ?thesis using fill_or_kill [OF demo_ok(3) sale_runs(2) ex] ex by (simp add: q total_remaining_def)
qed

text \<open>
  C13: the log is complete.  An order that passes the checks, and every cancel, partial cancel or replacement
  for a book in range (whether or not its order is found), appends exactly its own entry to the log; every
  other request appends nothing; and exactly the orders that pass and the replacements of an order that is
  found and owned take a sequence number.
\<close>

theorem requests_are_logged:
  assumes "engine_ok e" and "admissible e c" and "exec c e = Some (rs, e')"
  shows "wal e' = map_option (appends (logged e c)) (wal e) \<and> next_sequence e' = next_sequence e + of_bool (numbered e c)"
  using exec_log [OF assms] by (simp add: log_of_def)

theorem requests_are_logged_witness:
  "\<exists>rs e'. exec (Add 1 14 SELL 90 6 44 DAY) demo3 = Some (rs, e') \<and> next_sequence e' = 5"
proof -
  obtain rs e' where ex: "exec (Add 1 14 SELL 90 6 44 DAY) demo3 = Some (rs, e')" using sale_runs(1) by blast
  have "next_sequence e' = next_sequence demo3 + of_bool (numbered demo3 (Add 1 14 SELL 90 6 44 DAY))"
    using requests_are_logged [OF demo_ok(3) sale_runs(2) ex] by blast
  then show ?thesis using ex demo3 by (simp add: kMaxLocate_def word_le_nat_alt)
qed

end
