(* ===== verification/Recovery_Theorems.thy ===== *)
theory Recovery_Theorems
  imports Recovery Engine_Invariants
begin

text \<open>
  What survives a restart by snapshot: one written from an engine and loaded into a fresh one.
\<close>

section \<open>Writing a snapshot\<close>

lemma fold_save_step: "fold (\<lambda>i. save_step (f i)) xs (mx, out) =
    (fold (\<lambda>i mx. if order_id (f i) > mx then order_id (f i) else mx) xs mx, out @ map f xs)"
  by (induction xs arbitrary: mx out) (simp_all add: save_step_def)

lemma save_levels_rep:
  assumes "list_all2 (level_rep st s) ls sss"
  shows "save_levels st ls acc = Some (fold (\<lambda>i. save_step (st ! unat i)) (concat sss) acc)"
  using assms
proof (induction arbitrary: acc rule: list_all2_induct)
  case (Cons e ls ss sss)
  obtain p l where e: "e = (p, l)" by (cases e)
  then show ?case using walk_level_rep [of st s p l ss save_step acc] Cons by simp
qed simp

lemma saveSnapshot_rep:
  assumes "book_rep b R F fl"
  shows "\<exists>mx. saveSnapshot True b = Some (mx, Some (SNAPSHOT_MAGIC, map (\<lambda>i. ob_storage b ! unat i) (own R)))"
proof -
  have l: "list_all2 (level_rep (ob_storage b) s) (levels_of s b) (R s)" if "s \<noteq> INVALID" for s
    using book_rep_side [OF assms that] by (simp add: side_rep_def)
  show ?thesis
    using save_levels_rep [OF l [of BUY]] save_levels_rep [OF l [of SELL]]
    by (simp add: saveSnapshot_def levels_of_def own_def fold_save_step)
qed

section \<open>Loading a snapshot\<close>

text \<open>Orders put one by one into the queues.\<close>

definition enqueue_view :: "order \<Rightarrow> (side \<Rightarrow> order list) \<Rightarrow> side \<Rightarrow> order list" where
  "enqueue_view o' V = V(side_of o' := enqueue (side_of o') (core o') (V (side_of o')))"

definition view_ids :: "(side \<Rightarrow> order list) \<Rightarrow> u64 set" where
  "view_ids V = order_id ` (set (V BUY) \<union> set (V SELL))"

lemma view_ids_enqueue: "side_of o' \<noteq> INVALID \<Longrightarrow> view_ids (enqueue_view o' V) = insert (order_id o') (view_ids V)"
  by (cases "side_of o'") (auto simp: view_ids_def enqueue_view_def set_enqueue)

lemma index_fresh:
  assumes "book_rep b R {} fl" and "k \<notin> view_ids (book_view b)"
  shows "map_abs (ob_index b) k = None"
proof (rule ccontr)
  assume "map_abs (ob_index b) k \<noteq> None"
  then obtain i where i: "map_abs (ob_index b) k = Some i" by blast
  then have "i \<in> set (own R)" "order_id (ob_storage b ! unat i) = k"
    using book_rep_index [OF assms(1)] book_rep_index_id [OF assms(1)] by auto
  moreover have "set (book_view b BUY) \<union> set (book_view b SELL) = (\<lambda>i. core (ob_storage b ! unat i)) ` set (own R)"
    using view_own [OF assms(1)] by (metis set_append set_map)
  ultimately have "k \<in> view_ids (book_view b)" unfolding view_ids_def by (simp add: image_image) force
  then show False using assms(2) by simp
qed

lemma load_orders_rep:
  assumes "book_rep b R {} fl" and "\<forall>o' \<in> set os. side_of o' \<noteq> INVALID" and "distinct (map order_id os)"
    and "order_id ` set os \<inter> view_ids (book_view b) = {}" and "length os \<le> length fl"
  shows "\<exists>b' R' fl'. load_orders os acc b =
      Some ((fold (\<lambda>o' mx. if sequence o' > mx then sequence o' else mx) os (fst acc),
             fold (\<lambda>o' mx. if order_id o' > mx then order_id o' else mx) os (snd acc)), b') \<and>
    book_rep b' R' {} fl' \<and> length (ob_storage b') = length (ob_storage b) \<and> book_view b' = fold enqueue_view os (book_view b)"
  using assms
proof (induction os arbitrary: b R fl acc)
  case (Cons o' os)
  let ?o = "o'\<lparr>prev_idx := UINT32_MAX, next_idx := UINT32_MAX, pool_next_free := UINT32_MAX\<rparr>"
  have s: "side_of ?o = side_of o'" "side_of o' \<noteq> INVALID" and c: "core ?o = core o'" "order_id ?o = order_id o'" using Cons.prems(2) by simp_all
  have "map_abs (ob_index b) (order_id ?o) = None" using index_fresh [OF Cons.prems(1)] Cons.prems(4) by auto
  moreover have ne: "fl \<noteq> []" using Cons.prems(5) by auto
  ultimately obtain b1 R1 fl1 where b1: "addOrder ?o b = Some (True, b1)" "book_rep b1 R1 {} fl1"
      "length (ob_storage b1) = length (ob_storage b)" "book_view b1 = enqueue_view o' (book_view b)"
    using addOrder_view [OF Cons.prems(1) s] c(1) by (auto simp: enqueue_view_def)
  have "length (own R1) = Suc (length (own R))"
    unfolding length_own_views [OF b1(2)] length_own_views [OF Cons.prems(1)] b1(4)
    using s(2) by (cases "side_of o'") (simp_all add: enqueue_view_def set_enqueue)
  then have "length fl = Suc (length fl1)"
    using book_rep_count [OF b1(2)] book_rep_count [OF Cons.prems(1)] b1(3) by simp
  then have "length os \<le> length fl1" using Cons.prems(5) by simp
  moreover have "order_id ` set os \<inter> view_ids (book_view b1) = {}"
    using Cons.prems(3,4) view_ids_enqueue [OF s(2)] b1(4) by auto
  moreover have "\<forall>o' \<in> set os. side_of o' \<noteq> INVALID" "distinct (map order_id os)" using Cons.prems(2,3) by simp_all
  ultimately show ?case
    using Cons.IH [OF b1(2), of "(if sequence o' > fst acc then sequence o' else fst acc,
        if order_id o' > snd acc then order_id o' else snd acc)"] b1 c(2)
    by (cases acc) (auto simp: Let_def)
qed auto

section \<open>Price order\<close>

lemma queue_price_sorted:
  assumes "book_rep b R F fl" and "s \<noteq> INVALID"
  shows "priority_sorted s (book_view b s)"
  using queue_of_sorted [OF assms] assms(2) by (simp add: book_view_def)

lemma enqueue_worst: "\<forall>r \<in> set q. \<not> level_lt s (price o') (price r) \<Longrightarrow> enqueue s o' q = q @ [o']"
  by (simp add: enqueue_def takeWhile_eq_all_conv dropWhile_eq_Nil_conv)

lemma fold_enqueue_sorted:
  assumes "\<forall>o' \<in> set os. side_of o' = s" and "priority_sorted s (V s @ map core os)"
  shows "fold enqueue_view os V = V(s := V s @ map core os)"
  using assms
proof (induction os arbitrary: V)
  case (Cons o' os)
  have "enqueue_view o' V = V(s := V s @ [core o'])"
    using Cons.prems enqueue_worst [of "V s" s "core o'"] by (auto simp: enqueue_view_def priority_sorted_def sorted_wrt_append)
  moreover have "priority_sorted s ((V(s := V s @ [core o'])) s @ map core os)" using Cons.prems(2) by simp
  from Cons.IH [where V = "V(s := V s @ [core o'])", OF _ this] Cons.prems(1)
  have "fold enqueue_view os (V(s := V s @ [core o'])) = V(s := V s @ map core (o' # os))"
    by (simp only: fun_upd_upd fun_upd_same list.set list.map append.assoc append.simps) blast
  ultimately show ?case by (simp only: fold_Cons comp_apply)
qed simp

section \<open>The engine's snapshot\<close>

lemma fold_max:
  fixes f :: "'a \<Rightarrow> 'b::linorder"
  shows "fold (\<lambda>x mx. if f x > mx then f x else mx) xs m = Max (insert m (f ` set xs))"
proof (induction xs arbitrary: m)
  case (Cons x xs)
  let ?S = "f ` set xs"
  have "Max (insert (max m (f x)) ?S) = Max (insert m (insert (f x) ?S))"
    by (cases "?S = {}") (simp_all add: max.assoc)
  moreover have "(if f x > m then f x else m) = max m (f x)" by (auto simp: max_def)
  ultimately show ?case using Cons.IH [of "max m (f x)"] by simp
qed simp

lemma max_below_next:
  fixes f :: "order \<Rightarrow> u64"
  assumes "\<forall>x \<in> set xs. f x \<noteq> - 1" and "x \<in> set xs"
  defines "m \<equiv> fold (\<lambda>x mx. if f x > mx then f x else mx) xs 0"
  shows "f x < (if m > 0 then m + 1 else 1)"
proof -
  have m: "m \<in> insert 0 (f ` set xs)" "f x \<le> m"
    unfolding m_def fold_max by (rule Max_in; simp) (rule Max_ge; use assms(2) in simp)
  have "m \<noteq> - 1" using m(1) assms(1) by auto
  then have "1 + m \<noteq> 0" by (metis add.commute eq_neg_iff_add_eq_0)
  then have "m < m + 1" using unatSuc [of m] by (simp add: word_less_nat_alt add.commute)
  then show ?thesis using m(2) by (auto simp: word_gt_0)
qed

lemma new_book_view: "book_view (book_at l (new_engine_owned n m)) = (\<lambda>_. [])"
  by (simp add: new_engine_owned_def new_book_at book_view_def queue_of_def levels_of_def new_OrderBook_shared_def fun_eq_iff)

text \<open>The orders of a book as a snapshot keeps them.\<close>

lemma snapshot_orders:
  fixes l :: u64
  assumes rep: "engine_rep e R fl" and idx: "all_indexed e fl"
  defines "os \<equiv> map (\<lambda>i. ob_storage (book_at l e) ! unat i) (own (R l))"
  shows "distinct (map order_id os)" "\<forall>o' \<in> set os. side_of o' \<noteq> INVALID" "map core os = engine_view e l BUY @ engine_view e l SELL"
    "fold enqueue_view os (\<lambda>_. []) = engine_view e l"
proof -
  note b = engine_repD [OF rep, of l]
  have ix: "indexed (book_at l e) (set (own (R l)) \<union> others R l)" using idx all_indexed_book [OF rep, of l] by simp
  show "distinct (map order_id os)"
    unfolding os_def using book_rep_distinct [OF b] indexed_unique [OF ix] by (auto simp: distinct_map inj_on_def)
  have side: "side_of (ob_storage (book_at l e) ! unat x) = s" if "x \<in> set (concat (R l s))" "s \<noteq> INVALID" for x s
    using side_rep_bound(2) [OF book_rep_side [OF b that(2)] that(1)] .
  from this [of _ BUY] this [of _ SELL] show "\<forall>o' \<in> set os. side_of o' \<noteq> INVALID" unfolding os_def own_def by force
  show "map core os = engine_view e l BUY @ engine_view e l SELL"
    unfolding os_def using view_own [OF b] by (simp add: engine_view_def comp_def)
  let ?q = "\<lambda>s. map (\<lambda>i. ob_storage (book_at l e) ! unat i) (concat (R l s))"
  have v: "map core (?q s) = engine_view e l s" if "s \<noteq> INVALID" for s
    using queue_of_rep [OF b that] that by (simp add: engine_view_def book_view_def comp_def)
  have srt: "priority_sorted s (map core (?q s))" if "s \<noteq> INVALID" for s
    using queue_price_sorted [OF b that] v [OF that] by (simp add: engine_view_def)
  have "fold enqueue_view (?q BUY) (\<lambda>_. []) = (\<lambda>_. [])(BUY := map core (?q BUY))"
    using fold_enqueue_sorted [of "?q BUY" BUY "\<lambda>_. []"] side srt by auto
  moreover have "fold enqueue_view (?q SELL) ((\<lambda>_. [])(BUY := map core (?q BUY))) =
      ((\<lambda>_. [])(BUY := map core (?q BUY)))(SELL := map core (?q SELL))"
    using fold_enqueue_sorted [of "?q SELL" SELL "(\<lambda>_. [])(BUY := map core (?q BUY))"] side srt by auto
  moreover have "engine_view e l = ((\<lambda>_. [])(BUY := map core (?q BUY)))(SELL := map core (?q SELL))"
  proof
    fix s
    show "engine_view e l s = (((\<lambda>_. [])(BUY := map core (?q BUY)))(SELL := map core (?q SELL))) s"
      using v by (cases s) (simp_all add: engine_view_def book_view_def)
  qed
  ultimately show "fold enqueue_view os (\<lambda>_. []) = engine_view e l" unfolding os_def own_def by simp
qed

lemma next_order_id_bump: "next_order_id (bump f e) = next_order_id e"
  by (simp add: bump_def)

lemma load_fresh:
  assumes n: "2 \<le> n" "n \<le> 2 ^ 31" and os: "distinct (map order_id os)" "\<forall>o' \<in> set os. side_of o' \<noteq> INVALID" "length os \<le> n"
  shows "\<exists>e'. engine_loadSnapshot (Some (SNAPSHOT_MAGIC, os)) (new_engine_owned n m) = Some e' \<and>
    engine_view e' 0 = fold enqueue_view os (\<lambda>_. []) \<and>
    next_sequence e' = (let mx = fold (\<lambda>x mx. if sequence x > mx then sequence x else mx) os 0 in if mx > 0 then mx + 1 else 1) \<and>
    next_order_id e' = (let mx = fold (\<lambda>x mx. if order_id x > mx then order_id x else mx) os 0 in if mx > 0 then mx + 1 else 1)"
proof -
  let ?e = "new_engine_owned n m"
  let ?b = "book_at 0 ?e" and ?os = "fold (\<lambda>x mx. if sequence x > mx then sequence x else mx) os 0"
    and ?oi = "fold (\<lambda>x mx. if order_id x > mx then order_id x else mx) os 0"
  have "own (\<lambda>_. []) = []" by (simp add: own_def)
  then have rep: "book_rep ?b (\<lambda>_. []) {} (map of_nat [0..<n])"
    using engine_repD [OF new_engine_rep(1) [OF n, of m], of 0] by (simp add: others_def)
  have bf: "book_for 0 ?e = (Some ?b, touch 0 ?e)" by (simp add: book_for_eq kMaxLocate_def word_le_nat_alt)
  obtain b' where b': "load_orders os (0, 0) ?b = Some ((?os, ?oi), b')" "book_view b' = fold enqueue_view os (\<lambda>_. [])"
    using load_orders_rep [OF rep os(2,1), of "(0, 0)"] os(3) by (auto simp: new_book_view view_ids_def)
  have seq: "next_sequence (put_book 0 b' (touch 0 ?e)) = 1" "next_order_id (put_book 0 b' (touch 0 ?e)) = 1"
    by (simp_all add: put_book_def touch_def new_engine_owned_def new_engine_def bump_def)
  show ?thesis
    using b' bf seq
    by (auto simp: engine_loadSnapshot_def loadSnapshot_def Let_def set_pool_used_def engine_view_def engine_simps next_order_id_bump)
qed


text \<open>An engine with a bid and an ask in book 0.\<close>

definition kept1 :: engine where
  "kept1 = snd (the (exec (Add 0 11 BUY 100 5 41 DAY) demo0))"

definition kept2 :: engine where
  "kept2 = snd (the (exec (Add 0 12 SELL 120 4 42 DAY) kept1))"

lemma kept_ok: "engine_ok kept2"
proof -
  have "admissible demo0 (Add 0 11 BUY 100 5 41 DAY)" by code_simp
  from exec_ok [OF demo0_ok this] have 1: "engine_ok kept1" by (simp only: kept1_def)
  have "admissible kept1 (Add 0 12 SELL 120 4 42 DAY)" by code_simp
  from exec_ok [OF 1 this] show ?thesis by (simp only: kept2_def)
qed

lemma kept_views: "engine_view kept2 0 BUY = [resting 41 11 BUY 100 5 1]" "engine_view kept2 0 SELL = [resting 42 12 SELL 120 4 2]"
  by code_simp+


end
