(* ===== verification/Log_Replay.thy ===== *)
theory Log_Replay
  imports Recovery_Theorems
begin

text \<open>
  Replay of the write-ahead log by \<^verbatim>\<open>recoverFromWal\<close>: which entries a run of requests logs, and that
  a fresh engine that replays them has the queues of the engine that logged them.
\<close>

section \<open>Orders without their sequence numbers\<close>

definition anon :: "order \<Rightarrow> order" where
  "anon o' = o'\<lparr>sequence := 0\<rparr>"

definition anon_view :: "(side \<Rightarrow> order list) \<Rightarrow> side \<Rightarrow> order list" where
  "anon_view V s = map anon (V s)"

lemma anon_fields [simp]:
  "user_id (anon o') = user_id o'" "order_id (anon o') = order_id o'" "price (anon o') = price o'"
  "side_of (anon o') = side_of o'" "remaining_qty (anon o') = remaining_qty o'" "filled_qty (anon o') = filled_qty o'"
  "original_qty (anon o') = original_qty o'" "status (anon o') = status o'"
  by (simp_all add: anon_def)

lemma anon_ops: "fill q (anon o') = anon (fill q o')" "core (anon o') = anon (core o')"
  "(anon o')\<lparr>remaining_qty := n\<rparr> = anon (o'\<lparr>remaining_qty := n\<rparr>)"
  by (simp_all add: anon_def fill_def core_def)

lemma anon_view_upd: "anon_view (V(s := q)) = (anon_view V)(s := map anon q)"
  by (simp add: anon_view_def fun_eq_iff)

lemma length_anon_view [simp]: "length (anon_view V s) = length (V s)"
  by (simp add: anon_view_def)

lemma match_queue_anon:
  "match_queue s (anon o') (map anon q) =
     (case match_queue s o' q of (o1, q1, ts) \<Rightarrow> (anon o1, map anon q1, map (\<lambda>(r, n). (anon r, n)) ts))"
  by (induction q arbitrary: o')
     (auto simp: anon_ops eligible_def Let_def split: prod.splits)

lemma enqueue_anon: "enqueue s (anon o') (map anon q) = map anon (enqueue s o' q)"
  by (simp add: enqueue_def takeWhile_map dropWhile_map comp_def)

lemma spec_accept_anon:
  "snd (spec_accept free l tif (anon o') (anon_view Q)) = anon_view (snd (spec_accept free l tif o' Q))"
proof -
  obtain o1 q ts where m: "match_queue (side_of o') o' (Q (opp (side_of o'))) = (o1, q, ts)"
    by (cases "match_queue (side_of o') o' (Q (opp (side_of o')))")
  then have "match_queue (side_of o') (anon o') (anon_view Q (opp (side_of o'))) = (anon o1, map anon q, map (\<lambda>(r, n). (anon r, n)) ts)"
    by (simp add: match_queue_anon anon_view_def)
  then show ?thesis
    by (simp add: spec_accept_def m Let_def anon_view_upd anon_ops enqueue_anon anon_view_def [of Q "side_of o'"])
qed

lemma find_ref_anon: "find_ref ref (anon_view Q) = map_option anon (find_ref ref Q)"
proof -
  have "(\<lambda>r. order_id r = ref) \<circ> anon = (\<lambda>r. order_id r = ref)" by (simp add: comp_def)
  then show ?thesis by (simp add: find_ref_def anon_view_def find_map flip: map_append)
qed

lemma drop_ref_anon: "drop_ref ref (anon_view Q) = anon_view (drop_ref ref Q)"
  by (simp add: drop_ref_def anon_view_def fun_eq_iff filter_map comp_def)

lemma change_ref_anon:
  "change_ref ref (\<lambda>r. r\<lparr>remaining_qty := remaining_qty r - n\<rparr>) (anon_view Q) =
   anon_view (change_ref ref (\<lambda>r. r\<lparr>remaining_qty := remaining_qty r - n\<rparr>) Q)"
  by (simp add: change_ref_def anon_view_def fun_eq_iff anon_ops)

section \<open>Engines with the same books\<close>

lemma engine_count:
  assumes rep: "engine_rep e R fl"
  shows "length fl + (\<Sum>l\<in>UNIV. length (engine_view e l BUY) + length (engine_view e l SELL)) = capacity (shared_pool e)"
proof -
  note b = engine_repD [OF rep]
  have own: "length (own (R l)) = length (engine_view e l BUY) + length (engine_view e l SELL)" for l
    using length_own_views [OF b] by (simp add: engine_view_def)
  have card: "card (set (own (R l))) = length (own (R l))" for l using book_rep_distinct [OF b] by (rule distinct_card)
  have "set (own (R i)) \<inter> set (own (R j)) = {}" if "i \<noteq> j" for i j
    using book_rep_disj [OF b, of i] that by (auto simp: others_def)
  then have "card (others R 0) = (\<Sum>l\<in>- {0}. length (own (R l)))"
    unfolding others_def by (subst card_UN_disjoint) (simp_all add: card)
  moreover have "(\<Sum>l\<in>UNIV. length (own (R l))) = length (own (R 0)) + (\<Sum>l\<in>- {0}. length (own (R l)))"
    using sum.remove [of UNIV "0 :: u64" "\<lambda>l. length (own (R l))"] by (simp add: Compl_eq_Diff_UNIV)
  ultimately show ?thesis using book_rep_count [OF b, of 0] by (simp add: own)
qed

definition same_books :: "engine \<Rightarrow> engine \<Rightarrow> bool" where
  "same_books e r \<longleftrightarrow> capacity (shared_pool e) = capacity (shared_pool r) \<and>
     (\<forall>l. anon_view (engine_view e l) = anon_view (engine_view r l))"

lemma same_books_length: "same_books e r \<Longrightarrow> length (engine_view e l s) = length (engine_view r l s)"
  unfolding same_books_def by (metis length_anon_view)

lemma same_free:
  assumes "engine_rep e R fl" and "engine_rep r R' fl'" and "same_books e r"
  shows "length fl = length fl'"
  using engine_count [OF assms(1)] engine_count [OF assms(2)] same_books_length [OF assms(3)] assms(3)
  by (simp add: same_books_def)

lemma index_iff:
  assumes rep: "engine_rep e R fl" and idx: "all_indexed e fl"
  shows "map_abs (shared_index e) ref = None \<longleftrightarrow> (\<forall>l. find_ref ref (engine_view e l) = None)"
proof (cases "map_abs (shared_index e) ref")
  case None
  then show ?thesis using lookup_missing [OF rep idx None] by simp
next
  case (Some x)
  note b = engine_repD [OF rep]
  obtain l where l: "x \<in> set (own (R l))" using book_rep_index [OF b, of 0 ref x] Some by (auto simp: others_def)
  then have "find_ref ref (engine_view e l) \<noteq> None"
    using book_rep_index_id [OF b, of l ref x] Some by (auto simp: engine_view_def find_ref_rep [OF b [of l]] find_None_iff)
  then show ?thesis using Some by auto
qed

lemma same_find: "same_books e r \<Longrightarrow> map_option anon (find_ref ref (engine_view e l)) = map_option anon (find_ref ref (engine_view r l))"
  unfolding same_books_def by (metis find_ref_anon)

lemma same_routed: "same_books e r \<Longrightarrow> routed e l ref = routed r l ref"
  unfolding routed_def using same_find by (metis map_option_is_None)

lemma same_index:
  assumes "engine_rep e R fl" "all_indexed e fl" and "engine_rep r R' fl'" "all_indexed r fl'" and "same_books e r"
  shows "map_abs (shared_index e) ref = None \<longleftrightarrow> map_abs (shared_index r) ref = None"
  using index_iff [OF assms(1,2)] index_iff [OF assms(3,4)] same_find [OF assms(5)] by (metis map_option_is_None)

section \<open>Replaying one entry\<close>

lemma replay_new_accept:
  assumes "accept_order l DAY (replay_order en) b [] e2 = Some (out', e')"
  shows "\<exists>e''. replay_new en l b e2 = Some e'' \<and> (\<forall>k. book_at k e'' = book_at k e')"
proof -
  let ?o = "replay_order en"
  obtain b2 o1 out1 e3 where m: "match_order (side_of ?o) l b ?o [] e2 = Some (b2, o1, out1, e3)"
    using assms by (cases "match_order (side_of ?o) l b ?o [] e2") (auto simp: accept_order_def)
  show ?thesis using assms unfolding accept_order_def replay_new_def Let_def m
    by (cases "status o1") (auto simp: rest_order_def fail_with_def Let_def engine_simps split: bind_splits if_splits)
qed

lemma bump_ids_books: "book_at k (bump_ids n m e) = book_at k e"
  by (simp add: bump_ids_def Let_def engine_simps)

lemma evolves_keep: "engine_rep e R fl \<Longrightarrow> (\<And>k. book_at k e' = book_at k e) \<Longrightarrow> evolves e fl l (engine_view e l) room e'"
  by (rule evolves_same) simp_all

lemma locate_bound: "\<not> kMaxLocate \<le> (ucast (w :: u16) :: u64)"
  using unsigned_less [of w, where 'a = nat]
  by (simp add: kMaxLocate_def word_le_nat_alt unsigned_ucast_eq take_bit_nat_eq_self)

lemma replay_add:
  assumes rep: "engine_rep e R fl" and idx: "all_indexed e fl" and fresh: "map_abs (shared_index e) (we_order_id en) = None"
    and t: "we_type en = 0x01"
  shows "\<exists>e'. replay_entry en e = Some e' \<and>
    evolves e fl (ucast (we_locate en)) (snd (spec_accept (length fl) (ucast (we_locate en)) DAY (replay_order en) (engine_view e (ucast (we_locate en)))))
      (map_room (shared_index e) (we_order_id en)) e'"
proof -
  let ?l = "ucast (we_locate en) :: u64" and ?o = "replay_order en"
  have o': "side_of ?o \<noteq> INVALID" "status ?o = OPEN" "order_id ?o = we_order_id en" by (simp_all add: replay_order_def)
  have l: "\<not> ?l \<ge> kMaxLocate" by (rule locate_bound)
  have t': "same_others ?l (touch ?l e) e" by (rule same_others_refl) (simp add: engine_simps)
  obtain rs Q where sp: "spec_accept (length fl) ?l DAY ?o (engine_view e ?l) = (rs, Q)" by fastforce
  obtain e1 where e1: "accept_order ?l DAY ?o (book_at ?l e) [] (touch ?l e) = Some (rs, e1)"
      "evolves e fl ?l Q (map_room (shared_index e) (we_order_id en)) e1"
    using accept_order_refines [OF rep t' o'(1,2) _ sp, of "[]"] fresh o'(3) by auto
  obtain e2 where e2: "replay_new en ?l (book_at ?l e) (touch ?l e) = Some e2" "\<And>k. book_at k e2 = book_at k e1"
    using replay_new_accept [OF e1(1)] by blast
  have "evolves e fl ?l Q (map_room (shared_index e) (we_order_id en)) (bump_ids n m e2)" for n m
    by (rule evolves_cong [OF _ e1(2)]) (simp add: bump_ids_books e2(2))
  then show ?thesis using t l e2(1) fresh find_index [OF rep, of ?l "we_order_id en"] sp
    by (simp add: replay_entry_def book_for_eq findOrder_def)
qed

lemma replay_cancel:
  assumes "processCancel l ref uid [] e = Some (rs, e')" and l: "l = ucast (we_locate en)"
    and en: "we_type en = 0x02" "we_order_id en = ref" "we_user_id en = uid"
  shows "\<exists>e''. replay_entry en e = Some e'' \<and> (\<forall>k. book_at k e'' = book_at k e')"
proof -
  have bound: "\<not> l \<ge> kMaxLocate" using l locate_bound by simp
  obtain rm b1 where b1: "removeOrder ref uid (book_at l e) = Some (rm, b1)"
    using assms(1) bound by (cases "removeOrder ref uid (book_at l e)") (auto simp: processCancel_def book_for_bump Let_def)
  have "book_at k e' = book_at k (put_book l b1 e)" for k
    using assms(1) b1 bound
    by (auto simp: processCancel_def book_for_bump Let_def fail_with_def book_at_put_if engine_simps split: if_splits)
  then show ?thesis using b1 bound en l
    by (simp add: replay_entry_def book_for_eq Let_def bump_ids_books book_at_put_if engine_simps)
qed

lemma replay_shares:
  assumes "processCancelShares l ref n uid [] e = Some (rs, e')" and l: "l = ucast (we_locate en)"
    and en: "we_type en = 0x03" "we_order_id en = ref" "we_quantity en = n" "0 < n"
    and own: "\<And>x r. map_find (shared_index e) ref = Some (Some x) \<Longrightarrow> pool_at (shared_pool e) x = Some r \<Longrightarrow> user_id r = uid"
  shows "\<exists>e''. replay_entry en e = Some e'' \<and> (\<forall>k. book_at k e'' = book_at k e')"
proof -
  have bound: "\<not> l \<ge> kMaxLocate" using l locate_bound by simp
  show ?thesis using assms(1) bound en l own
    by (auto simp: processCancelShares_def replay_entry_def book_for_bump book_for_eq findOrder_def Let_def fail_with_def
        bump_ids_books book_at_put_if engine_simps split: bind_splits option.splits if_splits)
qed

section \<open>Replaying a run\<close>

text \<open>
  The requests whose entry says all there is to say: limit orders, cancels, and partial cancels by the
  owner of the order.
\<close>

fun durable :: "engine \<Rightarrow> command \<Rightarrow> bool" where
  "durable e (Add l ref s pr q uid tif) \<longleftrightarrow> tif = DAY"
| "durable e (Cancel l ref uid) \<longleftrightarrow> True"
| "durable e (CancelShares l ref n uid) \<longleftrightarrow> 0 < n \<and> (case find_ref ref (engine_view e l) of None \<Rightarrow> True | Some r \<Rightarrow> user_id r = uid)"
| "durable e (Replace l old new s pr q uid) \<longleftrightarrow> False"

inductive durable_run :: "engine \<Rightarrow> wal_entry list \<Rightarrow> engine \<Rightarrow> bool" for e0 where
  init: "durable_run e0 [] e0"
| request: "durable_run e0 es e \<Longrightarrow> admissible e c \<Longrightarrow> durable e c \<Longrightarrow> exec c e = Some (rs, e') \<Longrightarrow>
    durable_run e0 (es @ logged e c) e'"

fun replay_entries :: "wal_entry list \<Rightarrow> engine \<Rightarrow> engine option" where
  "replay_entries [] e = Some e"
| "replay_entries (en # es) e = do { e1 \<leftarrow> replay_entry en e; replay_entries es e1 }"

text \<open>The index finds a place for every order on the way.\<close>

fun replay_room :: "wal_entry list \<Rightarrow> engine \<Rightarrow> bool" where
  "replay_room [] e \<longleftrightarrow> True"
| "replay_room (en # es) e \<longleftrightarrow> (we_type en = 0x01 \<longrightarrow> map_room (shared_index e) (we_order_id en)) \<and>
     (case replay_entry en e of None \<Rightarrow> True | Some e1 \<Rightarrow> replay_room es e1)"

lemma replay_entries_append: "replay_entries (es @ fs) e = do { e1 \<leftarrow> replay_entries es e; replay_entries fs e1 }"
  by (induction es arbitrary: e) (auto split: bind_split)

lemma replay_room_append:
  "replay_room (es @ fs) e \<longleftrightarrow> replay_room es e \<and> (case replay_entries es e of None \<Rightarrow> True | Some e1 \<Rightarrow> replay_room fs e1)"
  by (induction es arbitrary: e) (auto split: bind_split option.split)

lemma same_evolves:
  assumes "same_books e r" and "evolves e fl l Q room e'" and "evolves r fl' l Q' room' r'"
    and "anon_view Q = anon_view Q'" and "all_indexed r fl'" and room'
  shows "same_books e' r' \<and> engine_ok r'"
  using assms unfolding evolves_def same_books_def engine_ok_def by auto

lemma locate_roundtrip:
  assumes "\<not> kMaxLocate \<le> l"
  shows "ucast (ucast l :: u16) = l"
proof -
  have "unat l < 2 ^ 16" using assms by (simp add: kMaxLocate_def word_le_nat_alt)
  then have "unat (ucast (ucast l :: u16) :: u64) = unat l"
    by (simp add: unsigned_ucast_eq unsigned_take_bit_eq take_bit_nat_eq_self)
  then show ?thesis by (rule word_unat_eq_iff [THEN iffD2])
qed

lemma spec_accept_same:
  assumes "anon o1 = anon o2" and "anon_view Q1 = anon_view Q2"
  shows "anon_view (snd (spec_accept free l tif o1 Q1)) = anon_view (snd (spec_accept free l tif o2 Q2))"
  using assms by (simp flip: spec_accept_anon)

lemma find_ref_same:
  assumes "anon_view Q1 = anon_view Q2"
  obtains "find_ref ref Q1 = None" "find_ref ref Q2 = None"
  | r1 r2 where "find_ref ref Q1 = Some r1" "find_ref ref Q2 = Some r2" "user_id r1 = user_id r2" "remaining_qty r1 = remaining_qty r2"
proof -
  have "map_option anon (find_ref ref Q1) = map_option anon (find_ref ref Q2)" using assms by (metis find_ref_anon)
  then show ?thesis using that by (cases "find_ref ref Q1"; cases "find_ref ref Q2") (simp_all, metis anon_fields(1,5))
qed

lemma spec_cancel_same:
  assumes "anon_view Q1 = anon_view Q2"
  shows "anon_view (snd (spec_cancel l ref uid Q1)) = anon_view (snd (spec_cancel l ref uid Q2))"
proof -
  have "anon_view (drop_ref ref Q1) = anon_view (drop_ref ref Q2)" using assms by (metis drop_ref_anon)
  with assms show ?thesis by (cases rule: find_ref_same [OF assms, of ref]) (simp_all add: spec_cancel_def)
qed

lemma spec_cancel_shares_same:
  assumes "anon_view Q1 = anon_view Q2"
  shows "anon_view (snd (spec_cancel_shares l ref n uid Q1)) = anon_view (snd (spec_cancel_shares l ref n uid Q2))"
proof -
  have "anon_view (drop_ref ref Q1) = anon_view (drop_ref ref Q2)" using assms by (metis drop_ref_anon)
  moreover have "anon_view (change_ref ref (\<lambda>r. r\<lparr>remaining_qty := remaining_qty r - n\<rparr>) Q1) =
      anon_view (change_ref ref (\<lambda>r. r\<lparr>remaining_qty := remaining_qty r - n\<rparr>) Q2)" using assms by (simp flip: change_ref_anon)
  ultimately show ?thesis
    using assms by (cases rule: find_ref_same [OF assms, of ref]) (simp_all add: spec_cancel_shares_def)
qed

lemma shares_owner:
  assumes r: "engine_rep r R fl" "all_indexed r fl" and rt: "routed r l ref"
    and own: "case v of None \<Rightarrow> True | Some x \<Rightarrow> user_id x = uid" and v: "map_option anon v = map_option anon (find_ref ref (engine_view r l))"
    and x: "map_find (shared_index r) ref = Some (Some x)" "pool_at (shared_pool r) x = Some y"
  shows "user_id y = uid"
proof -
  have "map_abs (shared_index r) ref = Some x" using find_index [OF r(1), of l ref] x(1) by simp
  note lk = lookup_found [OF r rt this]
  have "y = ob_storage (book_at l r) ! unat x" using pool_at_own [OF r(1) lk(1)] x(2) by simp
  then have "find_ref ref (engine_view r l) = Some (core y)" using lk(3) by simp
  then have "map_option anon v = Some (anon (core y))" using v by simp
  then obtain z where "v = Some z" "anon z = anon (core y)" by auto
  then show ?thesis using own anon_fields(1) [of z] anon_fields(1) [of "core y"] by simp
qed

text \<open>Replaying \<open>es\<close> takes \<open>r\<close> to an engine with the books of \<open>e'\<close>.\<close>

definition keeps_up :: "wal_entry list \<Rightarrow> engine \<Rightarrow> engine \<Rightarrow> bool" where
  "keeps_up es r e' \<longleftrightarrow> (\<exists>r'. replay_entries es r = Some r' \<and> engine_ok r' \<and> same_books e' r')"

lemma keeps_up_nop:
  assumes "engine_rep r R' fl'" "all_indexed r fl'" and same: "same_books e r" and "evolves e fl l (engine_view e l) True e'"
  shows "keeps_up [] r e'"
  using same_evolves [OF same assms(4) evolves_keep [OF assms(1)], of r True] assms(2) same
  by (simp add: keeps_up_def same_books_def)

lemma keeps_up_entry:
  assumes "all_indexed r fl'" and "same_books e r" and "evolves e fl l Q True e'"
    and "replay_entry en r = Some r'" and "evolves r fl' l Q' room r'" and "anon_view Q = anon_view Q'" and room
  shows "keeps_up [en] r e'"
  using same_evolves [OF assms(2,3,5,6,1,7)] assms(4) by (simp add: keeps_up_def)

lemma keeps_up_add:
  assumes e: "engine_rep e R fl" "all_indexed e fl" and r: "engine_rep r R' fl'" "all_indexed r fl'" and same: "same_books e r"
    and fresh: "map_abs (shared_index e) ref = None" and room: "replay_room (logged e (Add l ref s pr q uid DAY)) r"
    and sp: "spec_add (free_slots e) l ref s pr q uid DAY (next_sequence e) (engine_view e l) = (rs', Q)" and ev: "evolves e fl l Q True e'"
  shows "keeps_up (logged e (Add l ref s pr q uid DAY)) r e'"
proof (cases "logged e (Add l ref s pr q uid DAY)")
  case Nil
  then have "Q = engine_view e l" using sp by (auto simp: spec_add_def split: if_splits)
  then show ?thesis using keeps_up_nop [OF r same] ev Nil by simp
next
  case (Cons en es)
  then have en: "logged e (Add l ref s pr q uid DAY) = [en]" and ok: "\<not> kMaxLocate \<le> l" "s \<noteq> INVALID"
    by (auto split: if_splits)
  have en': "en = \<lparr>we_type = 0x01, we_side = (if s = BUY then 0x01 else 0x02), we_locate = ucast l, we_price = pr,
      we_quantity = q, we_user_id = uid, we_order_id = ref, we_wal_seq = next_sequence e + 1\<rparr>"
    using en by (auto simp: add_limit_def split: if_splits)
  have Q: "Q = snd (spec_accept (free_slots e) l DAY (incoming uid ref s pr q (next_sequence e)) (engine_view e l))"
    using sp en by (auto simp: spec_add_def add_limit_def split: if_splits)
  have "anon (incoming uid ref s pr q (next_sequence e)) = anon (replay_order en)"
    using ok(2) by (cases s) (simp_all add: en' anon_def incoming_def replay_order_def new_Order_def)
  moreover have "free_slots e = length fl'" using engine_free_slots [OF e(1)] same_free [OF e(1) r(1) same] by simp
  moreover have "anon_view (engine_view e l) = anon_view (engine_view r l)" using same by (simp add: same_books_def)
  ultimately have Q': "anon_view Q = anon_view (snd (spec_accept (length fl') l DAY (replay_order en) (engine_view r l)))"
    unfolding Q using spec_accept_same by metis
  have "map_abs (shared_index r) ref = None" using fresh same_index [OF e r same] by simp
  then obtain r' where r': "replay_entry en r = Some r'"
      "evolves r fl' l (snd (spec_accept (length fl') l DAY (replay_order en) (engine_view r l))) (map_room (shared_index r) ref) r'"
    using replay_add [OF r, of en] locate_roundtrip [OF ok(1)] by (auto simp: en')
  have "map_room (shared_index r) ref" using room en by (simp add: en')
  then show ?thesis unfolding en by (rule keeps_up_entry [OF r(2) same ev r' Q'])
qed

lemma keeps_up_cancel:
  assumes r: "engine_rep r R' fl'" "all_indexed r fl'" and same: "same_books e r" and rt: "routed e l ref"
    and sp: "spec_cancel l ref uid (engine_view e l) = (rs', Q)" and ev: "evolves e fl l Q True e'"
  shows "keeps_up (logged e (Cancel l ref uid)) r e'"
proof (cases "kMaxLocate \<le> l")
  case True
  then show ?thesis using keeps_up_nop [OF r same, of fl l e'] ev sp by (simp add: spec_cancel_def)
next
  case False
  then obtain en where en: "logged e (Cancel l ref uid) = [en]" "we_type en = 0x02" "we_order_id en = ref" "we_user_id en = uid"
      "ucast (we_locate en) = l"
    using locate_roundtrip by auto
  obtain rs1 Q1 where q1: "spec_cancel l ref uid (engine_view r l) = (rs1, Q1)" by fastforce
  have "routed r l ref" using rt same_routed [OF same] by simp
  then obtain r1 where r1: "processCancel l ref uid [] r = Some (rs1, r1)" "evolves r fl' l Q1 True r1"
    using processCancel_refines [OF r _ q1, of "[]"] by auto
  obtain r' where r': "replay_entry en r = Some r'" "\<And>k. book_at k r' = book_at k r1"
    using replay_cancel [OF r1(1) en(5) [symmetric] en(2,3,4)] by blast
  have "anon_view (engine_view e l) = anon_view (engine_view r l)" using same by (simp add: same_books_def)
  then have "anon_view Q = anon_view Q1" using spec_cancel_same [of "engine_view e l" "engine_view r l" l ref uid] sp q1 by simp
  from keeps_up_entry [OF r(2) same ev r'(1) evolves_cong [OF r'(2) r1(2)] this TrueI] show ?thesis by (simp only: en(1))
qed

lemma keeps_up_shares:
  assumes r: "engine_rep r R' fl'" "all_indexed r fl'" and same: "same_books e r" and rt: "routed e l ref"
    and n: "0 < n" and owner: "case find_ref ref (engine_view e l) of None \<Rightarrow> True | Some x \<Rightarrow> user_id x = uid"
    and sp: "spec_cancel_shares l ref n uid (engine_view e l) = (rs', Q)" and ev: "evolves e fl l Q True e'"
  shows "keeps_up (logged e (CancelShares l ref n uid)) r e'"
proof (cases "kMaxLocate \<le> l")
  case True
  then show ?thesis using keeps_up_nop [OF r same, of fl l e'] ev sp by (simp add: spec_cancel_shares_def)
next
  case False
  then obtain en where en: "logged e (CancelShares l ref n uid) = [en]" "we_type en = 0x03" "we_order_id en = ref" "we_quantity en = n"
      "ucast (we_locate en) = l"
    using locate_roundtrip by auto
  obtain rs1 Q1 where q1: "spec_cancel_shares l ref n uid (engine_view r l) = (rs1, Q1)" by fastforce
  have rt': "routed r l ref" using rt same_routed [OF same] by simp
  then obtain r1 where r1: "processCancelShares l ref n uid [] r = Some (rs1, r1)" "evolves r fl' l Q1 True r1"
    using processCancelShares_refines [OF r _ q1, of "[]"] by auto
  have own: "user_id y = uid" if "map_find (shared_index r) ref = Some (Some x)" "pool_at (shared_pool r) x = Some y" for x y
    using shares_owner [OF r rt' owner same_find [OF same] that] .
  obtain r' where r': "replay_entry en r = Some r'" "\<And>k. book_at k r' = book_at k r1"
    using replay_shares [OF r1(1) en(5) [symmetric] en(2,3,4) n] own by blast
  have "anon_view (engine_view e l) = anon_view (engine_view r l)" using same by (simp add: same_books_def)
  then have "anon_view Q = anon_view Q1"
    using spec_cancel_shares_same [of "engine_view e l" "engine_view r l" l ref n uid] sp q1 by simp
  from keeps_up_entry [OF r(2) same ev r'(1) evolves_cong [OF r'(2) r1(2)] this TrueI] show ?thesis by (simp only: en(1))
qed

lemma replay_request:
  assumes ok: "engine_ok e" "engine_ok r" and same: "same_books e r"
    and adm: "admissible e c" and dur: "durable e c" and ex: "exec c e = Some (rs, e')" and room: "replay_room (logged e c) r"
  shows "keeps_up (logged e c) r e'"
proof -
  obtain R fl where e: "engine_rep e R fl" "all_indexed e fl" using ok(1) by (auto simp: engine_ok_def)
  obtain R' fl' where r: "engine_rep r R' fl'" "all_indexed r fl'" using ok(2) by (auto simp: engine_ok_def)
  obtain rs' Q where sp: "spec_exec (free_slots e) (next_sequence e) c (engine_view e (locate_of c)) = (rs', Q)" by fastforce
  then have ev: "evolves e fl (locate_of c) Q True e'" using exec_evolves [OF e adm sp] ex by auto
  show ?thesis
  proof (cases c)
    case (Add l ref s pr q uid tif)
    then show ?thesis using keeps_up_add [OF e r same] adm dur room sp ev by simp
  next
    case (Cancel l ref uid)
    then show ?thesis using keeps_up_cancel [OF r same] adm sp ev by simp
  next
    case (CancelShares l ref n uid)
    then show ?thesis using keeps_up_shares [OF r same] adm dur sp ev by simp
  qed (use dur in simp)
qed

lemma replay_run:
  assumes "durable_run e0 es e" and "engine_ok e0" and "engine_ok r0" and "same_books e0 r0" and "replay_room es r0"
  shows "engine_ok e \<and> keeps_up es r0 e \<and> wal e = map_option (appends es) (wal e0)"
  using assms
proof (induction rule: durable_run.induct)
  case init
  then show ?case by (simp add: keeps_up_def wal_appends)
next
  case (request es e c rs e')
  have IH: "engine_ok e" "keeps_up es r0 e" "wal e = map_option (appends es) (wal e0)"
    using request by (simp_all add: replay_room_append)
  then obtain r where r: "replay_entries es r0 = Some r" "engine_ok r" "same_books e r" by (auto simp: keeps_up_def)
  have "replay_room (logged e c) r" using request.prems(4) r(1) by (simp add: replay_room_append)
  then have "keeps_up (logged e c) r e'" using replay_request [OF IH(1) r(2,3) request.hyps(2,3,4)] by simp
  then have "keeps_up (es @ logged e c) r0 e'" using r(1) by (simp add: keeps_up_def replay_entries_append)
  moreover have "engine_ok e'"
    using exec_ok [OF IH(1) request.hyps(2)] request.hyps(4) by simp
  moreover have "wal e' = map_option (appends (es @ logged e c)) (wal e0)"
    using exec_log [OF IH(1) request.hyps(2,4)] IH(3) by (cases "wal e0") (simp_all add: appends_def log_of_def)
  ultimately show ?case by simp
qed

section \<open>The log file\<close>

lemma replay_loop_entries:
  assumes "m + k \<le> unat (rd_count r)"
  shows "replay_loop r (of_nat m) k e = replay_entries (map (\<lambda>j. rd_base r (of_nat j)) [m..<m + k]) e"
  using assms
proof (induction k arbitrary: m e)
  case (Suc k)
  have "unat (of_nat m :: u64) = m" using Suc.prems unsigned_less [of "rd_count r", where 'a = nat] by (simp add: unat_of_nat)
  then have "entryAt r (of_nat m) = Some (rd_base r (of_nat m))" using Suc.prems by (simp add: entryAt_def word_less_nat_alt)
  moreover have "[m..<m + Suc k] = m # [Suc m..<Suc m + k]" by (simp add: upt_conv_Cons)
  moreover have "of_nat m + 1 = (of_nat (Suc m) :: u64)" by (simp add: add.commute)
  ultimately show ?case using Suc.IH [of "Suc m"] Suc.prems by (simp split: bind_split del: upt_Suc of_nat_Suc)
qed simp

lemma replay_blank: "engine_ok r \<Longrightarrow> same_books e r \<Longrightarrow> keeps_up (replicate k zero_entry) r e"
proof (induction k arbitrary: r)
  case (Suc k)
  let ?r = "bump_ids 0 0 (touch 0 r)"
  have step: "replay_entry zero_entry r = Some ?r"
    using locate_bound [of 0] by (simp add: replay_entry_def zero_entry_def book_for_eq)
  have at: "book_at l ?r = book_at l r" for l by (simp add: bump_ids_books engine_simps)
  have "engine_ok ?r" using Suc.prems(1) at engine_rep_cong [of ?r r] all_indexed_cong [of ?r r] unfolding engine_ok_def by auto
  moreover have "same_books e ?r"
    using Suc.prems(2) engine_view_cong [OF at] book_at_shared(1) [of 0 ?r] at [of 0] unfolding same_books_def by simp
  ultimately show ?case using Suc.IH [of ?r] step by (simp add: keeps_up_def)
qed (simp add: keeps_up_def)

definition blank_wal :: wal_writer where
  "blank_wal = \<lparr>wal_base = (\<lambda>_. zero_entry), wal_total = 0\<rparr>"

lemma appends_blank:
  assumes "length es \<le> j" and "j < 13421772"
  shows "wal_base (appends es blank_wal) (of_nat j) = zero_entry"
  using assms(1)
proof (induction es rule: rev_induct)
  case (snoc en es)
  have "wal_pos (length es) \<noteq> wal_pos j" using snoc.prems assms(2) by (subst wal_pos_eq) simp_all
  moreover have "wal_pos j = of_nat j" using assms(2) unat_wal_pos [of j] by (intro word_unat_eq_iff [THEN iffD2]) (simp add: unat_of_nat)
  moreover have "wal_total (appends es blank_wal) mod WAL_ENTRIES = wal_pos (length es)"
    by (simp add: appends_total wal_pos_def blank_wal_def)
  ultimately show ?case using snoc by (simp add: appends_def wal_append_def Let_def)
qed (simp add: appends_def blank_wal_def)

lemma appends_entries:
  assumes "length es \<le> 13421772"
  shows "map (\<lambda>j. wal_base (appends es blank_wal) (of_nat j)) [0..<13421772] = es @ replicate (13421772 - length es) zero_entry"
proof (rule nth_equalityI)
  fix j assume "j < length (map (\<lambda>j. wal_base (appends es blank_wal) (of_nat j)) [0..<13421772])"
  then have j: "j < 13421772" by simp
  have "wal_pos j = of_nat j" using j unat_wal_pos [of j] by (intro word_unat_eq_iff [THEN iffD2]) (simp add: unat_of_nat)
  then show "map (\<lambda>j. wal_base (appends es blank_wal) (of_nat j)) [0..<13421772] ! j = (es @ replicate (13421772 - length es) zero_entry) ! j"
    using j assms appends_base [of blank_wal es j] appends_blank [of es j]
    by (cases "j < length es") (simp_all add: nth_append blank_wal_def)
qed (use assms in simp)

text \<open>
  Recovery of an engine \<open>r0\<close> from the log of a run of \<open>e0\<close>, when both start with the same books and the
  log starts empty and does not wrap.
\<close>

lemma recover_restores:
  assumes run: "durable_run e0 es e" and ok: "engine_ok e0" "engine_ok r0" and same: "same_books e0 r0" and w0: "wal e0 = Some blank_wal"
    and f0: "wf_size f0 = WAL_SIZE" and len: "length es \<le> unat WAL_ENTRIES" and room: "replay_room es r0"
  shows "\<exists>w r. wal e = Some w \<and> recoverFromWal (WalReader_open True True (WalWriter_close w f0)) r0 = Some r \<and> engine_ok r \<and> same_books e r"
proof -
  from replay_run [OF run ok same room] obtain r where w: "wal e = Some (appends es blank_wal)"
    and r: "replay_entries es r0 = Some r" "engine_ok r" "same_books e r" by (auto simp: keeps_up_def w0)
  let ?rd = "\<lparr>rd_base = wal_base (appends es blank_wal), rd_count = WAL_ENTRIES\<rparr>"
  have rd: "WalReader_open True True (WalWriter_close (appends es blank_wal) f0) = Some ?rd"
    by (simp add: WalReader_open_def WalWriter_close_def f0 WAL_ENTRIES_def WAL_SIZE_def)
  obtain r' where r': "replay_entries (replicate (13421772 - length es) zero_entry) r = Some r'" "engine_ok r'" "same_books e r'"
    using replay_blank [OF r(2,3)] by (auto simp: keeps_up_def)
  have "replay_loop ?rd 0 13421772 r0 = Some r'"
    using replay_loop_entries [of 0 13421772 ?rd r0] appends_entries [of es] len r(1) r'(1) unat_WAL_ENTRIES
    by (simp add: replay_entries_append)
  then have rec: "recoverFromWal (Some ?rd) r0 = Some (bump (\<lambda>m. m\<lparr>order_pool_used := pool_size (shared_pool r')\<rparr>) r')"
    (is "_ = Some ?r'") by (simp add: recoverFromWal_def entryCount_def unat_WAL_ENTRIES)
  have at': "book_at l ?r' = book_at l r'" for l by (simp add: engine_simps)
  have "engine_ok ?r'" using r'(2) engine_rep_cong [OF at'] all_indexed_cong [OF at'] unfolding engine_ok_def by auto
  moreover have "same_books e ?r'" using r'(3) engine_view_cong [OF at'] unfolding same_books_def by (simp add: engine_simps)
  ultimately show ?thesis using w rd rec by auto
qed

end
