(* ===== verification/Startup.thy ===== *)
theory Startup
  imports Log_Replay Trade_Theorems
begin

text \<open>
  The parts of \<^verbatim>\<open>src/main.cpp\<close> with logic of their own: the command line, and the construction and
  recovery of the engine; and the accept thread of \<^verbatim>\<open>src/tcp_trade_server.cpp\<close>.  The results of the
  system calls are arguments.
\<close>

section \<open>The command line\<close>

definition is_space :: "char \<Rightarrow> bool" where
  "is_space c \<longleftrightarrow> c \<in> {CHR 0x20, CHR 0x09, CHR 0x0A, CHR 0x0B, CHR 0x0C, CHR 0x0D}"

definition char_digit :: "char \<Rightarrow> bool" where
  "char_digit c \<longleftrightarrow> of_char c \<ge> (48 :: nat) \<and> of_char c \<le> (57 :: nat)"

definition digits_int :: "string \<Rightarrow> int" where
  "digits_int ds = foldl (\<lambda>v c. 10 * v + int (of_char c - 48)) 0 ds"

text \<open>The C function \<^verbatim>\<open>atoi\<close>; outside the range of an \<^verbatim>\<open>int\<close> it is undefined.\<close>

definition atoi :: "string \<Rightarrow> int option" where
  "atoi s =
     (let t = dropWhile is_space s;
          neg = (case t of c # _ \<Rightarrow> c = CHR ''-'' | [] \<Rightarrow> False);
          u = (case t of c # r \<Rightarrow> if c = CHR ''-'' \<or> c = CHR ''+'' then r else t | [] \<Rightarrow> t);
          v = digits_int (takeWhile char_digit u);
          i = (if neg then - v else v)
      in if - (2 ^ 31) \<le> i \<and> i < 2 ^ 31 then Some i else None)"

record main_args =
  arg_port :: int
  arg_trade_port :: int
  arg_io_core :: int
  arg_send_core :: int

definition default_args :: main_args where
  "default_args = \<lparr>arg_port = 2250, arg_trade_port = - 1, arg_io_core = - 1, arg_send_core = - 1\<rparr>"

text \<open>The loop over \<^verbatim>\<open>argv[1..]\<close>; an option takes the next argument, anything else is the port.\<close>

fun parse_args :: "string list \<Rightarrow> main_args \<Rightarrow> main_args option" where
  "parse_args [] a = Some a"
| "parse_args [s] a = map_option (\<lambda>p. a\<lparr>arg_port := p\<rparr>) (atoi s)"
| "parse_args (s # v # rest) a =
     (if s = ''--io-core'' then do { n \<leftarrow> atoi v; parse_args rest (a\<lparr>arg_io_core := n\<rparr>) }
      else if s = ''--send-core'' then do { n \<leftarrow> atoi v; parse_args rest (a\<lparr>arg_send_core := n\<rparr>) }
      else if s = ''--trade-port'' then do { n \<leftarrow> atoi v; parse_args rest (a\<lparr>arg_trade_port := n\<rparr>) }
      else do { p \<leftarrow> atoi s; parse_args (v # rest) (a\<lparr>arg_port := p\<rparr>) })"

section \<open>The engine\<close>

text \<open>
  From the size of the shared memory to the recovered engine.  A new shared memory reads as the given
  storage; \<open>w\<close> is the log the engine appends to, once \<^verbatim>\<open>init\<close> has opened it (\<^verbatim>\<open>main\<close> goes on when it fails, and
  the first append then writes through an invalid pointer); \<open>reader\<close> is the log file as
  \<^verbatim>\<open>recoverFromWal\<close> opens it.
\<close>

definition boot_engine :: "bool \<Rightarrow> order list \<Rightarrow> io_counters option \<Rightarrow> wal_writer \<Rightarrow> trade_pool option \<Rightarrow> wal_reader option \<Rightarrow>
    engine option" where
  "boot_engine fresh_start order_storage m w tp reader =
     (let order_pool = new_OrderPool_external order_storage fresh_start;
          e = (new_engine_external order_pool m)\<lparr>wal := Some w, eng_trade_pool := tp\<rparr>;
          book_recovered = \<not> fresh_start
      in if book_recovered then recoverFromShared (length order_storage) e else recoverFromWal reader e)"

section \<open>The accept thread of the order entry port\<close>

text \<open>\<^verbatim>\<open>start\<close> up to the thread: the descriptor and the running flag, from the results of the three calls.\<close>

definition trade_start :: "int \<Rightarrow> bool \<Rightarrow> bool \<Rightarrow> int \<times> bool" where
  "trade_start sock bind_ok listen_ok =
     (if sock < 0 then (sock, False)
      else if \<not> bind_ok then (- 1, False)
      else if \<not> listen_ok then (- 1, False)
      else (sock, True))"

text \<open>
  The loop of the thread: \<^verbatim>\<open>accept\<close> fails, or yields a client with the chunks of its bytes; \<open>running k\<close> is
  the flag as the client's loop reads it.
\<close>

record trade_client =
  cl_stack :: "u8 list"
  cl_entry :: ouch_enter
  cl_running :: "nat \<Rightarrow> bool"
  cl_chunks :: "u8 list list"

fun accept_thread :: "(bool \<times> trade_client option) list \<Rightarrow> trade_server \<Rightarrow> trade_server option" where
  "accept_thread [] s = Some s"
| "accept_thread ((running, c) # cs) s =
     (if \<not> running then Some s
      else case c of
        None \<Rightarrow> accept_thread cs s
      | Some cl \<Rightarrow> do {
          s1 \<leftarrow> handleClient (cl_running cl) 0 (cl_stack cl) (cl_entry cl) (cl_chunks cl) s;
          accept_thread cs s1
        })"

text \<open>\<^verbatim>\<open>stop\<close>, before it joins the thread.\<close>

definition trade_stop :: "int \<times> bool \<Rightarrow> int \<times> bool" where
  "trade_stop st = (if fst st \<ge> 0 then - 1 else fst st, False)"

section \<open>Options and clients\<close>

text \<open>An option takes the argument after it.\<close>

lemma parse_option:
  "parse_args (''--io-core'' # v # rest) a = do { n \<leftarrow> atoi v; parse_args rest (a\<lparr>arg_io_core := n\<rparr>) }"
  "parse_args (''--send-core'' # v # rest) a = do { n \<leftarrow> atoi v; parse_args rest (a\<lparr>arg_send_core := n\<rparr>) }"
  "parse_args (''--trade-port'' # v # rest) a = do { n \<leftarrow> atoi v; parse_args rest (a\<lparr>arg_trade_port := n\<rparr>) }"
  by simp_all

text \<open>The server does the same however the bytes of its clients are cut into chunks.\<close>

lemma accept_thread_chunks:
  "accept_thread (map (map_prod id (map_option (\<lambda>c. c\<lparr>cl_chunks := [concat (cl_chunks c)]\<rparr>))) cs) s = accept_thread cs s"
proof (induction cs arbitrary: s)
  case (Cons c cs)
  have IH: "accept_thread (map (map_prod id (map_option (\<lambda>c. c\<lparr>cl_chunks := [concat (cl_chunks c)]\<rparr>))) cs) = accept_thread cs"
    using Cons.IH by (rule ext)
  obtain running cl where "c = (running, cl)" by (cases c)
  then show ?case using IH by (cases cl) (simp_all add: handleClient_bytes id_def)
qed simp

section \<open>A fresh engine over shared memory\<close>

lemma fresh_external:
  assumes "2 \<le> length st" and "length st \<le> 2 ^ 31"
  shows "engine_ok (new_engine_external (new_OrderPool_external st True) m)"
    and "engine_view (new_engine_external (new_OrderPool_external st True) m) = (\<lambda>_ _. [])"
    and "capacity (shared_pool (new_engine_external (new_OrderPool_external st True) m)) = length st"
proof -
  let ?p = "new_OrderPool_external st True" and ?n = "length st"
  have cap: "capacity ?p = ?n" by (simp add: new_OrderPool_external_def initFreeList_def)
  have "pool_inv ?p (map of_nat [0..<?n])"
    unfolding new_OrderPool_external_def Let_def if_True
    using assms by (intro initFreeList_inv [of "\<lparr>storage = st, free_head = 0, pool_size = 0\<rparr>", simplified]) auto
  note f = fresh_engine_rep [OF this cap assms, of m]
  have e: "new_engine_external ?p m = new_engine ?p (new_OrderMap ?n) m" by (simp add: new_engine_external_def cap)
  show "engine_ok (new_engine_external ?p m)" unfolding e engine_ok_def using f(1,2) by blast
  show "engine_view (new_engine_external ?p m) = (\<lambda>_ _. [])" unfolding e by (rule f(3))
  show "capacity (shared_pool (new_engine_external ?p m)) = ?n" by (simp add: e new_engine_def bump_def cap)
qed

definition boot_blank :: "order list \<Rightarrow> io_counters option \<Rightarrow> wal_writer option \<Rightarrow> trade_pool option \<Rightarrow> engine" where
  "boot_blank st m w tp = (new_engine_external (new_OrderPool_external st True) m)\<lparr>wal := w, eng_trade_pool := tp\<rparr>"

lemma boot_fresh: "boot_engine True st m w tp reader = recoverFromWal reader (boot_blank st m (Some w) tp)"
  by (simp add: boot_engine_def boot_blank_def Let_def)

lemma boot_blank_ok:
  assumes "2 \<le> length st" and "length st \<le> 2 ^ 31"
  shows "engine_ok (boot_blank st m w tp)" and "engine_view (boot_blank st m w tp) = (\<lambda>_ _. [])"
    and "capacity (shared_pool (boot_blank st m w tp)) = length st" and "wal (boot_blank st m w tp) = w"
proof -
  let ?e = "new_engine_external (new_OrderPool_external st True) m"
  have at: "book_at l (boot_blank st m w tp) = book_at l ?e" for l unfolding boot_blank_def by (rule book_at_cong) simp_all
  note f = fresh_external [OF assms, of m]
  show "engine_ok (boot_blank st m w tp)"
    using f(1) engine_rep_cong [OF at] all_indexed_cong [OF at] unfolding engine_ok_def by auto
  show "engine_view (boot_blank st m w tp) = (\<lambda>_ _. [])" using engine_view_cong [OF at] f(2) by simp
  show "capacity (shared_pool (boot_blank st m w tp)) = length st" "wal (boot_blank st m w tp) = w"
    using f(3) by (simp_all add: boot_blank_def)
qed

text \<open>Replaying an empty log.\<close>

lemma replay_zero: "next_sequence e \<noteq> 0 \<Longrightarrow> next_order_id e \<noteq> 0 \<Longrightarrow> replay_entry zero_entry e = Some (touch 0 e)"
  using locate_bound [of 0]
  by (simp add: replay_entry_def zero_entry_def book_for_eq bump_ids_def Let_def touch_def put_book_def)

lemma touch_twice: "touch l (touch l e) = touch l e" "next_sequence (touch l e) = next_sequence e" "next_order_id (touch l e) = next_order_id e"
  "wal (touch l e) = wal e"
  by (simp_all add: touch_def put_book_def)

lemma replay_zeros:
  assumes "next_sequence e \<noteq> 0" and "next_order_id e \<noteq> 0"
  shows "replay_entries (replicate (Suc k) zero_entry) e = Some (touch 0 e)"
  using assms
proof (induction k arbitrary: e)
  case (Suc k)
  then show ?case using Suc.IH [of "touch 0 e"] replay_zero by (simp add: touch_twice)
qed (simp add: replay_zero)

lemma recover_blank:
  assumes "next_sequence e \<noteq> 0" and "next_order_id e \<noteq> 0" and f: "wf_size f = WAL_SIZE" "wf_data f = (\<lambda>_. zero_entry)"
  shows "recoverFromWal (WalReader_open True True f) e =
    Some (bump (\<lambda>m. m\<lparr>order_pool_used := pool_size (shared_pool e)\<rparr>) (touch 0 e))"
proof -
  let ?rd = "\<lparr>rd_base = (\<lambda>_. zero_entry), rd_count = WAL_ENTRIES\<rparr>"
  have rd: "WalReader_open True True f = Some ?rd" by (simp add: WalReader_open_def f WAL_ENTRIES_def WAL_SIZE_def)
  have "map (\<lambda>j. zero_entry) [0..<13421772] = replicate (Suc 13421771) zero_entry" by (simp add: map_replicate_const)
  then have "replay_loop ?rd 0 13421772 e = Some (touch 0 e)"
    using replay_loop_entries [of 0 13421772 ?rd e] replay_zeros [OF assms(1,2), of 13421771] unat_WAL_ENTRIES by simp
  then show ?thesis by (simp add: rd recoverFromWal_def entryCount_def unat_WAL_ENTRIES engine_simps)
qed

lemma boot_blank_counters: "next_sequence (boot_blank st m w tp) = 1" "next_order_id (boot_blank st m w tp) = 1"
  by (simp_all add: boot_blank_def new_engine_external_def new_engine_def bump_def)

text \<open>The first start of a machine: an engine with empty books and the new log.\<close>

definition first_boot :: "order list \<Rightarrow> io_counters option \<Rightarrow> wal_writer option \<Rightarrow> trade_pool option \<Rightarrow> engine" where
  "first_boot st m w tp = bump (\<lambda>c. c\<lparr>order_pool_used := 0\<rparr>) (touch 0 (boot_blank st m w tp))"

lemma boot_first:
  assumes "wf_size f = WAL_SIZE" "wf_data f = (\<lambda>_. zero_entry)"
  shows "boot_engine True st m w tp (WalReader_open True True f) = Some (first_boot st m (Some w) tp)"
proof -
  have "pool_size (shared_pool (boot_blank st m (Some w) tp)) = 0"
    by (simp add: boot_blank_def new_engine_external_def new_engine_def bump_def new_OrderPool_external_def initFreeList_def Let_def)
  then show ?thesis unfolding boot_fresh first_boot_def using recover_blank [OF _ _ assms] boot_blank_counters by simp
qed

lemma first_boot_ok:
  assumes "2 \<le> length st" and "length st \<le> 2 ^ 31"
  shows "engine_ok (first_boot st m w tp)" and "engine_view (first_boot st m w tp) = (\<lambda>_ _. [])"
    and "capacity (shared_pool (first_boot st m w tp)) = length st" and "wal (first_boot st m w tp) = w"
proof -
  let ?e = "boot_blank st m w tp"
  have at: "book_at l (first_boot st m w tp) = book_at l ?e" for l by (simp add: first_boot_def engine_simps)
  note f = boot_blank_ok [OF assms]
  show "engine_ok (first_boot st m w tp)"
    using f(1) engine_rep_cong [OF at] all_indexed_cong [OF at] unfolding engine_ok_def by auto
  show "engine_view (first_boot st m w tp) = (\<lambda>_ _. [])" using engine_view_cong [OF at] f(2) by simp
  show "capacity (shared_pool (first_boot st m w tp)) = length st" using f(3) by (simp add: first_boot_def engine_simps)
  show "wal (first_boot st m w tp) = w" using f(4) by (simp add: first_boot_def bump_def touch_twice)
qed

section \<open>Theorems\<close>

text \<open>
  C9: a restart restores the books.  An exchange starts on a new shared memory with a new log, serves any run
  of limit orders, cancels and partial cancels by the owner that fits the log, is shut down, and is
  started again on a new shared memory of the same size, whose index has room for the orders: it
  starts, satisfies the invariant of a running engine, and every book holds the same orders in the same
  priority, with the same quantities and owners (sequence numbers apart).
\<close>

theorem restart_restores_books:
  assumes init: "WalWriter_init True True f = (Some w0, f0)" "wf_size f = 0"
    and boot: "boot_engine True st m w0 tp (WalReader_open True True f0) = Some e0"
    and run: "durable_run e0 es e" and len: "length es \<le> unat WAL_ENTRIES"
    and close: "wal e = Some w" "WalWriter_init True True (WalWriter_close w f0) = (Some w1, f1)"
    and st: "2 \<le> length st" "length st \<le> 2 ^ 31" "length st' = length st"
    and room: "replay_room es (boot_blank st' m' (Some w1) tp')"
  shows "\<exists>e'. boot_engine True st' m' w1 tp' (WalReader_open True True f1) = Some e' \<and> engine_ok e' \<and>
    (\<forall>l s. map anon (engine_view e' l s) = map anon (engine_view e l s))"
proof -
  have w0: "w0 = blank_wal" and f0: "wf_size f0 = WAL_SIZE" "wf_data f0 = (\<lambda>_. zero_entry)"
    using init by (auto simp: WalWriter_init_def Let_def blank_wal_def)
  have e0: "e0 = first_boot st m (Some blank_wal) tp" using boot boot_first [OF f0] by (simp add: w0)
  note a = first_boot_ok [OF st(1,2), of m "Some blank_wal" tp] and b = boot_blank_ok [of st' m' "Some w1" tp', unfolded st(3), OF st(1,2)]
  have "same_books e0 (boot_blank st' m' (Some w1) tp')" unfolding same_books_def e0 using a(2,3) b(2,3) by simp
  from recover_restores [OF run _ b(1) this _ f0(1) len room] a(1,4) close(1) obtain r where
    r: "recoverFromWal (WalReader_open True True (WalWriter_close w f0)) (boot_blank st' m' (Some w1) tp') = Some r" "engine_ok r" "same_books e r"
    unfolding e0 by auto
  have "f1 = WalWriter_close w f0" using close(2) f0 by (simp add: WalWriter_init_def WalWriter_close_def Let_def WAL_SIZE_def)
  then have "boot_engine True st' m' w1 tp' (WalReader_open True True f1) = Some r" using r(1) by (simp add: boot_fresh)
  moreover have "map anon (engine_view r l s) = map anon (engine_view e l s)" for l s
    using r(3) unfolding same_books_def anon_view_def by metis
  ultimately show ?thesis using r(2) by blast
qed

text \<open>A bid and an ask that trades with it.\<close>

definition live0 :: engine where
  "live0 = first_boot [new_Order, new_Order] None (Some blank_wal) None"

definition live1 :: engine where
  "live1 = snd (the (exec (Add 1 11 BUY 100 5 41 DAY) live0))"

definition live2 :: engine where
  "live2 = snd (the (exec (Add 1 12 SELL 100 2 42 DAY) live1))"

definition live_log :: "wal_entry list" where
  "live_log = logged live0 (Add 1 11 BUY 100 5 41 DAY) @ logged live1 (Add 1 12 SELL 100 2 42 DAY)"

lemma live_run: "durable_run live0 live_log live2"
proof -
  have 0: "engine_ok live0" unfolding live0_def by (rule first_boot_ok) simp_all
  have a1: "admissible live0 (Add 1 11 BUY 100 5 41 DAY)" by code_simp
  have 1: "engine_ok live1" using exec_ok [OF 0 a1] by (simp only: live1_def)
  have a2: "admissible live1 (Add 1 12 SELL 100 2 42 DAY)" by code_simp
  have "durable_run live0 (logged live0 (Add 1 11 BUY 100 5 41 DAY)) live1"
    using durable_run.request [OF durable_run.init a1 _ exec_the [OF 0 a1]] by (simp add: live1_def)
  from durable_run.request [OF this a2 _ exec_the [OF 1 a2]] show ?thesis by (simp add: live2_def live_log_def)
qed

text \<open>The log after the run, as the second start finds it.\<close>

definition live_wal :: wal_writer where
  "live_wal = \<lparr>wal_base = wal_base (the (wal live2)), wal_total = WAL_ENTRIES\<rparr>"

lemma live_facts: "map remaining_qty (engine_view live2 1 BUY) = [3]" "engine_view live2 1 SELL = []"
  "replay_room live_log (boot_blank [new_Order, new_Order] None (Some live_wal) None)" "length live_log = 2" "\<not> Option.is_none (wal live2)"
  by code_simp+

theorem restart_restores_books_witness:
  "\<exists>e'. boot_engine True [new_Order, new_Order] None live_wal None
      (WalReader_open True True \<lparr>wf_size = WAL_SIZE, wf_data = wal_base live_wal\<rparr>) = Some e' \<and>
    map remaining_qty (engine_view e' 1 BUY) = [3] \<and> engine_view e' 1 SELL = []"
proof -
  let ?f0 = "\<lparr>wf_size = WAL_SIZE, wf_data = (\<lambda>_. zero_entry)\<rparr>"
  have init: "WalWriter_init True True \<lparr>wf_size = 0, wf_data = (\<lambda>_. zero_entry)\<rparr> = (Some blank_wal, ?f0)"
    by (simp add: WalWriter_init_def Let_def blank_wal_def)
  have boot: "boot_engine True [new_Order, new_Order] None blank_wal None (WalReader_open True True ?f0) = Some live0"
    unfolding live0_def by (rule boot_first) simp_all
  obtain w where w: "wal live2 = Some w" using live_facts(5) by (auto simp: Option.is_none_def)
  have close: "WalWriter_init True True (WalWriter_close w ?f0) = (Some live_wal, \<lparr>wf_size = WAL_SIZE, wf_data = wal_base live_wal\<rparr>)"
    by (simp add: WalWriter_init_def WalWriter_close_def Let_def live_wal_def w WAL_ENTRIES_def WAL_SIZE_def)
  obtain e' where e': "boot_engine True [new_Order, new_Order] None live_wal None
      (WalReader_open True True \<lparr>wf_size = WAL_SIZE, wf_data = wal_base live_wal\<rparr>) = Some e'"
      "\<And>l s. map anon (engine_view e' l s) = map anon (engine_view live2 l s)"
    using restart_restores_books [OF init _ boot live_run _ w close, of "[new_Order, new_Order]" None None] live_facts(3,4)
    by (auto simp: unat_WAL_ENTRIES)
  have "map remaining_qty (map anon (engine_view e' 1 BUY)) = [3]" "map anon (engine_view e' 1 SELL) = []"
    using e'(2) live_facts(1,2) by (simp_all add: comp_def)
  then show ?thesis using e'(1) by (simp add: comp_def)
qed

end
