(* ===== verification/Mpsc_Ring.thy ===== *)
theory Mpsc_Ring
  imports Prelude
begin

text \<open>
  \<^verbatim>\<open>include/mpsc_ring.h\<close>: the ring many producers and one consumer share.  A producer claims a number,
  waits for its slot to be free, marks it, writes, and publishes; the consumer takes the slots in the
  order of the numbers.  The operations on one thread, and every interleaving of the threads at the
  granularity of their atomic operations.
\<close>

section \<open>The ring\<close>

record 'a mpsc_slot =
  slot_data :: 'a
  slot_seq :: u64

record 'a mpsc_ring =
  mpsc_slots :: "'a mpsc_slot list"
  claim_idx :: u64
  read_cursor :: u64

definition new_MPSCRing :: "nat \<Rightarrow> 'a \<Rightarrow> 'a mpsc_ring" where
  "new_MPSCRing cap d = \<lparr>mpsc_slots = replicate cap \<lparr>slot_data = d, slot_seq = 0\<rparr>, claim_idx = 0, read_cursor = 1\<rparr>"

text \<open>The slot of a number.\<close>

definition slot_at :: "'a mpsc_ring \<Rightarrow> u64 \<Rightarrow> nat" where
  "slot_at r h = unat h mod length (mpsc_slots r)"

definition seq_at :: "'a mpsc_ring \<Rightarrow> u64 \<Rightarrow> u64" where
  "seq_at r h = slot_seq (mpsc_slots r ! slot_at r h)"

definition data_at :: "'a mpsc_ring \<Rightarrow> u64 \<Rightarrow> 'a" where
  "data_at r h = slot_data (mpsc_slots r ! slot_at r h)"

definition set_seq :: "u64 \<Rightarrow> u64 \<Rightarrow> 'a mpsc_ring \<Rightarrow> 'a mpsc_ring" where
  "set_seq h n r = r\<lparr>mpsc_slots := (mpsc_slots r)[slot_at r h := (mpsc_slots r ! slot_at r h)\<lparr>slot_seq := n\<rparr>]\<rparr>"

section \<open>Producers\<close>

text \<open>The three atomic operations of \<^verbatim>\<open>alloc\<close>.\<close>

definition claim :: "'a mpsc_ring \<Rightarrow> u64 \<times> 'a mpsc_ring" where
  "claim r = (claim_idx r, r\<lparr>claim_idx := claim_idx r + 1\<rparr>)"

definition slot_free :: "u64 \<Rightarrow> 'a mpsc_ring \<Rightarrow> bool" where
  "slot_free h r \<longleftrightarrow> seq_at r h = 0"

definition occupy :: "u64 \<Rightarrow> 'a mpsc_ring \<Rightarrow> 'a mpsc_ring" where
  "occupy h r = set_seq h UINT64_MAX r"

text \<open>\<^verbatim>\<open>alloc\<close> when no other thread runs: a slot that is not free never becomes free.\<close>

definition mpsc_alloc :: "'a mpsc_ring \<Rightarrow> (u64 \<times> 'a mpsc_ring) option" where
  "mpsc_alloc r =
     (case claim r of (idx, r1) \<Rightarrow> if slot_free idx r1 then Some (idx, occupy idx r1) else None)"

definition commit :: "u64 \<Rightarrow> 'a mpsc_ring \<Rightarrow> 'a mpsc_ring" where
  "commit h r = set_seq h (h + 1) r"

text \<open>Writing through the pointer \<^verbatim>\<open>handleData\<close> returns.\<close>

definition handleData :: "u64 \<Rightarrow> 'a \<Rightarrow> 'a mpsc_ring \<Rightarrow> 'a mpsc_ring" where
  "handleData h d r = r\<lparr>mpsc_slots := (mpsc_slots r)[slot_at r h := (mpsc_slots r ! slot_at r h)\<lparr>slot_data := d\<rparr>]\<rparr>"

section \<open>The consumer\<close>

definition tryPop :: "'a mpsc_ring \<Rightarrow> 'a option" where
  "tryPop r = (if seq_at r (read_cursor r - 1) \<noteq> read_cursor r then None else Some (data_at r (read_cursor r - 1)))"

definition consume :: "'a mpsc_ring \<Rightarrow> 'a mpsc_ring" where
  "consume r = (set_seq (read_cursor r - 1) 0 r)\<lparr>read_cursor := read_cursor r + 1\<rparr>"

section \<open>Threads\<close>

text \<open>Where a producer is in sending a message, and whether the consumer holds a pointer.\<close>

datatype 'a phase = Idle | Spin u64 'a | Seen u64 'a | Owned u64 'a | Written u64 'a

record 'a mpsc_state =
  the_ring :: "'a mpsc_ring"
  phase_of :: "nat \<Rightarrow> 'a phase"
  holding :: bool
  sent :: "'a list"
  received :: "'a list"

definition new_mpsc_state :: "nat \<Rightarrow> 'a \<Rightarrow> 'a mpsc_state" where
  "new_mpsc_state cap d = \<lparr>the_ring = new_MPSCRing cap d, phase_of = (\<lambda>_. Idle), holding = False, sent = [], received = []\<rparr>"

text \<open>\<open>sent\<close> lists the messages in the order their numbers were claimed, \<open>received\<close> those the consumer read.\<close>

inductive mpsc_step :: "'a mpsc_state \<Rightarrow> 'a mpsc_state \<Rightarrow> bool" where
  claims: "phase_of st p = Idle \<Longrightarrow> claim (the_ring st) = (h, r) \<Longrightarrow>
    mpsc_step st (st\<lparr>the_ring := r, phase_of := (phase_of st)(p := Spin h m), sent := sent st @ [m]\<rparr>)"
| spins: "phase_of st p = Spin h m \<Longrightarrow> slot_free h (the_ring st) \<Longrightarrow>
    mpsc_step st (st\<lparr>phase_of := (phase_of st)(p := Seen h m)\<rparr>)"
| marks: "phase_of st p = Seen h m \<Longrightarrow>
    mpsc_step st (st\<lparr>the_ring := occupy h (the_ring st), phase_of := (phase_of st)(p := Owned h m)\<rparr>)"
| writes: "phase_of st p = Owned h m \<Longrightarrow>
    mpsc_step st (st\<lparr>the_ring := handleData h m (the_ring st), phase_of := (phase_of st)(p := Written h m)\<rparr>)"
| publishes: "phase_of st p = Written h m \<Longrightarrow>
    mpsc_step st (st\<lparr>the_ring := commit h (the_ring st), phase_of := (phase_of st)(p := Idle)\<rparr>)"
| pops: "\<not> holding st \<Longrightarrow> tryPop (the_ring st) \<noteq> None \<Longrightarrow> mpsc_step st (st\<lparr>holding := True\<rparr>)"
| consumes: "holding st \<Longrightarrow>
    mpsc_step st (st\<lparr>the_ring := consume (the_ring st), holding := False,
      received := received st @ [data_at (the_ring st) (read_cursor (the_ring st) - 1)]\<rparr>)"

text \<open>Numbers claimed whose message has not been consumed.\<close>

definition in_flight :: "'a mpsc_state \<Rightarrow> nat" where
  "in_flight st = length (sent st) - length (received st)"

inductive mpsc_run :: "'a mpsc_state \<Rightarrow> 'a mpsc_state \<Rightarrow> bool" for st0 where
  begins: "mpsc_run st0 st0"
| continues: "mpsc_run st0 st \<Longrightarrow> mpsc_step st st' \<Longrightarrow> in_flight st' \<le> length (mpsc_slots (the_ring st')) \<Longrightarrow>
    length (sent st') < 2 ^ 64 - 2 \<Longrightarrow> mpsc_run st0 st'"

section \<open>The invariant\<close>

fun number_of :: "'a phase \<Rightarrow> u64 option" where
  "number_of Idle = None"
| "number_of (Spin h m) = Some h"
| "number_of (Seen h m) = Some h"
| "number_of (Owned h m) = Some h"
| "number_of (Written h m) = Some h"

fun message_of :: "'a phase \<Rightarrow> 'a option" where
  "message_of Idle = None"
| "message_of (Spin h m) = Some m"
| "message_of (Seen h m) = Some m"
| "message_of (Owned h m) = Some m"
| "message_of (Written h m) = Some m"

text \<open>What the slot of a number looks like while its producer is at work.\<close>

fun slot_phase :: "'a phase \<Rightarrow> u64 \<Rightarrow> 'a \<Rightarrow> bool" where
  "slot_phase Idle q d \<longleftrightarrow> False"
| "slot_phase (Spin h m) q d \<longleftrightarrow> q = 0"
| "slot_phase (Seen h m) q d \<longleftrightarrow> q = 0"
| "slot_phase (Owned h m) q d \<longleftrightarrow> q = UINT64_MAX"
| "slot_phase (Written h m) q d \<longleftrightarrow> q = UINT64_MAX \<and> d = m"

definition slot_ok :: "'a mpsc_state \<Rightarrow> nat \<Rightarrow> bool" where
  "slot_ok st i \<longleftrightarrow>
     (\<exists>p. number_of (phase_of st p) = Some (of_nat i) \<and> message_of (phase_of st p) = Some (sent st ! i) \<and>
        (\<forall>p'. number_of (phase_of st p') = Some (of_nat i) \<longrightarrow> p' = p) \<and>
        slot_phase (phase_of st p) (seq_at (the_ring st) (of_nat i)) (data_at (the_ring st) (of_nat i))) \<or>
     (\<forall>p. number_of (phase_of st p) \<noteq> Some (of_nat i)) \<and> seq_at (the_ring st) (of_nat i) = of_nat i + 1 \<and>
       data_at (the_ring st) (of_nat i) = sent st ! i"

definition mpsc_inv :: "'a mpsc_state \<Rightarrow> bool" where
  "mpsc_inv st \<longleftrightarrow> (let r = the_ring st; cap = length (mpsc_slots r); a = length (received st); b = length (sent st) in
     0 < cap \<and> a \<le> b \<and> b \<le> a + cap \<and> b < 2 ^ 64 - 2 \<and> claim_idx r = of_nat b \<and> read_cursor r = of_nat a + 1 \<and>
     received st = take a (sent st) \<and>
     (\<forall>p h. number_of (phase_of st p) = Some h \<longrightarrow> a \<le> unat h \<and> unat h < b) \<and>
     (\<forall>i. a \<le> i \<longrightarrow> i < b \<longrightarrow> slot_ok st i) \<and>
     (\<forall>i. b \<le> i \<longrightarrow> i < a + cap \<longrightarrow> i < 2 ^ 64 \<longrightarrow> seq_at r (of_nat i) = 0) \<and>
     (holding st \<longrightarrow> a < b \<and> seq_at r (of_nat a) = of_nat a + 1))"

lemma mpsc_new_inv: "0 < cap \<Longrightarrow> mpsc_inv (new_mpsc_state cap d)"
  by (simp add: mpsc_inv_def new_mpsc_state_def new_MPSCRing_def Let_def seq_at_def slot_at_def)

lemma slot_window:
  assumes "a \<le> i" "i < a + length (mpsc_slots r)" "i < 2 ^ 64" and "a \<le> j" "j < a + length (mpsc_slots r)" "j < 2 ^ 64"
  shows "slot_at r (of_nat i) = slot_at r (of_nat j) \<longleftrightarrow> i = j"
proof -
  have u: "unat (of_nat i :: u64) = i" "unat (of_nat j :: u64) = j" using assms(3,6) by (simp_all add: unat_of_nat)
  show ?thesis
    using mod_window [of i j "length (mpsc_slots r)"] mod_window [of j i "length (mpsc_slots r)"] assms
    by (cases i j rule: linorder_cases) (auto simp: slot_at_def u)
qed

lemma slot_bound: "0 < length (mpsc_slots r) \<Longrightarrow> slot_at r h < length (mpsc_slots r)"
  by (simp add: slot_at_def)

lemma set_seq_fields [simp]:
  "length (mpsc_slots (set_seq h n r)) = length (mpsc_slots r)" "claim_idx (set_seq h n r) = claim_idx r"
  "read_cursor (set_seq h n r) = read_cursor r" "slot_at (set_seq h n r) k = slot_at r k"
  "length (mpsc_slots (handleData h d r)) = length (mpsc_slots r)" "claim_idx (handleData h d r) = claim_idx r"
  "read_cursor (handleData h d r) = read_cursor r" "slot_at (handleData h d r) k = slot_at r k"
  by (simp_all add: set_seq_def handleData_def slot_at_def)

lemma at_set_seq:
  assumes "0 < length (mpsc_slots r)"
  shows "seq_at (set_seq h n r) k = (if slot_at r k = slot_at r h then n else seq_at r k)"
    and "data_at (set_seq h n r) k = data_at r k"
    and "seq_at (handleData h d r) k = seq_at r k"
    and "data_at (handleData h d r) k = (if slot_at r k = slot_at r h then d else data_at r k)"
  using slot_bound [OF assms, of h] slot_bound [OF assms, of k]
  by (simp_all add: seq_at_def data_at_def nth_list_update) (auto simp: set_seq_def handleData_def nth_list_update)

lemma slot_okD:
  assumes "slot_ok st i" and "number_of (phase_of st p) = Some (of_nat i)"
  shows "message_of (phase_of st p) = Some (sent st ! i)" and "number_of (phase_of st p') = Some (of_nat i) \<longleftrightarrow> p' = p"
    and "slot_phase (phase_of st p) (seq_at (the_ring st) (of_nat i)) (data_at (the_ring st) (of_nat i))"
  using assms unfolding slot_ok_def by metis+

lemma busy_seq: "slot_phase ph q d \<Longrightarrow> q = 0 \<or> q = UINT64_MAX"
  by (cases ph) simp_all

lemma published_seq: "i < 2 ^ 64 - 2 \<Longrightarrow> (of_nat i + 1 :: u64) \<noteq> 0 \<and> (of_nat i + 1 :: u64) \<noteq> UINT64_MAX"
proof -
  assume i: "i < 2 ^ 64 - 2"
  then have "unat (of_nat (Suc i) :: u64) = Suc i" by (simp add: unat_of_nat del: of_nat_Suc)
  moreover have "unat UINT64_MAX = 2 ^ 64 - 1" by simp
  moreover have "(of_nat i + 1 :: u64) = of_nat (Suc i)" by (simp add: add.commute)
  ultimately have "unat (of_nat i + 1 :: u64) = Suc i" "Suc i < unat UINT64_MAX" using i by (simp_all del: of_nat_Suc)
  then show ?thesis by (metis less_irrefl nat.distinct(1) unat_0)
qed

lemma mpsc_invD:
  assumes "mpsc_inv st"
  shows "0 < length (mpsc_slots (the_ring st))" and "length (received st) \<le> length (sent st)"
    and "length (sent st) \<le> length (received st) + length (mpsc_slots (the_ring st))" and "length (sent st) < 2 ^ 64 - 2"
    and "claim_idx (the_ring st) = of_nat (length (sent st))" and "read_cursor (the_ring st) = of_nat (length (received st)) + 1"
    and "received st = take (length (received st)) (sent st)"
    and "number_of (phase_of st p) = Some h \<Longrightarrow> length (received st) \<le> unat h \<and> unat h < length (sent st)"
    and "length (received st) \<le> i \<Longrightarrow> i < length (sent st) \<Longrightarrow> slot_ok st i"
    and "length (sent st) \<le> i \<Longrightarrow> i < length (received st) + length (mpsc_slots (the_ring st)) \<Longrightarrow> i < 2 ^ 64 \<Longrightarrow> seq_at (the_ring st) (of_nat i) = 0"
    and "holding st \<Longrightarrow> length (received st) < length (sent st) \<and>
      seq_at (the_ring st) (of_nat (length (received st))) = of_nat (length (received st)) + 1"
  using assms unfolding mpsc_inv_def Let_def by blast+

lemma slot_ok_cong:
  assumes "slot_ok st j" and "\<And>q. number_of (phase_of st' q) = Some (of_nat j) \<longleftrightarrow> number_of (phase_of st q) = Some (of_nat j)"
    and "\<And>q. number_of (phase_of st q) = Some (of_nat j) \<Longrightarrow> phase_of st' q = phase_of st q"
    and "seq_at (the_ring st') (of_nat j) = seq_at (the_ring st) (of_nat j)"
    and "data_at (the_ring st') (of_nat j) = data_at (the_ring st) (of_nat j)" and "sent st' ! j = sent st ! j"
  shows "slot_ok st' j"
  using assms(1) unfolding slot_ok_def assms(2,4,5,6) by (metis assms(3))

lemma producer_step:
  assumes inv: "mpsc_inv st" and ph: "number_of (phase_of st p) = Some h"
    and r': "length (mpsc_slots r') = length (mpsc_slots (the_ring st))" "claim_idx r' = claim_idx (the_ring st)"
      "read_cursor r' = read_cursor (the_ring st)"
    and frame: "\<And>k. slot_at (the_ring st) k \<noteq> slot_at (the_ring st) h \<Longrightarrow> seq_at r' k = seq_at (the_ring st) k \<and> data_at r' k = data_at (the_ring st) k"
    and ph': "number_of ph' = Some h \<and> message_of ph' = message_of (phase_of st p) \<and> slot_phase ph' (seq_at r' h) (data_at r' h) \<or>
      ph' = Idle \<and> seq_at r' h = h + 1 \<and> message_of (phase_of st p) = Some (data_at r' h)"
  shows "mpsc_inv (st\<lparr>the_ring := r', phase_of := (phase_of st)(p := ph')\<rparr>)" (is "mpsc_inv ?st'")
proof -
  let ?a = "length (received st)" and ?b = "length (sent st)" and ?r = "the_ring st" and ?i = "unat h"
  note D = mpsc_invD [OF inv]
  have i: "?a \<le> ?i" "?i < ?b" "of_nat ?i = h" using D(8) [OF ph] by simp_all
  have phi: "number_of (phase_of st p) = Some (of_nat ?i)" using ph by simp
  note sk = slot_okD [OF D(9) [OF i(1,2)] phi]
  have win: "slot_at ?r (of_nat j) = slot_at ?r h \<longleftrightarrow> j = ?i" if "?a \<le> j" "j < ?a + length (mpsc_slots ?r)" "j < 2 ^ 64" for j
    using slot_window [OF that, of ?i] i D(3,4) by simp
  have fr: "seq_at r' (of_nat j) = seq_at ?r (of_nat j) \<and> data_at r' (of_nat j) = data_at ?r (of_nat j)"
    if "?a \<le> j" "j < ?a + length (mpsc_slots ?r)" "j < 2 ^ 64" "j \<noteq> ?i" for j
    using frame win [OF that(1-3)] that(4) by simp
  have num: "number_of (phase_of ?st' q) = Some k \<longleftrightarrow> number_of (phase_of st q) = Some k" if "k \<noteq> h" for q k
    using ph ph' that by auto
  have ok: "slot_ok ?st' j" if j: "?a \<le> j" "j < ?b" for j
  proof (cases "j = ?i")
    case True
    show ?thesis using ph' sk i(3) unfolding slot_ok_def True by (auto intro!: exI [of _ p])
  next
    case False
    have "unat (of_nat j :: u64) = j" using j D(4) by (simp add: unat_of_nat)
    then have "of_nat j \<noteq> h" using False by auto
    then have n: "number_of (phase_of ?st' q) = Some (of_nat j) \<longleftrightarrow> number_of (phase_of st q) = Some (of_nat j)" for q by (rule num)
    have "phase_of ?st' q = phase_of st q" if "number_of (phase_of st q) = Some (of_nat j)" for q
      using that ph \<open>of_nat j \<noteq> h\<close> by auto
    moreover have "j < ?a + length (mpsc_slots ?r)" "j < 2 ^ 64" using j D(3,4) by simp_all
    ultimately show ?thesis using fr [of j] j False by (intro slot_ok_cong [OF D(9) [OF j] n]) simp_all
  qed
  have hold: "seq_at r' (of_nat ?a) = of_nat ?a + 1" if "holding st"
  proof -
    have "?a \<noteq> ?i" using D(11) [OF that] busy_seq [OF sk(3)] i published_seq [of ?a] D(4) by auto
    then show ?thesis using fr [of ?a] D(1,2,4) D(11) [OF that] by simp
  qed
  have bd: "?a \<le> unat k \<and> unat k < ?b" if "number_of (phase_of ?st' q) = Some k" for q k
    using num [of k q] that D(8) [of q k] i(1,2) by (cases "k = h") simp_all
  have free: "seq_at r' (of_nat j) = 0" if "?b \<le> j" "j < ?a + length (mpsc_slots ?r)" "j < 2 ^ 64" for j
    using fr [of j] D(10) [OF that] that D(2) i(2) by simp
  show ?thesis
    unfolding mpsc_inv_def Let_def using D(1-7) D(11) ok hold bd free r' by simp
qed

text \<open>The other steps.\<close>

lemma claim_step:
  assumes inv: "mpsc_inv st" and p: "phase_of st p = Idle" and c: "claim (the_ring st) = (h, r')"
    and room: "Suc (length (sent st)) - length (received st) \<le> length (mpsc_slots (the_ring st))" "Suc (length (sent st)) < 2 ^ 64 - 2"
  shows "mpsc_inv (st\<lparr>the_ring := r', phase_of := (phase_of st)(p := Spin h m), sent := sent st @ [m]\<rparr>)" (is "mpsc_inv ?st'")
proof -
  let ?a = "length (received st)" and ?b = "length (sent st)" and ?r = "the_ring st"
  note D = mpsc_invD [OF inv]
  have h: "h = of_nat ?b" and r': "r' = ?r\<lparr>claim_idx := of_nat ?b + 1\<rparr>" using c D(5) by (auto simp: claim_def)
  have at: "seq_at r' k = seq_at ?r k" "data_at r' k = data_at ?r k" for k by (simp_all add: r' seq_at_def data_at_def slot_at_def)
  have ub: "unat h = ?b" using D(4) by (simp add: h unat_of_nat)
  have num: "number_of (phase_of ?st' q) = Some (of_nat j) \<longleftrightarrow> number_of (phase_of st q) = Some (of_nat j)" if "j < ?b" for q j
  proof -
    have "unat (of_nat j :: u64) = j" using that D(4) by (simp add: unat_of_nat)
    then have "of_nat j \<noteq> h" using ub that by auto
    then show ?thesis using p by auto
  qed
  have ok: "slot_ok ?st' j" if j: "?a \<le> j" "j < Suc ?b" for j
  proof (cases "j = ?b")
    case True
    have "number_of (phase_of st q) \<noteq> Some h" for q using D(8) [of q h] ub by auto
    moreover have "seq_at ?r (of_nat ?b) = 0" using D(10) [of ?b] room D(2) by simp
    ultimately show ?thesis unfolding slot_ok_def True using h at by (intro disjI1 exI [of _ p]) (auto split: if_splits)
  next
    case False
    then have jb: "j < ?b" using j by simp
    show ?thesis using p jb by (intro slot_ok_cong [OF D(9) [OF j(1) jb] num [OF jb]]) (auto simp: at nth_append)
  qed
  have bd: "?a \<le> unat k \<and> unat k < Suc ?b" if "number_of (phase_of ?st' q) = Some k" for q k
    using that D(8) [of q k] ub D(2) by (auto split: if_splits)
  show ?thesis unfolding mpsc_inv_def Let_def
    using D(1-4,6,7) D(10,11) ok bd room by (simp add: at) (auto simp: r' add.commute)
qed

lemma consume_step:
  assumes inv: "mpsc_inv st" and hold: "holding st"
  shows "mpsc_inv (st\<lparr>the_ring := consume (the_ring st), holding := False,
      received := received st @ [data_at (the_ring st) (read_cursor (the_ring st) - 1)]\<rparr>)" (is "mpsc_inv ?st'")
proof -
  let ?a = "length (received st)" and ?b = "length (sent st)" and ?r = "the_ring st" and ?r' = "consume (the_ring st)"
  note D = mpsc_invD [OF inv]
  have a: "?a < ?b" "seq_at ?r (of_nat ?a) = of_nat ?a + 1" using D(11) [OF hold] by simp_all
  have cur: "read_cursor ?r - 1 = of_nat ?a" using D(6) by simp
  have none: "number_of (phase_of st q) \<noteq> Some (of_nat ?a)" for q
    using busy_seq [OF slot_okD(3) [OF D(9) [OF _ a(1)], of q]] a published_seq [of ?a] D(4) by auto
  have dat: "data_at ?r (of_nat ?a) = sent st ! ?a" using D(9) [OF _ a(1)] none unfolding slot_ok_def by auto
  have at: "seq_at ?r' k = (if slot_at ?r k = slot_at ?r (of_nat ?a) then 0 else seq_at ?r k)" "data_at ?r' k = data_at ?r k" for k
    using at_set_seq(1,2) [OF D(1)] cur by (simp_all add: consume_def seq_at_def data_at_def slot_at_def)
  have far: "seq_at ?r' (of_nat j) = seq_at ?r (of_nat j)" if "Suc ?a \<le> j" "j < ?a + length (mpsc_slots ?r)" "j < 2 ^ 64" for j
    using slot_window [of ?a j ?r ?a] that D(1,4) a(1) by (simp add: at)
  have wrap: "seq_at ?r' (of_nat j) = 0" if "j = ?a + length (mpsc_slots ?r)" "j < 2 ^ 64" for j
  proof -
    have u: "unat (of_nat j :: u64) = j" "unat (of_nat ?a :: u64) = ?a" using that(2) D(4) a(1) by (simp_all add: unat_of_nat)
    have "slot_at ?r (of_nat j) = slot_at ?r (of_nat ?a)" unfolding slot_at_def u unfolding that(1) by simp
    then show ?thesis by (simp add: at)
  qed
  have ok: "slot_ok ?st' j" if j: "Suc ?a \<le> j" "j < ?b" for j
    using far [of j] j D(3,4) by (intro slot_ok_cong [OF D(9)]) (simp_all add: at(2))
  have bd: "Suc ?a \<le> unat k \<and> unat k < ?b" if "number_of (phase_of st q) = Some k" for q k
  proof -
    have "of_nat (unat k) = k" by simp
    then have "unat k \<noteq> ?a" using none [of q] that by metis
    then show ?thesis using D(8) [OF that] by simp
  qed
  have free: "seq_at ?r' (of_nat j) = 0" if "?b \<le> j" "j < Suc ?a + length (mpsc_slots ?r)" "j < 2 ^ 64" for j
    using far [of j] wrap [of j] D(10) [of j] that a(1) by (cases "j = ?a + length (mpsc_slots ?r)") simp_all
  have "received st @ [sent st ! ?a] = take (Suc ?a) (sent st)" using D(7) a(1) by (simp add: take_Suc_conv_app_nth)
  moreover have "read_cursor ?r' = of_nat (Suc ?a) + 1" "claim_idx ?r' = of_nat ?b" "length (mpsc_slots ?r') = length (mpsc_slots ?r)"
    using D(5,6) by (simp_all add: consume_def)
  ultimately show ?thesis unfolding mpsc_inv_def Let_def using D(1,3,4) a(1) ok bd free dat cur by simp
qed


lemma mpsc_step_inv:
  assumes "mpsc_step st st'" and inv: "mpsc_inv st"
    and room: "in_flight st' \<le> length (mpsc_slots (the_ring st'))" "length (sent st') < 2 ^ 64 - 2"
  shows "mpsc_inv st'"
  using assms(1)
proof cases
  case (claims p h r m)
  then show ?thesis using claim_step [OF inv claims(2,3)] room by (auto simp: in_flight_def claim_def)
next
  case (spins p h m)
  then have "mpsc_inv (st\<lparr>the_ring := the_ring st, phase_of := (phase_of st)(p := Seen h m)\<rparr>)"
    using producer_step [OF inv, of p h "the_ring st" "Seen h m"] by (simp add: slot_free_def)
  then show ?thesis using spins by simp
next
  case (marks p h m)
  then show ?thesis using producer_step [OF inv, of p h "occupy h (the_ring st)" "Owned h m"] at_set_seq [OF mpsc_invD(1) [OF inv]]
    by (simp add: occupy_def)
next
  case (writes p h m)
  have h: "of_nat (unat h) = h" by simp
  have "seq_at (the_ring st) h = UINT64_MAX"
    using slot_okD(3) [OF mpsc_invD(9) [OF inv], of "unat h" p] mpsc_invD(8) [OF inv, of p h] writes(2) h by simp
  then show ?thesis
    using writes producer_step [OF inv, of p h "handleData h m (the_ring st)" "Written h m"] at_set_seq [OF mpsc_invD(1) [OF inv]] by simp
next
  case (publishes p h m)
  have "data_at (the_ring st) h = m"
    using slot_okD(3) [OF mpsc_invD(9) [OF inv], of "unat h" p] mpsc_invD(8) [OF inv, of p h] publishes(2) by simp
  then show ?thesis
    using publishes producer_step [OF inv, of p h "commit h (the_ring st)" Idle] at_set_seq [OF mpsc_invD(1) [OF inv]] by (simp add: commit_def)
next
  case pops
  let ?a = "length (received st)"
  have seq: "seq_at (the_ring st) (of_nat ?a) = of_nat ?a + 1"
    using pops(3) mpsc_invD(6) [OF inv] by (simp add: tryPop_def split: if_splits)
  moreover have "?a < length (sent st)"
  proof (rule ccontr)
    assume "\<not> ?a < length (sent st)"
    then have e: "length (sent st) = ?a" using mpsc_invD(2) [OF inv] by simp
    then have "seq_at (the_ring st) (of_nat ?a) = 0" using mpsc_invD(1,4) [OF inv] mpsc_invD(10) [OF inv, of ?a] by simp
    then show False using seq published_seq [of ?a] e mpsc_invD(4) [OF inv] by simp
  qed
  moreover have "slot_ok (st\<lparr>holding := True\<rparr>) i = slot_ok st i" for i by (simp add: slot_ok_def)
  ultimately show ?thesis using pops inv by (simp add: mpsc_inv_def Let_def)
next
  case consumes
  then show ?thesis using consume_step [OF inv] by simp
qed

lemma mpsc_run_inv:
  assumes "mpsc_run st0 st" and "mpsc_inv st0"
  shows "mpsc_inv st"
  using assms by induction (auto intro: mpsc_step_inv)

section \<open>Running the threads\<close>

text \<open>A schedule, executed.\<close>

datatype 'a mpsc_action = Claim nat 'a | See nat | Mark nat | Put nat | Publish nat | Pop | Take

fun mpsc_act :: "'a mpsc_action \<Rightarrow> 'a mpsc_state \<Rightarrow> 'a mpsc_state option" where
  "mpsc_act (Claim p m) st = (case phase_of st p of
     Idle \<Rightarrow> (case claim (the_ring st) of (h, r) \<Rightarrow>
       Some (st\<lparr>the_ring := r, phase_of := (phase_of st)(p := Spin h m), sent := sent st @ [m]\<rparr>)) | _ \<Rightarrow> None)"
| "mpsc_act (See p) st = (case phase_of st p of
     Spin h m \<Rightarrow> if slot_free h (the_ring st) then Some (st\<lparr>phase_of := (phase_of st)(p := Seen h m)\<rparr>) else None | _ \<Rightarrow> None)"
| "mpsc_act (Mark p) st = (case phase_of st p of
     Seen h m \<Rightarrow> Some (st\<lparr>the_ring := occupy h (the_ring st), phase_of := (phase_of st)(p := Owned h m)\<rparr>) | _ \<Rightarrow> None)"
| "mpsc_act (Put p) st = (case phase_of st p of
     Owned h m \<Rightarrow> Some (st\<lparr>the_ring := handleData h m (the_ring st), phase_of := (phase_of st)(p := Written h m)\<rparr>) | _ \<Rightarrow> None)"
| "mpsc_act (Publish p) st = (case phase_of st p of
     Written h m \<Rightarrow> Some (st\<lparr>the_ring := commit h (the_ring st), phase_of := (phase_of st)(p := Idle)\<rparr>) | _ \<Rightarrow> None)"
| "mpsc_act Pop st = (if \<not> holding st \<and> tryPop (the_ring st) \<noteq> None then Some (st\<lparr>holding := True\<rparr>) else None)"
| "mpsc_act Take st = (if holding st then Some (st\<lparr>the_ring := consume (the_ring st), holding := False,
     received := received st @ [data_at (the_ring st) (read_cursor (the_ring st) - 1)]\<rparr>) else None)"

lemma mpsc_act_step: "mpsc_act a st = Some st' \<Longrightarrow> mpsc_step st st'"
  by (cases a) (auto split: phase.splits prod.splits if_splits intro: mpsc_step.intros)

text \<open>A schedule that stays within the ring.\<close>

fun mpsc_acts :: "'a mpsc_action list \<Rightarrow> 'a mpsc_state \<Rightarrow> 'a mpsc_state option" where
  "mpsc_acts [] st = Some st"
| "mpsc_acts (a # as) st = (case mpsc_act a st of
     None \<Rightarrow> None
   | Some st' \<Rightarrow> if in_flight st' \<le> length (mpsc_slots (the_ring st')) then mpsc_acts as st' else None)"

lemma mpsc_run_acts:
  assumes "mpsc_acts as st = Some st'" and "mpsc_run st0 st" and "length (sent st) + length as < 2 ^ 64 - 2"
  shows "mpsc_run st0 st'"
  using assms
proof (induction as arbitrary: st)
  case (Cons a as)
  obtain st1 where st1: "mpsc_act a st = Some st1" "mpsc_acts as st1 = Some st'" "in_flight st1 \<le> length (mpsc_slots (the_ring st1))"
    using Cons.prems(1) by (auto split: option.splits if_splits)
  have "length (sent st1) \<le> Suc (length (sent st))"
    using st1(1) by (cases a) (auto split: phase.splits prod.splits if_splits)
  then have l: "length (sent st1) + length as < 2 ^ 64 - 2" using Cons.prems(3) by simp
  then have "mpsc_run st0 st1" by (intro mpsc_run.continues [OF Cons.prems(2) mpsc_act_step [OF st1(1)] st1(3)]) simp
  then show ?case using Cons.IH [OF st1(2)] l by simp
qed simp

lemma mpsc_acts_run: "mpsc_acts as (new_mpsc_state n d) = Some st \<Longrightarrow> length as < 2 ^ 64 - 2 \<Longrightarrow> mpsc_run (new_mpsc_state n d) st"
  by (rule mpsc_run_acts [OF _ mpsc_run.begins]) (simp_all add: new_mpsc_state_def)

fun acts_on :: "'a mpsc_action \<Rightarrow> nat option" where
  "acts_on (Claim p m) = Some p"
| "acts_on (See p) = Some p"
| "acts_on (Mark p) = Some p"
| "acts_on (Put p) = Some p"
| "acts_on (Publish p) = Some p"
| "acts_on Pop = None"
| "acts_on Take = None"

lemma mpsc_acts_others:
  assumes "mpsc_acts as st = Some st'" and "Some p \<notin> acts_on ` set as"
  shows "phase_of st' p = phase_of st p"
  using assms
proof (induction as arbitrary: st)
  case (Cons a as)
  obtain st1 where st1: "mpsc_act a st = Some st1" "mpsc_acts as st1 = Some st'"
    using Cons.prems(1) by (auto split: option.splits if_splits)
  have "phase_of st1 p = phase_of st p"
    using st1(1) Cons.prems(2) by (cases a) (auto split: phase.splits prod.splits if_splits)
  then show ?case using Cons.IH [OF st1(2)] Cons.prems(2) by simp
qed simp

definition mpsc_holds :: "'a mpsc_state option \<Rightarrow> ('a mpsc_state \<Rightarrow> bool) \<Rightarrow> bool" where
  "mpsc_holds x P \<longleftrightarrow> (case x of None \<Rightarrow> False | Some st \<Rightarrow> P st)"

lemma mpsc_holdsD: "mpsc_holds x P \<Longrightarrow> \<exists>st. x = Some st \<and> P st"
  by (simp add: mpsc_holds_def split: option.splits)

lemma mpsc_demo: "\<exists>st. mpsc_acts [Claim 0 7, Claim 1 8, See 1, Mark 1, Put 1, Publish 1, See 0, Mark 0, Put 0, Publish 0, Pop, Take]
    (new_mpsc_state 2 (0 :: nat)) = Some st \<and> sent st = [7, 8] \<and> length (received st) = 1 \<and> phase_of st 0 = Idle \<and> phase_of st 1 = Idle"
  by (rule mpsc_holdsD) code_simp

definition mpsc_lap :: "nat mpsc_state option" where
  "mpsc_lap = fold (\<lambda>a st. Option.bind st (mpsc_act a))
     [Claim 0 7, Claim 1 8, See 0, See 1, Mark 0, Put 0, Mark 1, Put 1, Publish 0, Pop, Take] (Some (new_mpsc_state 1 0))"

lemma mpsc_lap_facts: "\<exists>st. mpsc_lap = Some st \<and> sent st = [7, 8] \<and> received st = [8]"
  by (rule mpsc_holdsD) code_simp

lemma mpsc_fold_reaches:
  "fold (\<lambda>a st. Option.bind st (mpsc_act a)) as (Some st) = Some st' \<Longrightarrow> mpsc_step\<^sup>*\<^sup>* st st'"
proof (induction as arbitrary: st)
  case (Cons a as)
  have none: "fold (\<lambda>a st. Option.bind st (mpsc_act a)) as None = None" by (induction as) auto
  show ?case
  proof (cases "mpsc_act a st")
    case None
    then show ?thesis using Cons.prems none by simp
  next
    case (Some st1)
    then show ?thesis using Cons mpsc_act_step [OF Some] by (auto intro: converse_rtranclp_into_rtranclp)
  qed
qed simp

lemma mpsc_lap_reaches: "mpsc_lap = Some st \<Longrightarrow> mpsc_step\<^sup>*\<^sup>* (new_mpsc_state 1 0) st"
  unfolding mpsc_lap_def by (rule mpsc_fold_reaches)

section \<open>Theorems\<close>

text \<open>
  C38: the ring delivers in order, and nothing twice, whatever the interleaving.  As long as no more numbers
  are claimed than the ring has slots, the consumer has received exactly the first messages in the
  order their numbers were claimed, each as its producer wrote it; and when no producer is in the
  middle of sending and something is outstanding, the consumer finds it.
\<close>

theorem mpsc_delivers_in_order:
  assumes "mpsc_run (new_mpsc_state cap d) st" and "0 < cap"
  shows "received st = take (length (received st)) (sent st) \<and>
    ((\<forall>p. phase_of st p = Idle) \<longrightarrow> length (received st) < length (sent st) \<longrightarrow>
      tryPop (the_ring st) = Some (sent st ! length (received st)))"
proof -
  have inv: "mpsc_inv st" using mpsc_run_inv [OF assms(1) mpsc_new_inv [OF assms(2)]] .
  have "tryPop (the_ring st) = Some (sent st ! length (received st))"
    if idle: "\<forall>p. phase_of st p = Idle" and less: "length (received st) < length (sent st)"
    using mpsc_invD(9) [OF inv _ less] mpsc_invD(6) [OF inv] idle by (simp add: slot_ok_def tryPop_def)
  then show ?thesis using mpsc_invD(7) [OF inv] by blast
qed

theorem mpsc_delivers_in_order_witness:
  "\<exists>st. mpsc_run (new_mpsc_state 2 (0 :: nat)) st \<and> sent st = [7, 8] \<and> received st = take (length (received st)) [7, 8] \<and>
    length (received st) = 1 \<and> tryPop (the_ring st) = Some 8"
proof -
  obtain st where st: "mpsc_acts [Claim 0 7, Claim 1 8, See 1, Mark 1, Put 1, Publish 1, See 0, Mark 0, Put 0, Publish 0, Pop, Take]
      (new_mpsc_state 2 (0 :: nat)) = Some st" "sent st = [7, 8]" "length (received st) = 1" "phase_of st 0 = Idle" "phase_of st 1 = Idle"
    using mpsc_demo by blast
  have "phase_of st p = Idle" for p
    using st(4,5) mpsc_acts_others [OF st(1), of p] by (cases "p = 0 \<or> p = 1") (auto simp: new_mpsc_state_def)
  moreover have run: "mpsc_run (new_mpsc_state 2 0) st" by (rule mpsc_acts_run [OF st(1)]) simp
  ultimately show ?thesis using mpsc_delivers_in_order [OF run] st(2,3) by (intro exI [of _ st]) simp
qed

text \<open>
  More numbers in flight than slots: two producers a lap apart wait for the same slot, both see it
  free, and the second overwrites the message of the first before it is read.
\<close>

theorem mpsc_overrun_loses_message:
  "\<exists>st. mpsc_step\<^sup>*\<^sup>* (new_mpsc_state 1 (0 :: nat)) st \<and> sent st = [7, 8] \<and> received st = [8]"
proof -
  obtain st where st: "mpsc_lap = Some st" "sent st = [7, 8]" "received st = [8]"
    using mpsc_lap_facts by blast
  show ?thesis using mpsc_lap_reaches [OF st(1)] st(2,3) by blast
qed

end
