(* ===== verification/Logger.thy ===== *)
theory Logger
  imports Mpsc_Ring
begin

text \<open>
  \<^verbatim>\<open>include/logger.h\<close> and \<^verbatim>\<open>src/logger.cpp\<close>: log calls put entries into the ring, a consumer thread writes
  them to the file.  What \<^verbatim>\<open>open\<close> and \<^verbatim>\<open>eventfd\<close> return, the formatted text and the time stamps are
  arguments; the file is the list of the lines written to it.
\<close>

section \<open>Entries\<close>

datatype log_level = LOG_FATAL | LOG_ERROR | LOG_WARN | LOG_INFO

fun level_value :: "log_level \<Rightarrow> nat" where
  "level_value LOG_FATAL = 0"
| "level_value LOG_ERROR = 1"
| "level_value LOG_WARN = 2"
| "level_value LOG_INFO = 3"

fun levelStr :: "log_level \<Rightarrow> string" where
  "levelStr LOG_FATAL = ''FATAL''"
| "levelStr LOG_ERROR = ''ERROR''"
| "levelStr LOG_WARN = ''WARN''"
| "levelStr LOG_INFO = ''INFO''"

record log_entry =
  le_level :: log_level
  le_msg :: string

record logger =
  lg_ring :: "log_entry mpsc_ring"
  wake_fd :: int
  log_fd :: int
  threshold :: log_level
  stopped :: bool
  wake_count :: nat
  log_file :: "string list"

definition new_Logger :: "nat \<Rightarrow> logger" where
  "new_Logger cap = \<lparr>lg_ring = new_MPSCRing cap \<lparr>le_level = LOG_FATAL, le_msg = []\<rparr>, wake_fd = - 1, log_fd = - 1,
     threshold = LOG_INFO, stopped = False, wake_count = 0, log_file = []\<rparr>"

section \<open>Operations\<close>

definition logger_init :: "log_level \<Rightarrow> int \<Rightarrow> int \<Rightarrow> logger \<Rightarrow> logger" where
  "logger_init thr fd efd lg =
     (let lg1 = lg\<lparr>threshold := thr, log_fd := fd\<rparr> in
      if fd < 0 then lg1
      else if efd < 0 then lg1\<lparr>wake_fd := efd, log_fd := - 1\<rparr>
      else lg1\<lparr>wake_fd := efd\<rparr>)"

text \<open>\<^verbatim>\<open>msg\<close> holds 255 bytes, so \<^verbatim>\<open>vsnprintf\<close> keeps 254 characters of the text.\<close>

definition log_msg :: "log_level \<Rightarrow> string \<Rightarrow> logger \<Rightarrow> logger option" where
  "log_msg level body lg =
     (if level_value level > level_value (threshold lg) then Some lg
      else if log_fd lg < 0 then Some lg
      else do {
        (handle, r1) \<leftarrow> mpsc_alloc (lg_ring lg);
        let r2 = handleData handle \<lparr>le_level = level, le_msg = take 254 body\<rparr> r1;
        let lg1 = lg\<lparr>lg_ring := commit handle r2\<rparr>;
        Some (if wake_fd lg1 \<ge> 0 then lg1\<lparr>wake_count := wake_count lg1 + 1\<rparr> else lg1)
      })"

definition log_line :: "string \<Rightarrow> log_entry \<Rightarrow> string" where
  "log_line ts e = ''['' @ ts @ ''] ['' @ levelStr (le_level e) @ ''] '' @ le_msg e @ [CHR 0x0A]"

text \<open>The loop \<^verbatim>\<open>while (entry = ring_.tryPop())\<close> of the consumer and of \<^verbatim>\<open>shutdown\<close>.\<close>

partial_function (option) drain :: "string \<Rightarrow> logger \<Rightarrow> logger option" where
  "drain ts lg =
     (case tryPop (lg_ring lg) of
        None \<Rightarrow> Some lg
      | Some e \<Rightarrow> drain ts (lg\<lparr>log_file := log_file lg @ [log_line ts e], lg_ring := consume (lg_ring lg)\<rparr>))"

declare drain.simps [code]

text \<open>One turn of \<^verbatim>\<open>consumerLoop\<close>; without an entry it waits for the counter of the event descriptor and clears it.\<close>

definition consumer_turn :: "string \<Rightarrow> logger \<Rightarrow> logger option" where
  "consumer_turn ts lg =
     (if stopped lg then Some lg
      else case tryPop (lg_ring lg) of
        None \<Rightarrow> Some (lg\<lparr>wake_count := 0\<rparr>)
      | Some e \<Rightarrow> drain ts (lg\<lparr>log_file := log_file lg @ [log_line ts e], lg_ring := consume (lg_ring lg)\<rparr>))"

definition logger_shutdown :: "string \<Rightarrow> logger \<Rightarrow> logger option" where
  "logger_shutdown ts lg = do {
     let lg1 = lg\<lparr>stopped := True\<rparr>;
     let lg2 = (if wake_fd lg1 \<ge> 0 then lg1\<lparr>wake_count := wake_count lg1 + 1\<rparr> else lg1);
     lg3 \<leftarrow> (if log_fd lg2 \<ge> 0 then map_option (\<lambda>l. l\<lparr>log_fd := - 1\<rparr>) (drain ts lg2) else Some lg2);
     Some (if wake_fd lg3 \<ge> 0 then lg3\<lparr>wake_fd := - 1\<rparr> else lg3)
   }"

section \<open>Use of the ring\<close>

text \<open>What the logger relies on: a queue with what it has delivered and what it still holds.\<close>

locale message_queue =
  fixes put :: "'a \<Rightarrow> 'q \<Rightarrow> 'q option" and peek :: "'q \<Rightarrow> 'a option" and drop_front :: "'q \<Rightarrow> 'q"
    and rep :: "'q \<Rightarrow> 'a list \<Rightarrow> 'a list \<Rightarrow> bool" and capacity_of :: "'q \<Rightarrow> nat"
  assumes put_room: "rep q old pending \<Longrightarrow> length pending < capacity_of q \<Longrightarrow> length old + length pending < 2 ^ 64 - 3 \<Longrightarrow>
      \<exists>q'. put x q = Some q' \<and> rep q' old (pending @ [x]) \<and> capacity_of q' = capacity_of q"
    and peek_empty: "rep q old [] \<Longrightarrow> peek q = None"
    and peek_front: "rep q old (x # pending) \<Longrightarrow> peek q = Some x"
    and drop_rep: "rep q old (x # pending) \<Longrightarrow> rep (drop_front q) (old @ [x]) pending \<and> capacity_of (drop_front q) = capacity_of q"
begin

text \<open>Peeking and dropping until nothing is left delivers what is pending, in order.\<close>

lemma take_all:
  "rep q old pending \<Longrightarrow> rep ((drop_front ^^ length pending) q) (old @ pending) [] \<and>
     (\<forall>i < length pending. peek ((drop_front ^^ i) q) = Some (pending ! i))"
proof (induction pending arbitrary: q old)
  case (Cons x pending)
  note d = drop_rep [OF Cons.prems]
  have IH: "rep ((drop_front ^^ length pending) (drop_front q)) ((old @ [x]) @ pending) []"
    "\<forall>i < length pending. peek ((drop_front ^^ i) (drop_front q)) = Some (pending ! i)" using Cons.IH [of "drop_front q"] d by blast+
  have "peek ((drop_front ^^ i) q) = Some ((x # pending) ! i)" if "i < length (x # pending)" for i
    using that IH(2) peek_front [OF Cons.prems] by (cases i) (simp_all add: funpow_swap1)
  then show ?case using IH(1) by (simp add: funpow_swap1)
qed simp

end

definition ring_put :: "'a \<Rightarrow> 'a mpsc_ring \<Rightarrow> 'a mpsc_ring option" where
  "ring_put x r = map_option (\<lambda>(h, r1). commit h (handleData h x r1)) (mpsc_alloc r)"

text \<open>The ring when no thread is in the middle of an operation.\<close>

definition ring_rep :: "'a mpsc_ring \<Rightarrow> 'a list \<Rightarrow> 'a list \<Rightarrow> bool" where
  "ring_rep r old pending \<longleftrightarrow>
     mpsc_inv \<lparr>the_ring = r, phase_of = (\<lambda>_. Idle), holding = False, sent = old @ pending, received = old\<rparr>"

lemma ring_rep_put:
  assumes rep: "ring_rep r old pending" and room: "length pending < length (mpsc_slots r)" and len: "length old + length pending < 2 ^ 64 - 3"
  shows "\<exists>r'. ring_put x r = Some r' \<and> ring_rep r' old (pending @ [x]) \<and> length (mpsc_slots r') = length (mpsc_slots r)"
proof -
  define s0 where "s0 = \<lparr>the_ring = r, phase_of = (\<lambda>_ :: nat. Idle), holding = False, sent = old @ pending, received = old\<rparr>"
  have inv0: "mpsc_inv s0" using rep by (simp add: ring_rep_def s0_def)
  obtain h r1 where c: "claim r = (h, r1)" by (cases "claim r")
  define s1 where "s1 = s0\<lparr>the_ring := r1, phase_of := (phase_of s0)(0 := Spin h x), sent := sent s0 @ [x]\<rparr>"
  have inv1: "mpsc_inv s1" unfolding s1_def using room len by (intro claim_step [OF inv0]) (simp_all add: s0_def c)
  have r1: "length (mpsc_slots r1) = length (mpsc_slots r)" using c by (auto simp: claim_def)
  have n: "number_of (phase_of s1 0) = Some h" by (simp add: s1_def)
  note D = mpsc_invD [OF inv1]
  have "of_nat (unat h) = h" by simp
  then have "slot_phase (phase_of s1 0) (seq_at r1 h) (data_at r1 h)"
    using slot_okD(3) [OF D(9), of "unat h" 0] D(8) [OF n] n by (simp add: s1_def)
  then have free: "slot_free h r1" by (simp add: s1_def slot_free_def)
  let ?r2 = "occupy h r1" let ?r3 = "handleData h x ?r2" let ?r4 = "commit h ?r3"
  have put: "ring_put x r = Some ?r4" by (simp add: ring_put_def mpsc_alloc_def c free)
  have at: "0 < length (mpsc_slots r1)" using D(1) by (simp add: s1_def)
  have at': "0 < length (mpsc_slots ?r2)" "0 < length (mpsc_slots ?r3)" using at by (simp_all add: occupy_def)
  have "mpsc_inv (s1\<lparr>the_ring := ?r4, phase_of := (phase_of s1)(0 := Idle)\<rparr>)"
    using at_set_seq [OF at] at_set_seq [OF at'(1)] at_set_seq [OF at'(2)] by (intro producer_step [OF inv1 n]) (simp_all add: s1_def commit_def occupy_def)
  moreover have "(phase_of s1)(0 := Idle) = (\<lambda>_. Idle)" by (auto simp: s1_def s0_def)
  ultimately have "ring_rep ?r4 old (pending @ [x])" by (simp add: ring_rep_def s1_def s0_def)
  then show ?thesis using put r1 by (simp add: commit_def occupy_def)
qed

lemma ring_rep_peek:
  assumes "ring_rep r old pending"
  shows "tryPop r = (case pending of [] \<Rightarrow> None | x # xs \<Rightarrow> Some x)"
proof -
  note D = mpsc_invD [OF assms [unfolded ring_rep_def], simplified]
  show ?thesis
  proof (cases pending)
    case Nil
    then have "seq_at r (of_nat (length old)) = 0" using D(1,4) D(10) [of "length old"] by simp
    then show ?thesis using Nil D(4,6) published_seq [of "length old"] by (auto simp: tryPop_def)
  next
    case (Cons x xs)
    then show ?thesis using D(9) [of "length old"] D(6) by (simp add: tryPop_def slot_ok_def)
  qed
qed

lemma ring_rep_drop:
  assumes rep: "ring_rep r old (x # pending)"
  shows "ring_rep (consume r) (old @ [x]) pending \<and> length (mpsc_slots (consume r)) = length (mpsc_slots r)"
proof -
  define s0 where "s0 = \<lparr>the_ring = r, phase_of = (\<lambda>_ :: nat. Idle), holding = True, sent = old @ x # pending, received = old\<rparr>"
  note D = mpsc_invD [OF rep [unfolded ring_rep_def], simplified]
  have ok: "seq_at r (of_nat (length old)) = of_nat (length old) + 1" "data_at r (of_nat (length old)) = x"
    using D(9) [of "length old"] by (simp_all add: slot_ok_def)
  have "mpsc_inv s0"
    using rep ok(1) by (simp add: ring_rep_def mpsc_inv_def s0_def Let_def slot_ok_def)
  then have "mpsc_inv (s0\<lparr>the_ring := consume r, holding := False, received := old @ [data_at r (read_cursor r - 1)]\<rparr>)"
    using consume_step [of s0] by (simp add: s0_def)
  then show ?thesis using D(6) ok(2) by (simp add: ring_rep_def s0_def consume_def)
qed

interpretation log_ring: message_queue ring_put tryPop consume ring_rep "\<lambda>r. length (mpsc_slots r)"
  by unfold_locales (simp_all add: ring_rep_put ring_rep_drop, (drule ring_rep_peek, simp)+)

section \<open>Nothing is lost\<close>

lemma drain_all:
  assumes "ring_rep (lg_ring lg) old pending"
  shows "\<exists>r'. drain ts lg = Some (lg\<lparr>log_file := log_file lg @ map (log_line ts) pending, lg_ring := r'\<rparr>) \<and>
    ring_rep r' (old @ pending) [] \<and> length (mpsc_slots r') = length (mpsc_slots (lg_ring lg))"
  using assms
proof (induction pending arbitrary: lg old)
  case Nil
  then show ?case using log_ring.peek_empty [OF Nil] by (subst drain.simps) (auto intro: exI [of _ "lg_ring lg"])
next
  case (Cons e pending)
  let ?lg = "lg\<lparr>log_file := log_file lg @ [log_line ts e], lg_ring := consume (lg_ring lg)\<rparr>"
  note d = log_ring.drop_rep [OF Cons.prems]
  obtain r' where "drain ts ?lg = Some (?lg\<lparr>log_file := log_file ?lg @ map (log_line ts) pending, lg_ring := r'\<rparr>)"
      "ring_rep r' ((old @ [e]) @ pending) []" "length (mpsc_slots r') = length (mpsc_slots (lg_ring ?lg))"
    using Cons.IH [of ?lg "old @ [e]"] d by auto
  then show ?case using log_ring.peek_front [OF Cons.prems] d by (subst drain.simps) auto
qed

text \<open>Log calls of any threads and turns of the consumer, in some order.\<close>

datatype log_call = Log log_level string | Turn string

fun log_run :: "log_call list \<Rightarrow> logger \<Rightarrow> logger option" where
  "log_run [] lg = Some lg"
| "log_run (Log level body # cs) lg = do { lg1 \<leftarrow> log_msg level body lg; log_run cs lg1 }"
| "log_run (Turn ts # cs) lg = do { lg1 \<leftarrow> consumer_turn ts lg; log_run cs lg1 }"

definition entry_of :: "log_level \<Rightarrow> string \<Rightarrow> log_entry" where
  "entry_of level body = \<lparr>le_level = level, le_msg = take 254 body\<rparr>"

text \<open>The file afterwards: every message of the chosen levels, in the order of the calls.\<close>

fun log_spec :: "log_level \<Rightarrow> string \<Rightarrow> log_entry list \<Rightarrow> log_call list \<Rightarrow> string list" where
  "log_spec thr ts pend [] = map (log_line ts) pend"
| "log_spec thr ts pend (Log level body # cs) =
     log_spec thr ts (if level_value level \<le> level_value thr then pend @ [entry_of level body] else pend) cs"
| "log_spec thr ts pend (Turn ts' # cs) = map (log_line ts') pend @ log_spec thr ts [] cs"

text \<open>The consumer keeps up: there is a free slot for every message.\<close>

fun log_fits :: "nat \<Rightarrow> log_level \<Rightarrow> nat \<Rightarrow> log_call list \<Rightarrow> bool" where
  "log_fits cap thr k [] \<longleftrightarrow> True"
| "log_fits cap thr k (Log level body # cs) \<longleftrightarrow>
     (if level_value level \<le> level_value thr then k < cap \<and> log_fits cap thr (Suc k) cs else log_fits cap thr k cs)"
| "log_fits cap thr k (Turn ts # cs) \<longleftrightarrow> log_fits cap thr 0 cs"

lemma log_msg_rep:
  assumes "ring_rep (lg_ring lg) old pend" and "length pend < length (mpsc_slots (lg_ring lg))" and "length old + length pend < 2 ^ 64 - 3"
    and "level_value level \<le> level_value (threshold lg)" and "0 \<le> log_fd lg"
  shows "\<exists>r' n. log_msg level body lg = Some (lg\<lparr>lg_ring := r', wake_count := n\<rparr>) \<and> ring_rep r' old (pend @ [entry_of level body]) \<and>
    length (mpsc_slots r') = length (mpsc_slots (lg_ring lg))"
proof -
  obtain r' where r': "ring_put (entry_of level body) (lg_ring lg) = Some r'" "ring_rep r' old (pend @ [entry_of level body])"
      "length (mpsc_slots r') = length (mpsc_slots (lg_ring lg))"
    using log_ring.put_room [OF assms(1,2,3)] by blast
  then obtain h r1 where "mpsc_alloc (lg_ring lg) = Some (h, r1)" "r' = commit h (handleData h (entry_of level body) r1)"
    by (auto simp: ring_put_def)
  then show ?thesis using r'(2,3) assms(4,5)
    by (intro exI [of _ r'] exI [of _ "if wake_fd lg \<ge> 0 then wake_count lg + 1 else wake_count lg"])
       (simp add: log_msg_def entry_of_def Let_def)
qed

lemma consumer_turn_rep:
  assumes "ring_rep (lg_ring lg) old pend" and "\<not> stopped lg"
  shows "\<exists>r' n. consumer_turn ts lg = Some (lg\<lparr>log_file := log_file lg @ map (log_line ts) pend, lg_ring := r', wake_count := n\<rparr>) \<and>
    ring_rep r' (old @ pend) [] \<and> length (mpsc_slots r') = length (mpsc_slots (lg_ring lg))"
proof (cases pend)
  case Nil
  then show ?thesis using log_ring.peek_empty [of "lg_ring lg" old] assms
    by (auto simp: consumer_turn_def intro!: exI [of _ "lg_ring lg"] exI [of _ 0])
next
  case (Cons e pend')
  have "consumer_turn ts lg = drain ts lg"
    using log_ring.peek_front [of "lg_ring lg" old e pend'] assms Cons by (subst drain.simps) (simp add: consumer_turn_def)
  moreover obtain r' where "drain ts lg = Some (lg\<lparr>log_file := log_file lg @ map (log_line ts) pend, lg_ring := r'\<rparr>)"
      "ring_rep r' (old @ pend) []" "length (mpsc_slots r') = length (mpsc_slots (lg_ring lg))"
    using drain_all [OF assms(1)] by blast
  ultimately show ?thesis by (intro exI [of _ r'] exI [of _ "wake_count lg"]) simp
qed

lemma log_run_rep:
  assumes "ring_rep (lg_ring lg) old pend" and "\<not> stopped lg" and "0 \<le> log_fd lg"
    and "log_fits (length (mpsc_slots (lg_ring lg))) (threshold lg) (length pend) cs"
    and "length old + length pend + length cs < 2 ^ 64 - 3"
  shows "\<exists>lg' old' pend'. log_run cs lg = Some lg' \<and> ring_rep (lg_ring lg') old' pend' \<and> \<not> stopped lg' \<and> 0 \<le> log_fd lg' \<and>
    log_file lg' @ map (log_line ts) pend' = log_file lg @ log_spec (threshold lg) ts pend cs"
  using assms
proof (induction cs arbitrary: lg old pend)
  case (Cons c cs)
  show ?case
  proof (cases c)
    case (Log level body)
    show ?thesis
    proof (cases "level_value level \<le> level_value (threshold lg)")
      case True
      obtain r' n where "log_msg level body lg = Some (lg\<lparr>lg_ring := r', wake_count := n\<rparr>)" "ring_rep r' old (pend @ [entry_of level body])"
          "length (mpsc_slots r') = length (mpsc_slots (lg_ring lg))"
        using log_msg_rep [OF Cons.prems(1) _ _ True Cons.prems(3), of body] Cons.prems(4,5) True Log by auto
      then show ?thesis
        using Cons.IH [of "lg\<lparr>lg_ring := r', wake_count := n\<rparr>" old "pend @ [entry_of level body]"] Cons.prems True Log by simp
    next
      case False
      then show ?thesis using Cons.IH [OF Cons.prems(1)] Cons.prems Log by (simp add: log_msg_def)
    qed
  next
    case (Turn ts')
    obtain r' n where "consumer_turn ts' lg = Some (lg\<lparr>log_file := log_file lg @ map (log_line ts') pend, lg_ring := r', wake_count := n\<rparr>)"
        "ring_rep r' (old @ pend) []" "length (mpsc_slots r') = length (mpsc_slots (lg_ring lg))"
      using consumer_turn_rep [OF Cons.prems(1,2)] by blast
    then show ?thesis
      using Cons.IH [of "lg\<lparr>log_file := log_file lg @ map (log_line ts') pend, lg_ring := r', wake_count := n\<rparr>" "old @ pend" "[]"] Cons.prems Turn
      by simp
  qed
qed auto



end
