(* ===== verification/Book_Display.thy ===== *)
theory Book_Display
  imports Matching_Theorems Bytes
begin

text \<open>
  The two display functions of \<^verbatim>\<open>src/order_book.cpp\<close>, \<^verbatim>\<open>printBook\<close> and \<^verbatim>\<open>getBookString\<close>, as the text they
  produce.
\<close>

section \<open>The text\<close>

definition dec :: "nat \<Rightarrow> string" where
  "dec n = map (\<lambda>b. char_of (unat b)) (decimal n)"

definition nl :: string where "nl = [CHR 0x0A]"

text \<open>The line of one level.\<close>

definition show_level :: "nat \<Rightarrow> u32 \<Rightarrow> u32 \<Rightarrow> string" where
  "show_level i p vol = dec i @ '' : price = '' @ dec (unat p) @ ''  ->  total = '' @ dec (unat vol) @ nl"

text \<open>The loop over the levels, with the counter that stops it.\<close>

fun show_levels :: "int \<Rightarrow> nat \<Rightarrow> order list \<Rightarrow> levels \<Rightarrow> string option" where
  "show_levels n c st [] = Some []"
| "show_levels n c st ((p, level) # ls) =
     (if int c \<ge> n then Some []
      else do {
        total_vol \<leftarrow> walk_level (Suc (length st)) st (\<lambda>o' t. t + remaining_qty o') (head_idx level) 0;
        rest \<leftarrow> show_levels n (Suc c) st ls;
        Some (show_level c p total_vol @ rest)
      })"

definition book_begin :: string where "book_begin = nl @ ''==============BOOK_BEGIN=============='' @ nl"

definition book_end :: string where "book_end = ''==============BOOK_END=============='' @ nl"

definition getBookString :: "int \<Rightarrow> order_book \<Rightarrow> string option" where
  "getBookString n b = do {
     a \<leftarrow> show_levels n 0 (storage (ob_pool b)) (asks b);
     d \<leftarrow> show_levels n 0 (storage (ob_pool b)) (bids b);
     Some (book_begin @ nl @ ''ASKS:'' @ nl @ a @ nl @ ''BIDS:'' @ nl @ d @ book_end)
   }"

text \<open>What \<^verbatim>\<open>printBook\<close> writes to the standard output.\<close>

definition printBook :: "int \<Rightarrow> order_book \<Rightarrow> string option" where
  "printBook n b = do {
     a \<leftarrow> show_levels n 0 (storage (ob_pool b)) (asks b);
     d \<leftarrow> show_levels n 0 (storage (ob_pool b)) (bids b);
     Some (book_begin @ nl @ ''ASKS:'' @ nl @ a @ nl @ ''BIDS:'' @ nl @ d @ nl @ book_end)
   }"

section \<open>The depth of a queue\<close>

text \<open>The prices of a queue with the quantity that rests at each.\<close>

fun depth :: "order list \<Rightarrow> (u32 \<times> u32) list" where
  "depth [] = []"
| "depth (r # q) = (case depth q of
     [] \<Rightarrow> [(price r, remaining_qty r)]
   | (p, v) # d \<Rightarrow> if p = price r then (p, remaining_qty r + v) # d else (price r, remaining_qty r) # (p, v) # d)"

lemma depth_prices: "fst ` set (depth q) = price ` set q"
proof (induction q)
  case (Cons r q)
  note IH = Cons.IH
  show ?case
  proof (cases "depth q")
    case Nil
    then show ?thesis using IH by simp
  next
    case (Cons x d)
    obtain a v where "x = (a, v)" by (cases x)
    then have "insert a (fst ` set d) = price ` set q" and q: "depth q = (a, v) # d" using Cons IH by simp_all
    then show ?thesis by (cases "a = price r") auto
  qed
qed simp

lemma depth_level:
  assumes "xs \<noteq> []" and "\<forall>x \<in> set xs. price x = p" and "\<forall>y \<in> set ys. price y \<noteq> p"
  shows "depth (xs @ ys) = (p, sum_list (map remaining_qty xs)) # depth ys"
  using assms(1,2)
proof (induction xs)
  case (Cons x xs)
  have "p \<notin> fst ` set (depth ys)" unfolding depth_prices using assms(3) by auto
  then have ys: "depth ys = [] \<or> (\<exists>p' v d. depth ys = (p', v) # d \<and> p' \<noteq> p)" by (cases "depth ys") auto
  show ?case
  proof (cases "xs = []")
    case True
    then show ?thesis using Cons.prems ys by auto
  next
    case False
    then show ?thesis using Cons by simp
  qed
qed simp

lemma level_volume:
  assumes "level_rep st s (p, l) ss"
  shows "total_qty l = sum_list (map (\<lambda>i. remaining_qty (st ! unat i)) ss)"
proof -
  have "map (fld remaining_qty st) ss = map (\<lambda>i. remaining_qty (st ! unat i)) ss" by (rule map_cong) (simp_all add: fld_def)
  then show ?thesis using assms unfolding level_rep_def by (metis snd_conv)
qed

lemma depth_levels:
  assumes "list_all2 (level_rep st s) ls sss" and "om_sorted (level_lt s) ls"
  shows "depth (map (\<lambda>i. core (st ! unat i)) (concat sss)) = map (\<lambda>(p, l). (p, total_qty l)) ls"
  using assms
proof (induction rule: list_all2_induct)
  case (Cons e ls ss sss)
  obtain p l where e: "e = (p, l)" by (cases e)
  let ?f = "\<lambda>i. core (st ! unat i)"
  have later: "price y \<noteq> p" if y: "y \<in> set (map ?f (concat sss))" for y
  proof -
    obtain x where x: "x \<in> set (concat sss)" "y = ?f x" using y by auto
    have "price y \<in> fst ` set ls" using side_rep_prices [OF Cons.hyps(2) x(1)] x(2) by simp
    then have "level_lt s p (price y)" using Cons.prems by (auto simp: e)
    then show ?thesis by (auto simp: level_lt_def split: if_splits)
  qed
  have "total_qty l = sum_list (map remaining_qty (map ?f ss))" using level_volume [OF Cons.hyps(1) [unfolded e]] by (simp add: comp_def)
  moreover have "\<forall>x \<in> set (map ?f ss). price x = p" using level_rep_price [OF Cons.hyps(1)] by (auto simp: e)
  moreover have "map ?f ss \<noteq> []" using level_rep_nonempty [OF Cons.hyps(1)] by simp
  ultimately show ?case
    using depth_level [of "map ?f ss" p "map ?f (concat sss)"] later Cons.IH Cons.prems by (simp add: e)
qed simp

lemma fold_volume: "fold (\<lambda>i t. t + f i) xs a = a + sum_list (map f xs)" for a :: u32
  by (induction xs arbitrary: a) (simp_all add: algebra_simps)

fun depth_lines :: "nat \<Rightarrow> (u32 \<times> u32) list \<Rightarrow> string" where
  "depth_lines c [] = []"
| "depth_lines c ((p, v) # d) = show_level c p v @ depth_lines (Suc c) d"

lemma show_levels_rep:
  assumes "list_all2 (level_rep st s) ls sss"
  shows "show_levels n c st ls = Some (depth_lines c (take (nat (n - int c)) (map (\<lambda>(p, l). (p, total_qty l)) ls)))"
  using assms
proof (induction arbitrary: c rule: list_all2_induct)
  case (Cons e ls ss sss)
  obtain p l where e: "e = (p, l)" by (cases e)
  have "walk_level (Suc (length st)) st (\<lambda>o' t. t + remaining_qty o') (head_idx l) 0 = Some (total_qty l)"
    unfolding walk_level_rep [OF Cons.hyps(1) [unfolded e]] fold_volume level_volume [OF Cons.hyps(1) [unfolded e]] by simp
  moreover have "nat (n - int c) = Suc (nat (n - int (Suc c)))" if "int c < n" using that by simp
  ultimately show ?case using Cons.IH [of "Suc c"] by (simp add: e)
qed simp

lemma show_side:
  assumes "book_inv b" and "s \<noteq> INVALID"
  shows "show_levels n 0 (storage (ob_pool b)) (levels_of s b) = Some (depth_lines 0 (take (nat n) (depth (queue_of s b))))"
proof -
  obtain R F fl where rep: "book_rep b R F fl" using assms(1) by (auto simp: book_inv_def)
  have "list_all2 (level_rep (ob_storage b) s) (levels_of s b) (R s)" "om_sorted (level_lt s) (levels_of s b)"
    using book_rep_side [OF rep assms(2)] by (simp_all add: side_rep_def)
  then show ?thesis using show_levels_rep [of "ob_storage b" s "levels_of s b" "R s" n 0] depth_levels queue_of_rep [OF rep assms(2)] by simp
qed

text \<open>
  C40: the displays show the depth of the book.  On every well-formed book both display functions return;
  they list, asks first, the best \<open>n\<close> prices of each side with the quantity resting at each,
  although they add up the orders themselves and the book keeps the totals incrementally.
\<close>

theorem display_shows_depth:
  assumes "book_inv b"
  shows "getBookString n b = Some (book_begin @ nl @ ''ASKS:'' @ nl @ depth_lines 0 (take (nat n) (depth (queue_of SELL b))) @
      nl @ ''BIDS:'' @ nl @ depth_lines 0 (take (nat n) (depth (queue_of BUY b))) @ book_end) \<and>
    printBook n b = Some (book_begin @ nl @ ''ASKS:'' @ nl @ depth_lines 0 (take (nat n) (depth (queue_of SELL b))) @
      nl @ ''BIDS:'' @ nl @ depth_lines 0 (take (nat n) (depth (queue_of BUY b))) @ nl @ book_end)"
  using show_side [OF assms, of SELL n] show_side [OF assms, of BUY n]
  by (simp add: getBookString_def printBook_def levels_of_def)

theorem display_shows_depth_witness:
  "\<exists>a d. getBookString 1 (book_at 1 demo3) = Some (book_begin @ nl @ ''ASKS:'' @ nl @ a @ nl @ ''BIDS:'' @ nl @ d @ book_end) \<and>
    a = show_level 0 120 7 \<and> d = show_level 0 100 9"
  using display_shows_depth [OF demo_inv, of 1] demo3 by simp

end
