(* ===== verification/Storage_Theorems.thy ===== *)
theory Storage_Theorems
  imports Engine_Spec
begin

text \<open>
  What the three stores under the engine promise: the pool of order slots, the index from references to
  slots, and the ring of log entries.
\<close>

section \<open>Histories of the pool\<close>

text \<open>A pool and the slots its clients hold; a client may write anything into a slot it holds.\<close>

inductive pool_history :: "nat \<Rightarrow> order_pool \<Rightarrow> u32 set \<Rightarrow> bool" for n where
  made: "pool_history n (new_OrderPool n) {}"
| given: "pool_history n p U \<Longrightarrow> allocate p = Some (Some x, p') \<Longrightarrow> pool_history n p' (insert x U)"
| refused: "pool_history n p U \<Longrightarrow> allocate p = Some (None, p') \<Longrightarrow> pool_history n p' U"
| written: "pool_history n p U \<Longrightarrow> x \<in> U \<Longrightarrow> pool_upd p x f = Some p' \<Longrightarrow> pool_history n p' U"
| returned: "pool_history n p U \<Longrightarrow> x \<in> U \<Longrightarrow> deallocate x p = Some p' \<Longrightarrow> pool_history n p' (U - {x})"

definition pool_holds :: "nat \<Rightarrow> order_pool \<Rightarrow> u32 set \<Rightarrow> u32 list \<Rightarrow> bool" where
  "pool_holds n p U fl \<longleftrightarrow> pool_inv p fl \<and> capacity p = n \<and> U = live_slots p fl"

lemma pool_history_inv:
  assumes "pool_history n p U" and n: "0 < n" "n \<le> unat UINT32_MAX"
  shows "\<exists>fl. pool_holds n p U fl"
  using assms(1)
proof induction
  case made
  have "x \<in> of_nat ` {0..<n}" if "unat x < n" for x :: u32 using that by (auto simp: image_iff intro!: bexI [of _ "unat x"])
  then have "live_slots (new_OrderPool n) (map of_nat [0..<n]) = {}"
    by (auto simp: live_slots_def new_OrderPool_def initFreeList_def)
  then show ?case using new_OrderPool_inv [OF n]
    by (intro exI [of _ "map of_nat [0..<n]"]) (simp add: pool_holds_def new_OrderPool_def initFreeList_def)
next
  case (given p U x p')
  then obtain fl where h: "pool_holds n p U fl" by blast
  then obtain fl' where fl: "fl = x # fl'" using allocate_empty [of p] allocate_slot(1) [of p] given.hyps(2)
    by (cases fl) (auto simp: pool_holds_def)
  note a = allocate_slot [of p x fl'] and d = pool_inv_distinct [of p fl]
  have p: "pool_inv p (x # fl')" "unat x < capacity p" using h fl by (auto simp: pool_holds_def pool_inv_def)
  have p': "pool_inv p' fl'" "capacity p' = capacity p" using a(1) [OF p(1)] a(2) [OF p(1)] given.hyps(2) by auto
  have "insert x U = live_slots p' fl'" using h fl p p'(2) d by (auto simp: pool_holds_def live_slots_def)
  then show ?case using h p' by (auto simp: pool_holds_def)
next
  case (refused p U p')
  then obtain fl where h: "pool_holds n p U fl" by blast
  then have "fl = []" using allocate_slot(1) [of p] refused.hyps(2) by (cases fl) (auto simp: pool_holds_def)
  then show ?case using h allocate_empty [of p] refused.hyps(2) by (auto simp: pool_holds_def)
next
  case (written p U x f p')
  then obtain fl where h: "pool_holds n p U fl" by blast
  then have "x \<notin> set fl" "unat x < capacity p" using written.hyps(2) by (auto simp: pool_holds_def live_slots_def)
  then show ?case using pool_upd_live [of p fl x f] h written.hyps(3) by (auto simp: pool_holds_def live_slots_def)
next
  case (returned p U x p')
  then obtain fl where h: "pool_holds n p U fl" by blast
  then have "x \<notin> set fl" "unat x < capacity p" using returned.hyps(2) by (auto simp: pool_holds_def live_slots_def)
  then show ?case using deallocate_slot [of p fl x] h returned.hyps(3) by (auto simp: pool_holds_def live_slots_def)
qed

section \<open>Theorems\<close>

text \<open>
  C15: the pool never hands a slot to two clients and never leaves its storage.  After any history of
  allocations, writes to held slots and releases, the slots held are slots of the storage and as many as
  the pool counts; a further allocation yields a slot nobody holds as long as one is free and is refused
  when none is; and every held slot can be released.
\<close>

theorem pool_hands_out_each_slot_once:
  assumes "pool_history n p U" and "0 < n" and "n \<le> unat UINT32_MAX"
  shows "(\<forall>x \<in> U. unat x < n) \<and> unat (pool_size p) = card U \<and>
    (card U < n \<longrightarrow> (\<exists>x p'. allocate p = Some (Some x, p') \<and> x \<notin> U)) \<and> (card U = n \<longrightarrow> (\<exists>p'. allocate p = Some (None, p'))) \<and>
    (\<forall>x \<in> U. \<exists>p'. deallocate x p = Some p')"
proof -
  obtain fl where h: "pool_inv p fl" "capacity p = n" "U = live_slots p fl"
    using pool_history_inv [OF assms] by (auto simp: pool_holds_def)
  have fl: "set fl \<subseteq> {x. unat x < n}" "distinct fl" using h(1,2) pool_inv_distinct by (auto simp: pool_inv_def)
  have n: "n \<le> 2 ^ 32" using assms(3) by simp
  have card: "card U = n - length fl" "length fl \<le> n"
    using card_slots [OF n] fl h(2,3) pool_inv_length [OF h(1)] by (simp_all add: live_slots_def card_Diff_subset distinct_card)
  have "unat (pool_size p) = card U"
  proof -
    have "pool_size p = of_nat (n - length fl)" using h(1,2) unfolding pool_inv_def by simp
    then have "unat (pool_size p) = (n - length fl) mod 2 ^ 64" by (simp only: unat_of_nat) simp
    then show ?thesis using card(1) n by simp
  qed
  moreover have "\<exists>x p'. allocate p = Some (Some x, p') \<and> x \<notin> U" if lt: "card U < n"
  proof -
    obtain x fl' where "fl = x # fl'" using lt card by (cases fl) auto
    then show ?thesis using allocate_slot(1) [of p x fl'] h by (auto simp: live_slots_def)
  qed
  moreover have "\<exists>p'. allocate p = Some (None, p')" if "card U = n"
    using that card assms(2) allocate_empty h(1) by (cases fl) auto
  ultimately show ?thesis using h deallocate_slot [OF h(1)] by (auto simp: live_slots_def)
qed

theorem pool_hands_out_each_slot_once_witness:
  "\<exists>x p. allocate (new_OrderPool 3) = Some (Some x, p) \<and> unat (pool_size p) = 1 \<and> (\<exists>y p'. allocate p = Some (Some y, p') \<and> y \<noteq> x)"
proof -
  obtain x p where x: "allocate (new_OrderPool 3) = Some (Some x, p)"
    using pool_hands_out_each_slot_once [OF pool_history.made, of 3] by auto
  have "pool_history 3 p {x}" using pool_history.given [OF pool_history.made x] by simp
  from pool_hands_out_each_slot_once [OF this] x show ?thesis by auto
qed

text \<open>
  C16: the index is a finite map and its loops end.  On every well-formed index a lookup returns exactly the
  entry of the map the index stands for, erasing removes exactly that entry, and inserting a new
  reference either adds exactly that entry or, when the index has no room, changes nothing and says so;
  there is room whenever no bucket has become a tree and fewer entries are live than the index has
  nodes.  A new index is well formed and empty.
\<close>

theorem index_is_partial_map:
  "(map_inv m \<longrightarrow> map_find m k = Some (map_abs m k) \<and>
     (\<exists>m'. map_erase k m = Some m' \<and> map_inv m' \<and> map_abs m' = (map_abs m)(k := None)) \<and>
     (map_abs m k = None \<longrightarrow> (\<exists>r m'. map_insert k v m = Some (r, m') \<and> map_inv m' \<and> r = map_room m k \<and>
        map_abs m' = (if r then (map_abs m)(k \<mapsto> v) else map_abs m))) \<and>
     ((\<forall>s \<in> set (bstate m). s = 0) \<longrightarrow> card (dom (map_abs m)) < length (nodes m) \<longrightarrow> map_room m k)) \<and>
   (2 \<le> n \<longrightarrow> n \<le> 2 ^ 31 \<longrightarrow> map_inv (new_OrderMap n) \<and> map_abs (new_OrderMap n) = Map.empty)"
proof -
  have "map_find m k = Some (map_abs m k) \<and>
     (\<exists>m'. map_erase k m = Some m' \<and> map_inv m' \<and> map_abs m' = (map_abs m)(k := None)) \<and>
     (map_abs m k = None \<longrightarrow> (\<exists>r m'. map_insert k v m = Some (r, m') \<and> map_inv m' \<and> r = map_room m k \<and>
        map_abs m' = (if r then (map_abs m)(k \<mapsto> v) else map_abs m)))" if inv: "map_inv m"
    using order_index.find_abs [OF inv] order_index.erase_abs [OF inv] order_index.insert_total [OF inv] by blast
  then show ?thesis using map_room_no_tree new_OrderMap_inv new_OrderMap_rep(2) by blast
qed

theorem index_is_partial_map_witness:
  "\<exists>m'. map_insert 7 3 (new_OrderMap 4) = Some (map_room (new_OrderMap 4) 7, m') \<and> map_find (new_OrderMap 4) 7 = Some None \<and> map_inv m'"
proof -
  have new: "map_inv (new_OrderMap 4)" "map_abs (new_OrderMap 4) = Map.empty"
    using index_is_partial_map [of undefined 0 0 4] by simp_all
  then show ?thesis using index_is_partial_map [of "new_OrderMap 4" 7 3 4] by auto
qed

text \<open>
  C17: the log is a ring that stays in its file.  However many entries are appended (fewer than \<open>2 ^ 64\<close> in
  all), the last 13421772 of them are found at their positions, the write position is inside the
  file, and nothing outside it is touched.
\<close>

theorem wal_keeps_latest:
  assumes "unat (wal_total w) + length es < 2 ^ 64"
  shows "(\<forall>j < length es. length es - j \<le> 13421772 \<longrightarrow> wal_base (appends es w) (wal_pos (unat (wal_total w) + j)) = es ! j) \<and>
    curPosition (appends es w) < WAL_ENTRIES \<and> (\<forall>p \<ge> WAL_ENTRIES. wal_base (appends es w) p = wal_base w p)"
proof -
  have m: "x mod WAL_ENTRIES < WAL_ENTRIES" for x :: u64 by (simp add: word_less_nat_alt unat_mod unat_WAL_ENTRIES)
  have "wal_base (appends es w) p = wal_base w p" if p: "p \<ge> WAL_ENTRIES" for p
  proof (induction es rule: rev_induct)
    case (snoc en es)
    have "wal_total (appends es w) mod WAL_ENTRIES \<noteq> p" using m [of "wal_total (appends es w)"] p by auto
    then show ?case using snoc by (simp add: appends_def wal_append_def Let_def)
  qed (simp add: appends_def)
  then show ?thesis using appends_base [OF assms] m by (simp add: curPosition_def)
qed

theorem wal_keeps_latest_witness:
  "wal_base (appends [zero_entry\<lparr>we_type := 1\<rparr>, zero_entry\<lparr>we_type := 2\<rparr>] \<lparr>wal_base = (\<lambda>_. zero_entry), wal_total = 13421771\<rparr>)
     (wal_pos 13421772) = zero_entry\<lparr>we_type := 2\<rparr>"
proof -
  let ?w = "\<lparr>wal_base = (\<lambda>_. zero_entry), wal_total = 13421771\<rparr>" and ?es = "[zero_entry\<lparr>we_type := 1\<rparr>, zero_entry\<lparr>we_type := 2\<rparr>]"
  have a: "unat (wal_total ?w) + length ?es < 2 ^ 64" and b: "(1 :: nat) < length ?es" "length ?es - 1 \<le> 13421772"
    and c: "unat (wal_total ?w) + 1 = 13421772" by simp_all
  from wal_keeps_latest [OF a] b have "wal_base (appends ?es ?w) (wal_pos (unat (wal_total ?w) + 1)) = ?es ! 1" by blast
  then show ?thesis unfolding c by simp
qed

end
