(* ===== verification/Findings.thy ===== *)
theory Findings
  imports Startup Tcp_Server
begin

text \<open>
  Runs of the model on which the code does something its comments, its documentation or its own
  responses deny.  Each theorem evaluates one concrete run, or one branch in general, from start to end;
  together they explain the hypotheses of the theorems about recovery and about running engines.
\<close>

section \<open>Runs\<close>

text \<open>A fresh engine with an empty log, requests served one after the other, and the log they leave.\<close>

definition fresh :: engine where
  "fresh = (new_engine_owned 2 None)\<lparr>wal := Some blank_wal\<rparr>"

fun serve :: "command list \<Rightarrow> engine \<Rightarrow> (response list \<times> engine) option" where
  "serve [] e = Some ([], e)"
| "serve (c # cs) e = do {
     (rs, e1) \<leftarrow> exec c e;
     (rs', e2) \<leftarrow> serve cs e1;
     Some (rs @ rs', e2)
   }"

definition journal :: "engine \<Rightarrow> wal_entry list" where
  "journal e = (case wal e of None \<Rightarrow> [] | Some w \<Rightarrow> map (\<lambda>i. wal_base w (of_nat i)) [0..<unat (wal_total w)])"

text \<open>The references and remaining quantities of a queue.\<close>

definition queued :: "u64 \<Rightarrow> side \<Rightarrow> engine \<Rightarrow> (u64 \<times> u32) list" where
  "queued l s e = map (\<lambda>r. (order_id r, remaining_qty r)) (engine_view e l s)"

definition served :: "command list \<Rightarrow> (response list \<Rightarrow> engine \<Rightarrow> bool) \<Rightarrow> bool" where
  "served cs P \<longleftrightarrow> (case serve cs fresh of None \<Rightarrow> False | Some (rs, e) \<Rightarrow> P rs e)"

definition replayed :: "engine \<Rightarrow> (engine \<Rightarrow> bool) \<Rightarrow> bool" where
  "replayed e P \<longleftrightarrow> (case replay_entries (journal e) fresh of None \<Rightarrow> False | Some e' \<Rightarrow> P e')"

text \<open>The restart on the shared memory the engine leaves behind when it crashes.\<close>

definition restarted :: "engine \<Rightarrow> (engine \<Rightarrow> bool) \<Rightarrow> bool" where
  "restarted e P \<longleftrightarrow> (case boot_engine False (storage (shared_pool e)) None (the (wal e)) None None of None \<Rightarrow> False | Some e' \<Rightarrow> P e')"

section \<open>Recovery\<close>

text \<open>
  The log does not record the time in force: the remainder of an immediate-or-cancel order, discarded
  when the order was served, rests in the book after a replay.
\<close>

theorem replay_rests_immediate_order:
  "served [Add 1 11 SELL 100 2 41 DAY, Add 1 12 BUY 100 5 42 IOC]
     (\<lambda>rs e. queued 1 BUY e = [] \<and> replayed e (\<lambda>e'. queued 1 BUY e' = [(12, 3)]))"
  by code_simp

text \<open>
  The log entry of a replacement holds the new reference only, and the replay looks that one up: the
  order that was replaced is back and its replacement is lost.
\<close>

theorem replay_undoes_replacement:
  "served [Add 1 11 BUY 100 5 41 DAY, Replace 1 11 12 BUY 90 4 41]
     (\<lambda>rs e. queued 1 BUY e = [(12, 4)] \<and> replayed e (\<lambda>e'. queued 1 BUY e' = [(11, 5)]))"
  by code_simp

text \<open>A partial cancel by a stranger is refused, but logged, and the replay does not check its owner.\<close>

theorem replay_obeys_stranger:
  "served [Add 1 11 BUY 100 5 41 DAY, CancelShares 1 11 2 99]
     (\<lambda>rs e. last rs = RSP_ERROR ORDER_NOT_FOUND \<and> queued 1 BUY e = [(11, 5)] \<and> replayed e (\<lambda>e'. queued 1 BUY e' = [(11, 3)]))"
  by code_simp

text \<open>
  A removed order keeps its reference and its status in its slot, and no slot records its book: a
  restart on the shared memory brings a cancelled order of book 1 back, into book 0.
\<close>

theorem restart_revives_cancelled_order:
  "served [Add 1 11 BUY 100 5 41 DAY, Cancel 1 11 41]
     (\<lambda>rs e. last rs = RSP_CANCELLED 11 \<and> queued 1 BUY e = [] \<and> restarted e (\<lambda>e'. queued 0 BUY e' = [(11, 5)]))"
  by code_simp

text \<open>
  A writer that opens an existing log takes it for full: it asks for a checkpoint at once, and its
  first entry replaces the oldest one, which the next replay reads first.
\<close>

theorem reopened_log_overwrites_oldest:
  assumes "wf_size f = WAL_SIZE" and "WalWriter_init True True f = (Some w, f1)"
  shows "needCheckpoint w" and "wal_base (wal_append en w) 0 = en"
proof -
  have "wal_total w = WAL_ENTRIES" using assms by (auto simp: WalWriter_init_def Let_def WAL_ENTRIES_def WAL_SIZE_def)
  then show "needCheckpoint w" "wal_base (wal_append en w) 0 = en"
    by (simp_all add: needCheckpoint_def wal_append_def Let_def WAL_ENTRIES_value)
qed

section \<open>Requests\<close>

text \<open>
  The index spans all books: a cancel that names the wrong book finds the order, reports it cancelled,
  and leaves it where it rests.
\<close>

theorem cancel_in_wrong_book_is_acknowledged:
  "served [Add 1 11 BUY 100 5 41 DAY, Cancel 2 11 41] (\<lambda>rs e. last rs = RSP_CANCELLED 11 \<and> queued 1 BUY e = [(11, 5)])"
  by code_simp

text \<open>A replacement is not validated: an order without quantity rests.\<close>

theorem replacement_rests_without_quantity:
  "served [Add 1 11 BUY 100 5 41 DAY, Replace 1 11 12 BUY 90 0 41] (\<lambda>rs e. last rs = RSP_OK 12 \<and> queued 1 BUY e = [(12, 0)])"
  by code_simp

text \<open>
  The check of a fill-or-kill order counts the user's own orders, which the matching passes over: the order
  trades a part of its quantity and is then reported as killed.
\<close>

theorem fill_or_kill_fills_partly:
  "served [Add 1 11 SELL 100 2 41 DAY, Add 1 12 SELL 100 3 42 DAY, Add 1 13 BUY 100 5 42 FOK]
     (\<lambda>rs e. drop 2 rs = [RSP_TRADE 1 11 SIDE_SELL 100 2, RSP_ERROR FOK_NO_FULL_FILL] \<and> queued 1 SELL e = [(12, 3)])"
  by code_simp

section \<open>The index\<close>

text \<open>
  Nodes of a bucket that became a tree are never returned: after eight colliding references have come
  and gone the index of eight nodes is empty and refuses every new reference of another bucket, while
  \<^verbatim>\<open>addOrder\<close> ignores the refusal.
\<close>

fun insert_refs :: "u64 list \<Rightarrow> order_map \<Rightarrow> order_map option" where
  "insert_refs [] m = Some m"
| "insert_refs (k # ks) m = do { (ok, m1) \<leftarrow> map_insert k 0 m; insert_refs ks m1 }"

fun erase_refs :: "u64 list \<Rightarrow> order_map \<Rightarrow> order_map option" where
  "erase_refs [] m = Some m"
| "erase_refs (k # ks) m = do { m1 \<leftarrow> map_erase k m; erase_refs ks m1 }"

definition worn_index :: "order_map option" where
  "worn_index = do {
     m \<leftarrow> insert_refs [5, 13, 18, 26, 34, 39, 47, 60] (new_OrderMap 8);
     erase_refs [5, 13, 18, 26, 34, 39, 47, 60] m
   }"

theorem worn_index_refuses:
  "(case worn_index of None \<Rightarrow> False | Some m \<Rightarrow> list_all (\<lambda>k. map_find m k = Some None) [5, 6, 13, 18, 26, 34, 39, 47, 60] \<and>
     map_option fst (map_insert 6 0 m) = Some False)"
  by code_simp

section \<open>Servers\<close>

text \<open>An option without its value is taken for the port.\<close>

theorem dangling_option_is_port: "parse_args [''--trade-port''] default_args = Some (default_args\<lparr>arg_port := 0\<rparr>)"
  by code_simp

lemma delete_conns_heap:
  "delete_conns cids s = Some s' \<Longrightarrow> ts_heap s' = ts_heap s |` (- set cids) \<and> ts_pending s' = ts_pending s"
proof (induction cids arbitrary: s)
  case (Cons cid cids)
  from Cons.prems obtain c :: conn_context where c: "delete_conns cids (s\<lparr>ts_closed := ts_closed s @ [cc_fd c], ts_heap := (ts_heap s)(cid := None)\<rparr>) = Some s'"
    by (auto simp: bind_eq_Some_conv)
  show ?case using Cons.IH [OF c] by (auto simp: fun_eq_iff restrict_map_def)
qed (simp add: restrict_map_def)

lemma delete_pending_deleted:
  "ts_heap s cid = None \<Longrightarrow> cid \<in> set cids \<Longrightarrow> delete_pending cids s = None"
  by (induction cids arbitrary: s) (auto split: Option.bind_split)

text \<open>
  A connection that still waits for its close is also in the map, so the destructor frees it twice unless
  the shutdown before it has seen every close acknowledged.
\<close>

theorem destructor_frees_twice:
  assumes "cid \<in> set order" and "cid \<in> set (ts_pending s)"
  shows "delete_TcpServer order s = None"
proof (cases "delete_conns order s")
  case (Some s1)
  have "delete_pending (ts_pending s1) (s1\<lparr>ts_conns := Map.empty\<rparr>) = None"
    by (rule delete_pending_deleted [of _ cid]) (simp_all add: delete_conns_heap [OF Some] assms)
  then show ?thesis using Some by (simp add: delete_TcpServer_def)
qed (simp add: delete_TcpServer_def)

text \<open>With no close outstanding it frees every connection of the map once.\<close>

lemma delete_conns_all: "distinct cids \<Longrightarrow> \<forall>cid \<in> set cids. ts_heap s cid \<noteq> None \<Longrightarrow> \<exists>s'. delete_conns cids s = Some s'"
proof (induction cids arbitrary: s)
  case (Cons cid cids)
  then obtain c where c: "ts_heap s cid = Some c" by auto
  have "\<forall>x \<in> set cids. ts_heap (s\<lparr>ts_closed := ts_closed s @ [cc_fd c], ts_heap := (ts_heap s)(cid := None)\<rparr>) x \<noteq> None"
    using Cons.prems by auto
  from Cons.IH [OF _ this] Cons.prems c show ?case by auto
qed simp

theorem destructor_frees_all:
  assumes "distinct order" and "dom (ts_heap s) = set order" and "ts_pending s = []"
  shows "\<exists>s'. delete_TcpServer order s = Some s' \<and> ts_heap s' = Map.empty \<and> ts_conns s' = Map.empty"
proof -
  obtain s1 where s1: "delete_conns order s = Some s1" using delete_conns_all [OF assms(1)] assms(2) by blast
  have "ts_heap s1 = Map.empty" "ts_pending s1 = []"
    using delete_conns_heap [OF s1] assms(2,3) by (auto simp: restrict_map_def fun_eq_iff domIff)
  then show ?thesis using s1 by (simp add: delete_TcpServer_def)
qed

end
