(* ===== verification/Spec2Isabelle.thy ===== *)
theory Spec2Isabelle
  imports Matching_Theorems Connections Market_Feed Trade_Theorems Startup Logger Book_Display Storage_Theorems Findings
begin

text \<open>
  NebulaX is a low-latency exchange: clients send orders, price-time priority matching pairs them, and
  every client is told what happened to its orders.  This library models the program under \<^verbatim>\<open>src/\<close> and
  proves what makes it correct.  Paths below are relative to \<^verbatim>\<open>src/\<close>.

  \<^bold>\<open>The program.\<close>  Three threads and a logger work on one engine.  The IO thread
  (\<^verbatim>\<open>src/tcp_server.cpp\<close>) receives ITCH messages over io_uring, cuts them out of the byte stream, parses
  them (\<^verbatim>\<open>src/itch_parser.cpp\<close>) and calls the engine (\<^verbatim>\<open>src/matching_engine.cpp\<close>), which works on order
  books (\<^verbatim>\<open>src/order_book.cpp\<close>) over one pool of order slots (\<^verbatim>\<open>include/order_pool.h\<close>) and one index
  from references to slots (\<^verbatim>\<open>include/order_map.h\<close>), and appends to a write-ahead log (\<^verbatim>\<open>src/wal.cpp\<close>).
  Responses go through a byte ring (\<^verbatim>\<open>include/spsc_byte_ring.h\<close>) to the send thread (\<^verbatim>\<open>src/main.cpp\<close>,
  \<^verbatim>\<open>src/send_uring.cpp\<close>).  The order entry thread (\<^verbatim>\<open>src/tcp_trade_server.cpp\<close>) speaks OUCH
  (\<^verbatim>\<open>src/ouch_protocol.cpp\<close>) with one client at a time.  Log calls go through a ring with many producers
  (\<^verbatim>\<open>include/mpsc_ring.h\<close>) to the thread of \<^verbatim>\<open>src/logger.cpp\<close>.

  \<^bold>\<open>How the code is translated.\<close>  A class is a record, a method a function from the record to the new
  record, machine integers are words of their width.  An \<^verbatim>\<open>Order*\<close> is the index of its slot; the
  link fields \<^verbatim>\<open>prev_idx\<close> and \<^verbatim>\<open>next_idx\<close> are kept, and the end mark is \<open>UINT32_MAX\<close>.  Undefined
  behaviour (an access outside an array, a dangling pointer) and a loop that never ends are the value
  \<open>None\<close>, so a theorem that yields \<open>Some\<close> excludes both.  What the kernel or another thread contributes
  (the result of a system call, the order of an iterator over a hash map, the chunks a socket delivers)
  is an argument and the theorems hold for all values of it, or name what they need of it.

  \<^bold>\<open>The theories.\<close>
  \<^item> Foundations: \<open>Prelude\<close> (words, checked arrays, collections of rewrite rules), \<open>Linked_List\<close> (lists linked
    by indices), \<open>Ordered_Map\<close> (\<^verbatim>\<open>std::map\<close>, locale \<open>key_order\<close>, interpreted for bids and asks), \<open>Bytes\<close> (byte
    buffers, big-endian fields, decimal fields).
  \<^item> Data: \<open>Order_Types\<close> (\<^verbatim>\<open>order.h\<close>, \<^verbatim>\<open>protocol.h\<close>, \<^verbatim>\<open>metrics.h\<close>, \<^verbatim>\<open>trade_pool.h\<close>, \<^verbatim>\<open>protocol.cpp\<close>).
  \<^item> Stores: \<open>Order_Pool\<close> (locale \<open>slot_allocator\<close>, also interpreted for the receive buffers), \<open>Order_Map\<close> (locale
    \<open>id_index\<close>: the hash index, with its chains and tree buckets, is a partial map), \<open>Wal\<close>;
    \<open>Storage_Theorems\<close> holds what the three promise.
  \<^item> Order book: \<open>Order_Book\<close> (the operations), \<open>Order_Book_Rep\<close> (the representation invariant),
    \<open>Order_Book_Correct\<close> (every operation keeps it), \<open>Order_Book_Spec\<close> (every operation is its
    specification on two priority queues), \<open>Book_Display\<close> (the two text displays).
  \<^item> Engine: \<open>Matching_Engine\<close> (all handlers), \<open>Matching_Spec\<close> and \<open>Matching_Correct\<close> (the matching loops compute
    the rule \<open>match_queue\<close>), \<open>Matching_Props\<close> and \<open>Matching_Theorems\<close> (what the rule does), \<open>Engine_Rep\<close>
    (the invariant of all books over one pool and one index), \<open>Engine_Spec\<close>, \<open>Engine_Cancel\<close> and \<open>Engine_Run\<close>
    (the handlers refine the specification \<open>spec_exec\<close>; runs of requests), \<open>Engine_Log\<close> (what is logged),
    \<open>Engine_Invariants\<close> (what holds of every reachable engine), \<open>Examples\<close> (concrete engines).
  \<^item> Recovery: \<open>Recovery\<close> (snapshot, log replay, shared memory, checkpoint), \<open>Recovery_Theorems\<close> and
    \<open>Log_Replay\<close> (what is restored), \<open>Startup\<close> (command line, construction and recovery in \<^verbatim>\<open>main\<close>, the
    accept thread of the order entry port, and the restart of the whole exchange).
  \<^item> Protocols: \<open>Itch_Parser\<close>, \<open>Itch_Framing\<close>, \<open>Ouch_Protocol\<close>, \<open>Response_Frame\<close>.
  \<^item> Threads: \<open>Spsc_Ring\<close> and \<open>Spsc_Queue\<close> (locale \<open>byte_queue\<close>; the ring under every interleaving of its atomic
    operations), \<open>Uring_Poller\<close>, \<open>Tcp_Server\<close>, \<open>Send_Thread\<close>, \<open>System\<close> and \<open>Connections\<close> (both threads
    together), \<open>Market_Feed\<close> (from bytes to queues), \<open>Tcp_Trade_Server\<close> and \<open>Trade_Theorems\<close>, \<open>Mpsc_Ring\<close>
    and \<open>Logger\<close> (locale \<open>message_queue\<close>).
  \<^item> \<open>Findings\<close>: concrete runs on which the code departs from its comments or its own responses.

  \<^bold>\<open>What is shown.\<close>  The specification of the engine is a pair of priority queues per book;
  \<open>engine_view\<close> reads them out of the linked structure.
  \<^item> Refinement: every handler computes \<open>spec_exec\<close> on the queues, keeps the invariant \<open>engine_ok\<close>, and
    never faults (C1, C2), so a run of any length is safe.
  \<^item> Matching: the loops end and follow the rule (C3), quantity is conserved (C4), trades follow the
    priority (C5) and are exhaustive (C6).
  \<^item> Invariants of reachable engines: uncrossed books (C7), price-time order (C8), sound resting orders
    (C10); time in force (C11, C12); the log (C13).
  \<^item> Durability: replay of the log by a restarted exchange (C9), snapshot (C14).
  \<^item> Stores: pool, index and log ring (C15, C16, C17).
  \<^item> Protocols: the ITCH parser is total and inverts the wire format (C18 to C20); OUCH round trips,
    checksums and layouts (C21 to C24); response frames (C27); framing of any chunking (C28).
  \<^item> Threads: the byte ring is a queue (C25) under all interleavings (C26); responses reach their
    sockets (C29); connections and buffers are neither lost nor dangling (C30) and closes complete (C31).
  \<^item> Sessions: the feed port (C32, C33) and the order entry port (C34 to C37) from bytes to queues and back.
  \<^item> Logging: ring with many producers (C38), no lost line (C39); the displays (C40).

  \<^bold>\<open>Hypotheses.\<close>  \<open>admissible\<close> is what the feed guarantees and the code does not check: a new reference is
  not in use, a request about an order names the book the order is in, a replacement has a side, and the
  index has a free node.  The runs in \<open>Findings\<close> show that each departure has a visible effect.  \<open>sized\<close>
  says that a replacement has a quantity.  \<open>durable\<close> (C9) leaves out replacements, orders that are not
  day orders, and partial cancels by a stranger or of no shares, which the log does not record well enough to be replayed;
  C9 compares orders up to sequence numbers because a replayed order takes the logged number, which is one
  higher.  C38 assumes no more numbers in flight than slots, and \<open>mpsc_overrun_loses_message\<close> shows why.

  \<^bold>\<open>Bounds and fuel.\<close>  Loops along links take fuel \<open>Suc (length array)\<close>: the links of a well-formed
  structure visit each slot at most once, so the fuel is never used up, which the correctness lemmas prove
  by yielding \<open>Some\<close>.  Loops that may not end (matching, the plain send, the wait for an empty ring, the
  logger's drain) are \<open>partial_function (option)\<close>, and their theorems prove that they return.  Capacities are
  between 2 and \<open>2 ^ 31\<close> slots, which covers the \<open>2 ^ 22\<close> of \<^verbatim>\<open>main\<close>.  Quantities, counters and sequence
  numbers are words, and a theorem that needs no overflow says so (\<open>2 ^ 32\<close> shares in C11, \<open>2 ^ 63\<close>
  requests in C8, \<open>2 ^ 64\<close> entries in C17).

  \<^bold>\<open>Not modelled.\<close>  Hardware memory order below the atomic operations (each atomic operation is one
  step); the compare-and-swap loops of pool and index under contention (they are
  translated as they run without interference: the requests of both ports are taken one at a time,
  although only the order entry thread takes the mutex); the contents of system calls (sockets, shared memory, io_uring, fork, signals,
  thread affinity), whose results are arguments; the setup of the send ring (\<^verbatim>\<open>init_send_uring\<close>), which
  only calls the library; time stamps and the formatting of log text; the signal handlers of
  \<^verbatim>\<open>include/crash_guard.h\<close> and \<^verbatim>\<open>include/shutdown_guard.h\<close>, whose flag is an argument of the loops that
  read it; the load generators under \<^verbatim>\<open>benchmark/\<close>, the scripts and the tests, which are not part of the exchange.
\<close>

section \<open>The engine as a whole\<close>

text \<open>
  C1: every handler of the engine computes its specification on the priority queues.  For a well-formed
  engine and an admissible request, the handler returns (no fault, no endless loop), its responses and the
  two queues of the addressed book after it are those of \<open>spec_exec\<close>, every other book keeps its queues,
  and the engine is well formed again.
\<close>

theorem engine_refines_spec:
  assumes "engine_ok e" and "admissible e c"
    and "spec_exec (free_slots e) (next_sequence e) c (engine_view e (locate_of c)) = (rs, Q)"
  shows "\<exists>e'. exec c e = Some (rs, e') \<and> engine_ok e' \<and> engine_view e' = (engine_view e)(locate_of c := Q)"
  using assms by (rule exec_refines)

theorem engine_refines_spec_witness:
  "\<exists>e'. exec (Add 1 14 SELL 90 6 44 DAY) demo3 =
      Some ([RSP_TRADE 1 11 SIDE_BUY 100 5, RSP_TRADE 1 12 SIDE_BUY 100 1, RSP_FILLED 14], e') \<and> engine_ok e' \<and>
    map remaining_qty (engine_view e' 1 BUY) = [3]"
proof -
  let ?c = "Add 1 14 SELL 90 6 44 DAY"
  let ?S = "spec_exec (free_slots demo3) (next_sequence demo3) ?c (engine_view demo3 (locate_of ?c))"
  have a: "admissible demo3 ?c" using demo3 by simp
  have rs: "fst ?S = [RSP_TRADE 1 11 SIDE_BUY 100 5, RSP_TRADE 1 12 SIDE_BUY 100 1, RSP_FILLED 14]"
    and q: "map remaining_qty (snd ?S BUY) = [3]"
    by (simp_all add: demo3 demo_simps spec_add_def spec_accept_def engine_view_def book_view_def add_limit_def)
  have "?S = (fst ?S, snd ?S)" by simp
  from engine_refines_spec [OF demo_ok(3) a this] rs q show ?thesis by auto
qed

text \<open>
  C2: a running engine is never stuck.  After any run of admissible requests from a well-formed engine,
  the engine is well formed and serves every further admissible request: the handler returns responses and
  a next state, so it neither loops forever nor touches memory outside its arrays.
\<close>

theorem engine_runs_safely:
  assumes "engine_ok e0" and "reaches e0 cs rs e" and "admissible e c"
  shows "engine_ok e \<and> (\<exists>rs' e'. exec c e = Some (rs', e') \<and> reaches e0 (cs @ [c]) (rs @ rs') e')"
proof -
  have ok: "engine_ok e" using assms(2,1) by (rule reaches_ok)
  obtain rs' Q where "spec_exec (free_slots e) (next_sequence e) c (engine_view e (locate_of c)) = (rs', Q)" by fastforce
  from exec_refines [OF ok assms(3) this] ok assms show ?thesis by (auto intro: reaches.step)
qed

theorem engine_runs_safely_witness:
  "\<exists>rs' e'. exec (Add 1 11 BUY 100 5 41 DAY) demo0 = Some (rs', e') \<and> reaches demo0 [Add 1 11 BUY 100 5 41 DAY] rs' e'"
proof -
  have "admissible demo0 (Add 1 11 BUY 100 5 41 DAY)" by code_simp
  from engine_runs_safely [OF demo0_ok reaches.start this] show ?thesis by auto
qed

end
